(* ===== verification/Kinetic_Prelude.thy ===== *)
theory Kinetic_Prelude
  imports Main "HOL-Library.Word" "HOL-Library.Multiset"
begin

text \<open>
  What every component shares: the names of the machine types, the byte order of the wire
  (\<open>htonl\<close> / \<open>ntohl\<close> of the C library, read as the four bytes they put in memory), the
  \<open>std::unordered_map\<close> operations the client uses, and generic lemmas with their automation.
\<close>

unbundle bit_operations_syntax

section \<open>Names of the model's types\<close>

type_synonym byte = "8 word"
type_synonym bytes = "byte list"
type_synonym uint32 = "32 word"
type_synonym int64 = "64 word"
type_synonym handler_key = "64 word"

named_theorems conserve \<open>what an operation keeps: bytes on a stream, handlers in a client\<close>

section \<open>Network byte order\<close>

definition be32 :: "uint32 \<Rightarrow> bytes" where
  "be32 x = [ucast (drop_bit 24 x), ucast (drop_bit 16 x), ucast (drop_bit 8 x), ucast x]"

definition unbe32 :: "bytes \<Rightarrow> uint32" where
  "unbe32 bs = (case bs of
     [a, b, c, d] \<Rightarrow>
       push_bit 24 (ucast a) OR push_bit 16 (ucast b) OR push_bit 8 (ucast c) OR ucast d
   | _ \<Rightarrow> 0)"

lemma length_be32 [simp]: "length (be32 x) = 4"
  by (simp add: be32_def)

lemma be32_neq_Nil [simp]: "be32 x \<noteq> []"
  by (simp add: be32_def)

lemma length_4_cases:
  assumes "length bs = 4"
  obtains a b c d where "bs = [a, b, c, d]"
proof -
  have "length bs = Suc (Suc (Suc (Suc 0)))" using assms by simp
  then show ?thesis by (auto simp: length_Suc_conv intro: that)
qed

lemma unbe32_be32 [simp]: "unbe32 (be32 x) = x"
proof (rule bit_word_eqI)
  fix n assume "n < LENGTH(32)"
  then have n: "n < 32" by simp
  consider "n < 8" | "8 \<le> n" "n < 16" | "16 \<le> n" "n < 24" | "24 \<le> n" by linarith
  then show "bit (unbe32 (be32 x)) n = bit x n"
    using n by cases (auto simp: unbe32_def be32_def bit_simps)
qed

lemma byte_bit_beyond: "8 \<le> n \<Longrightarrow> \<not> bit (b :: byte) n"
  using bit_imp_le_length [of b n] by auto

lemma be32_unbe32: "length bs = 4 \<Longrightarrow> be32 (unbe32 bs) = bs"
  by (erule length_4_cases) (auto simp: be32_def unbe32_def bit_simps byte_bit_beyond intro!: bit_word_eqI)

lemma be32_inject [simp]: "be32 x = be32 y \<longleftrightarrow> x = y"
  by (metis unbe32_be32)

lemma unat_of_length32: "n < 2 ^ 32 \<Longrightarrow> unat (of_nat n :: uint32) = n"
  by (simp add: unat_of_nat take_bit_nat_eq_self)

lemma uint32_bound: "unat (x :: uint32) < 2 ^ 32"
  using unsigned_less [of x, where 'a = nat] by simp

lemma be32_of_nat_inject:
  "m < 2 ^ 32 \<Longrightarrow> n < 2 ^ 32 \<Longrightarrow> be32 (of_nat m) = be32 (of_nat n) \<Longrightarrow> m = n"
  by (metis unat_of_length32 unbe32_be32)

section \<open>The unordered maps of the client\<close>

text \<open>
  A \<open>std::unordered_map\<close> is an association list with distinct keys. Its iteration order is
  unspecified in C++; the model iterates in list order, and every property about an iteration
  speaks of the multiset of what was visited.
\<close>

definition um_find :: "'k \<Rightarrow> ('k \<times> 'v) list \<Rightarrow> 'v option" where
  "um_find k m = map_of m k"

definition um_insert :: "'k \<Rightarrow> 'v \<Rightarrow> ('k \<times> 'v) list \<Rightarrow> bool \<times> ('k \<times> 'v) list" where
  "um_insert k v m = (if um_find k m = None then (True, m @ [(k, v)]) else (False, m))"

definition um_erase :: "'k \<Rightarrow> ('k \<times> 'v) list \<Rightarrow> nat \<times> ('k \<times> 'v) list" where
  "um_erase k m = (if um_find k m = None then 0 else 1, filter (\<lambda>e. fst e \<noteq> k) m)"

definition um_wf :: "('k \<times> 'v) list \<Rightarrow> bool" where
  "um_wf m \<longleftrightarrow> distinct (map fst m)"

lemma um_find_Nil [simp]: "um_find k [] = None"
  by (simp add: um_find_def)

lemma um_wf_Nil [simp]: "um_wf []"
  by (simp add: um_wf_def)

lemma um_find_in_set: "um_find k m = Some v \<Longrightarrow> (k, v) \<in> set m"
  by (simp add: um_find_def map_of_SomeD)

lemma um_find_None_iff: "um_find k m = None \<longleftrightarrow> k \<notin> fst ` set m"
  by (simp add: um_find_def map_of_eq_None_iff)

lemma um_find_member: "e \<in> set m \<Longrightarrow> um_find (fst e) m \<noteq> None"
  by (simp only: um_find_None_iff) simp

lemma um_find_Some_iff: "um_wf m \<Longrightarrow> um_find k m = Some v \<longleftrightarrow> (k, v) \<in> set m"
  by (simp add: um_wf_def um_find_def)

lemma um_insert_wf: "um_wf m \<Longrightarrow> um_insert k v m = (b, m') \<Longrightarrow> um_wf m'"
  by (auto simp: um_insert_def um_wf_def um_find_None_iff split: if_splits)

lemma um_erase_wf: "um_wf m \<Longrightarrow> um_wf (snd (um_erase k m))"
  unfolding um_erase_def um_wf_def by (simp add: distinct_map_filter)

lemma um_erase_set: "set (snd (um_erase k m)) = {e \<in> set m. fst e \<noteq> k}"
  by (auto simp: um_erase_def)

lemma um_erase_mset:
  assumes "um_wf m" and "um_find k m = Some v"
  shows "mset m = add_mset (k, v) (mset (snd (um_erase k m)))"
  using assms
proof (induction m)
  case Nil
  then show ?case by simp
next
  case (Cons e m)
  show ?case
  proof (cases "fst e = k")
    case True
    from Cons.prems(1) True have "\<forall>x \<in> set m. fst x \<noteq> k"
      by (auto simp: um_wf_def image_iff)
    then have "filter (\<lambda>e. fst e \<noteq> k) m = m" by (rule filter_True)
    moreover have "e = (k, v)" using Cons.prems(2) True by (cases e) (simp add: um_find_def)
    ultimately show ?thesis by (simp add: um_erase_def)
  next
    case False
    with Cons.prems have "um_wf m" and "um_find k m = Some v"
      by (cases e; simp add: um_wf_def um_find_def)+
    from Cons.IH [OF this] False show ?thesis by (simp add: um_erase_def)
  qed
qed

section \<open>Generic lemmas on lists\<close>

lemma take_append_drop_assoc [simp]: "take n xs @ drop n xs @ ys = xs @ ys"
  by (metis append.assoc append_take_drop_id)

lemma take_drop_drop: "take k (drop m xs) @ drop (m + k) xs = drop m xs"
  by (metis add.commute append_take_drop_id drop_drop)

lemma append_eq_prefix_length:
  "xs @ ys = xs' @ ys' \<Longrightarrow> length xs = length xs' \<Longrightarrow> xs = xs' \<and> ys = ys'"
  by simp

end
