(* ===== verification/Socket.thy ===== *)
theory Socket
  imports Kinetic_Prelude
begin

text \<open>
  \<open>SocketWrapper\<close> (\<open>socket_wrapper.cc\<close>): opening the connection and closing it again. The operating
  system's part is the set of open descriptors, from which \<open>socket\<close> takes the lowest free one, and
  for each address what the calls on it answer. What OpenSSL answers is a script. The last section is
  about the mutexes that the file gives to OpenSSL, and the calls back from OpenSSL's threads.
\<close>

section \<open>Descriptors\<close>

definition new_fd :: "int list \<Rightarrow> int" where
  "new_fd fds = hd (filter (\<lambda>n. n \<notin> set fds) (map int [0..<Suc (length fds)]))"

definition close_fd :: "int \<Rightarrow> int list \<Rightarrow> int list" where
  "close_fd fd fds = removeAll fd fds"

lemma new_fd_free: "new_fd fds \<notin> set fds \<and> 0 \<le> new_fd fds"
proof -
  let ?c = "filter (\<lambda>n. n \<notin> set fds) (map int [0..<Suc (length fds)])"
  have "?c \<noteq> []"
  proof
    assume "?c = []"
    then have "set (map int [0..<Suc (length fds)]) \<subseteq> set fds" unfolding filter_empty_conv by blast
    then have "int ` {0..<Suc (length fds)} \<subseteq> set fds" by (simp only: set_map set_upt)
    then have "card (int ` {0..<Suc (length fds)}) \<le> card (set fds)" by (intro card_mono) simp_all
    also have "\<dots> \<le> length fds" by (rule card_length)
    finally show False by (simp add: card_image inj_on_def)
  qed
  then have "hd ?c \<in> set ?c" by (rule hd_in_set)
  then show ?thesis unfolding new_fd_def set_filter by auto
qed

lemma close_new_fd [simp]: "close_fd (new_fd fds) (new_fd fds # fds) = fds"
  using new_fd_free [of fds] by (simp add: close_fd_def)

section \<open>The object\<close>

record socket_wrapper =
  so_ssl :: bool
  so_nonblocking :: bool
  so_fd :: int

text \<open>
  The constructor, with what \<open>SSL_CTX_new\<close> and \<open>SSL_new\<close> give: not null, or null. It throws when one
  of them is null.
\<close>

definition SocketWrapper :: "bool \<Rightarrow> bool \<Rightarrow> bool \<Rightarrow> bool \<Rightarrow> string + socket_wrapper" where
  "SocketWrapper ctx_ok ssl_ok use_ssl nonblocking =
     (if use_ssl \<and> (\<not> ssl_ok \<or> \<not> ctx_ok) then Inl ''Failed Setting up SSL environment.''
      else Inr \<lparr>so_ssl = use_ssl, so_nonblocking = nonblocking, so_fd = - 1\<rparr>)"

definition so_destroy :: "socket_wrapper \<Rightarrow> int list \<Rightarrow> int list" where
  "so_destroy so fds = (if so_fd so \<noteq> - 1 then close_fd (so_fd so) fds else fds)"

text \<open>
  One address that \<open>getaddrinfo\<close> found, with what the calls on it answer: true where they succeed.
  Where the platform has no \<open>SO_NOSIGPIPE\<close> that call is left out, as if it always succeeded.
\<close>

record address =
  ad_addr :: string
  ad_nameinfo :: bool
  ad_socket :: bool
  ad_getfd :: bool
  ad_setfd :: bool
  ad_nosigpipe :: bool
  ad_connect :: bool
  ad_setfl :: bool

text \<open>
  The loop ends with the address at which it broke off and the descriptor connected to it, the code's
  \<open>ai\<close> and \<open>socket_fd\<close>, or at the end of the list.
\<close>

fun connect_loop :: "bool \<Rightarrow> address list \<Rightarrow> int list \<Rightarrow> (address \<times> int) option \<times> int list" where
  "connect_loop nonblocking [] fds = (None, fds)"
| "connect_loop nonblocking (ai # ais) fds =
     (if \<not> ad_nameinfo ai then connect_loop nonblocking ais fds
      else if \<not> ad_socket ai then connect_loop nonblocking ais fds
      else
        (let socket_fd = new_fd fds; fds1 = socket_fd # fds in
         if \<not> ad_getfd ai then connect_loop nonblocking ais (close_fd socket_fd fds1)
         else if \<not> ad_setfd ai then connect_loop nonblocking ais (close_fd socket_fd fds1)
         else if \<not> ad_nosigpipe ai then connect_loop nonblocking ais (close_fd socket_fd fds1)
         else if \<not> ad_connect ai then connect_loop nonblocking ais (close_fd socket_fd fds1)
         else if nonblocking \<and> \<not> ad_setfl ai then connect_loop nonblocking ais (close_fd socket_fd fds1)
         else (Some (ai, socket_fd), fds1)))"

text \<open>
  \<open>SSL_connect\<close> answers: connected, or would have to wait, or failed. The code waits at most a second
  and a microsecond with \<open>select\<close>, whatever that returns, and tries again. None: it is still trying
  when the answers are used up.
\<close>

datatype ssl_answer = Ssl_connected | Ssl_want_read | Ssl_want_write | Ssl_failed

fun ConnectSSL :: "ssl_answer list \<Rightarrow> bool option" where
  "ConnectSSL [] = None"
| "ConnectSSL (Ssl_connected # _) = Some True"
| "ConnectSSL (Ssl_want_read # rest) = ConnectSSL rest"
| "ConnectSSL (Ssl_want_write # rest) = ConnectSSL rest"
| "ConnectSSL (Ssl_failed # _) = Some False"

text \<open>
  \<open>addresses\<close> is None where \<open>getaddrinfo\<close> fails. Beside the object and the open descriptors the result
  has the address to which the object's descriptor is connected, which the kernel knows.
\<close>

definition Connect ::
    "address list option \<Rightarrow> ssl_answer list \<Rightarrow> socket_wrapper \<Rightarrow> int list
     \<Rightarrow> bool option \<times> socket_wrapper \<times> address option \<times> int list" where
  "Connect addresses ssl so fds =
     (case addresses of
        None \<Rightarrow> (Some False, so, None, fds)
      | Some ais \<Rightarrow>
          (case connect_loop (so_nonblocking so) ais fds of
             (None, fds') \<Rightarrow> (Some False, so, None, fds')
           | (Some (ai, socket_fd), fds') \<Rightarrow>
               let so' = so\<lparr>so_fd := socket_fd\<rparr> in
               (if so_ssl so then ConnectSSL ssl else Some True, so', Some ai, fds')))"

section \<open>What connecting does\<close>

text \<open>An address that can be used, by everything the loop asks of it.\<close>

definition usable :: "bool \<Rightarrow> address \<Rightarrow> bool" where
  "usable nonblocking ai \<longleftrightarrow> ad_nameinfo ai \<and> ad_socket ai \<and> ad_getfd ai \<and> ad_setfd ai \<and> ad_nosigpipe ai \<and>
     ad_connect ai \<and> (nonblocking \<longrightarrow> ad_setfl ai)"

lemma find_Some_first: "find P xs = Some x \<Longrightarrow> \<exists>ys zs. xs = ys @ x # zs \<and> P x \<and> (\<forall>y \<in> set ys. \<not> P y)"
proof (induction xs)
  case (Cons a xs)
  show ?case
  proof (cases "P a")
    case True
    with Cons.prems show ?thesis by (intro exI [of _ "[]"] exI [of _ xs]) simp
  next
    case False
    with Cons obtain ys zs where "xs = ys @ x # zs" "P x" "\<forall>y \<in> set ys. \<not> P y" by auto
    with False show ?thesis by (intro exI [of _ "a # ys"] exI [of _ zs]) simp
  qed
qed simp

lemma connect_loop_find:
  "connect_loop nonblocking ais fds =
     (case find (usable nonblocking) ais of
        Some ai \<Rightarrow> (Some (ai, new_fd fds), new_fd fds # fds)
      | None \<Rightarrow> (None, fds))"
proof (induction ais)
  case (Cons ai ais)
  have "connect_loop nonblocking (ai # ais) fds =
      (if usable nonblocking ai then (Some (ai, new_fd fds), new_fd fds # fds) else connect_loop nonblocking ais fds)"
    by (simp add: usable_def Let_def)
  with Cons.IH show ?case by (simp del: connect_loop.simps)
qed simp

text \<open>The descriptor belongs to the object or was never opened.\<close>

definition owns :: "socket_wrapper \<Rightarrow> int list \<Rightarrow> int list \<Rightarrow> bool" where
  "owns so before after \<longleftrightarrow>
     (if so_fd so = - 1 then after = before
      else 0 \<le> so_fd so \<and> so_fd so \<notin> set before \<and> after = so_fd so # before)"

lemma Connect_owns:
  assumes "Connect addresses ssl so fds = (res, so', peer, fds')" and "so_fd so = - 1"
  shows "owns so' fds fds' \<and> (res = Some True \<longrightarrow> so_fd so' \<noteq> - 1)"
  using assms new_fd_free [of fds]
  by (auto simp: Connect_def connect_loop_find owns_def Let_def split: option.splits if_splits)

lemma so_destroy_owns: "owns so before after \<Longrightarrow> so_destroy so after = before"
  by (auto simp: owns_def so_destroy_def close_fd_def split: if_splits)

text \<open>
  The SSL handshake has no time limit: it returns exactly when it is through or fails, and a peer that
  accepts the connection and then stays silent keeps \<open>Connect\<close> going, one call deeper every second.
\<close>

lemma ConnectSSL_waits: "ConnectSSL ssl = None \<longleftrightarrow> set ssl \<subseteq> {Ssl_want_read, Ssl_want_write}"
  by (induction ssl rule: ConnectSSL.induct) simp_all

text \<open>
  C38: Connecting takes the first address that works and leaks no descriptor. Without SSL, \<open>Connect\<close>
  always returns. If the host resolves and some address passes every check, the object's new descriptor
  is connected to the first one that does: every address before it has failed a check. The outcome is
  then true, or with SSL that of the SSL handshake. Otherwise the outcome is false and nothing has
  changed. Whatever happened, at most the one descriptor that the object holds is open more than
  before, and destroying the object closes it.
\<close>

theorem connect_outcome:
  assumes "so_fd so = - 1" and "Connect addresses ssl so fds = (res, so', peer, fds')"
  shows "(case peer of
       Some ai \<Rightarrow> (\<exists>failed rest. addresses = Some (failed @ ai # rest) \<and> usable (so_nonblocking so) ai \<and>
           (\<forall>a \<in> set failed. \<not> usable (so_nonblocking so) a)) \<and>
         res = (if so_ssl so then ConnectSSL ssl else Some True) \<and>
         so' = so\<lparr>so_fd := so_fd so'\<rparr> \<and> fds' = so_fd so' # fds \<and> so_fd so' \<notin> set fds
     | None \<Rightarrow> (\<forall>ais. addresses = Some ais \<longrightarrow> (\<forall>a \<in> set ais. \<not> usable (so_nonblocking so) a)) \<and>
         res = Some False \<and> fds' = fds \<and> so' = so) \<and>
    so_destroy so' fds' = fds"
proof (cases peer)
  case None
  with assms Connect_owns [OF assms(2,1)] show ?thesis
    by (auto simp: Connect_def connect_loop_find Let_def find_None_iff so_destroy_owns split: option.splits)
next
  case (Some ai)
  with assms(2) obtain ais where a: "addresses = Some ais" and f: "find (usable (so_nonblocking so)) ais = Some ai"
    and r: "res = (if so_ssl so then ConnectSSL ssl else Some True)" "so' = so\<lparr>so_fd := new_fd fds\<rparr>"
      "fds' = new_fd fds # fds"
    by (auto simp: Connect_def connect_loop_find Let_def split: option.splits)
  from f have "\<exists>failed rest. ais = failed @ ai # rest \<and> usable (so_nonblocking so) ai \<and>
      (\<forall>a \<in> set failed. \<not> usable (so_nonblocking so) a)"
    by (rule find_Some_first)
  with Some a r new_fd_free [of fds] so_destroy_owns Connect_owns [OF assms(2,1)] show ?thesis by simp
qed

text \<open>Of three addresses the first refuses; the second is taken, although the third would do as well.\<close>

theorem connect_outcome_witness:
  "\<exists>so'. Connect (Some [\<lparr>ad_addr = ''a'', ad_nameinfo = True, ad_socket = True, ad_getfd = True, ad_setfd = True,
        ad_nosigpipe = True, ad_connect = False, ad_setfl = True\<rparr>,
      \<lparr>ad_addr = ''b'', ad_nameinfo = True, ad_socket = True, ad_getfd = True, ad_setfd = True, ad_nosigpipe = True,
        ad_connect = True, ad_setfl = True\<rparr>,
      \<lparr>ad_addr = ''c'', ad_nameinfo = True, ad_socket = True, ad_getfd = True, ad_setfd = True, ad_nosigpipe = True,
        ad_connect = True, ad_setfl = True\<rparr>]) [Ssl_want_read, Ssl_connected]
      \<lparr>so_ssl = True, so_nonblocking = True, so_fd = - 1\<rparr> [0, 1, 2] =
        (Some True, so', Some \<lparr>ad_addr = ''b'', ad_nameinfo = True, ad_socket = True, ad_getfd = True, ad_setfd = True,
          ad_nosigpipe = True, ad_connect = True, ad_setfl = True\<rparr>, [3, 0, 1, 2]) \<and>
     so_destroy so' [3, 0, 1, 2] = [0, 1, 2]"
proof -
  let ?ai = "\<lparr>ad_addr = ''b'', ad_nameinfo = True, ad_socket = True, ad_getfd = True, ad_setfd = True,
        ad_nosigpipe = True, ad_connect = True, ad_setfl = True\<rparr>"
  let ?so = "\<lparr>so_ssl = True, so_nonblocking = True, so_fd = - 1\<rparr>"
  have c: "Connect (Some [?ai\<lparr>ad_addr := ''a'', ad_connect := False\<rparr>, ?ai, ?ai\<lparr>ad_addr := ''c''\<rparr>])
      [Ssl_want_read, Ssl_connected] ?so [0, 1, 2] = (Some True, ?so\<lparr>so_fd := 3\<rparr>, Some ?ai, [3, 0, 1, 2])"
    by (simp add: Connect_def connect_loop_find usable_def new_fd_def)
  from connect_outcome [OF _ c] c show ?thesis by simp
qed

section \<open>Locks for OpenSSL\<close>

text \<open>
  Where the library is built with pthread locks, the initializer of the file gives OpenSSL one mutex for
  each lock that it asks for, and takes them away again when the program ends. OpenSSL calls back from
  any thread as soon as the callback is set, also while the initializer and its destructor run, so they
  are programs of small steps. A mutex that is used before its initialization, destroyed while it is
  held, or unlocked by a thread that does not hold it has no defined behaviour.
\<close>

datatype 't pmutex = Uninitialized | Unlocked | Locked 't

record 't ssl_locks =
  lk_mutex_buffer :: "'t pmutex list option"
  lk_id_callback :: bool
  lk_locking_callback :: bool

definition no_locks :: "'t ssl_locks" where
  "no_locks = \<lparr>lk_mutex_buffer = None, lk_id_callback = False, lk_locking_callback = False\<rparr>"

definition CRYPTO_LOCK :: "32 word" where
  "CRYPTO_LOCK = 1"

datatype 'a use = Used 'a | Waits | Misused

text \<open>\<open>pthread_mutex_lock\<close> and \<open>pthread_mutex_unlock\<close> on one element of the buffer.\<close>

fun pthread_mutex_lock :: "'t \<Rightarrow> 't pmutex \<Rightarrow> 't pmutex use" where
  "pthread_mutex_lock t Unlocked = Used (Locked t)"
| "pthread_mutex_lock t (Locked u) = Waits"
| "pthread_mutex_lock t Uninitialized = Misused"

fun pthread_mutex_unlock :: "'t \<Rightarrow> 't pmutex \<Rightarrow> 't pmutex use" where
  "pthread_mutex_unlock t (Locked u) = (if u = t then Used Unlocked else Misused)"
| "pthread_mutex_unlock t _ = Misused"

definition pthread_mutex_funs :: "'t \<Rightarrow> 32 word \<Rightarrow> nat \<Rightarrow> 't ssl_locks \<Rightarrow> 't ssl_locks use" where
  "pthread_mutex_funs t mode index s =
     (case lk_mutex_buffer s of
        None \<Rightarrow> Misused
      | Some ms \<Rightarrow>
          if length ms \<le> index then Misused
          else (case (if and mode CRYPTO_LOCK \<noteq> 0 then pthread_mutex_lock t (ms ! index)
                      else pthread_mutex_unlock t (ms ! index)) of
                  Used m \<Rightarrow> Used (s\<lparr>lk_mutex_buffer := Some (ms[index := m])\<rparr>)
                | Waits \<Rightarrow> Waits
                | Misused \<Rightarrow> Misused))"

text \<open>The calls that the two functions make, each with its arguments or result.\<close>

datatype lock_step =
    Malloc nat bool
  | Mutex_init nat
  | Set_id_callback bool
  | Set_locking_callback bool
  | Mutex_destroy nat
  | Free_buffer

fun lk_step :: "lock_step \<Rightarrow> 't ssl_locks \<Rightarrow> 't ssl_locks option" where
  "lk_step (Malloc n ok) s = Some (s\<lparr>lk_mutex_buffer := (if ok then Some (replicate n Uninitialized) else None)\<rparr>)"
| "lk_step (Mutex_init i) s =
     (case lk_mutex_buffer s of
        None \<Rightarrow> None
      | Some ms \<Rightarrow> if i < length ms then Some (s\<lparr>lk_mutex_buffer := Some (ms[i := Unlocked])\<rparr>) else None)"
| "lk_step (Set_id_callback b) s = Some (s\<lparr>lk_id_callback := b\<rparr>)"
| "lk_step (Set_locking_callback b) s = Some (s\<lparr>lk_locking_callback := b\<rparr>)"
| "lk_step (Mutex_destroy i) s =
     (case lk_mutex_buffer s of
        None \<Rightarrow> None
      | Some ms \<Rightarrow> if i < length ms \<and> ms ! i = Unlocked
                     then Some (s\<lparr>lk_mutex_buffer := Some (ms[i := Uninitialized])\<rparr>) else None)"
| "lk_step Free_buffer s = Some (s\<lparr>lk_mutex_buffer := None\<rparr>)"

definition SSL_register_locks :: "nat \<Rightarrow> bool \<Rightarrow> lock_step list" where
  "SSL_register_locks num_locks allocated =
     Malloc num_locks allocated #
     (if allocated then map Mutex_init [0..<num_locks] @ [Set_id_callback True, Set_locking_callback True]
      else [])"

definition SSL_free_locks :: "nat \<Rightarrow> 't ssl_locks \<Rightarrow> lock_step list" where
  "SSL_free_locks num_locks s =
     (if lk_mutex_buffer s \<noteq> None
      then [Set_id_callback False, Set_locking_callback False] @ map Mutex_destroy [0..<num_locks] @ [Free_buffer]
      else [])"

text \<open>
  A run of the program: the initializer, calls back from the threads, and at the end the destructor,
  which nothing makes wait for the threads. A thread looks whether the callback is set and then calls
  it; in between and inside \<open>pthread_mutex_lock\<close> it may be overtaken, so the calls that are under way are
  part of the state. A thread makes one call at a time, and OpenSSL unlocks what the same thread has
  locked. The flag says whether the destructor has been entered. The last component is the set of the
  locks that were in use when the destructor took the callback away: held, or with a call under way.
\<close>

definition holds_lock :: "'t \<Rightarrow> nat \<Rightarrow> 't ssl_locks \<Rightarrow> bool" where
  "holds_lock t index s \<longleftrightarrow> (\<exists>ms. lk_mutex_buffer s = Some ms \<and> index < length ms \<and> ms ! index = Locked t)"

type_synonym 't lock_call = "'t \<times> 32 word \<times> nat"

definition locks_in_use :: "'t ssl_locks \<Rightarrow> 't lock_call list \<Rightarrow> nat set" where
  "locks_in_use s cs = {index. \<exists>t. holds_lock t index s} \<union> {index. \<exists>t mode. (t, mode, index) \<in> set cs}"

inductive ssl_reach ::
    "nat \<Rightarrow> bool \<Rightarrow> lock_step list \<Rightarrow> 't ssl_locks \<Rightarrow> 't lock_call list \<Rightarrow> nat set \<Rightarrow> bool" for n where
  ssl_start: "ssl_reach n False (SSL_register_locks n allocated) no_locks [] {}"
| ssl_main: "ssl_reach n x (st # prog) s cs B \<Longrightarrow> lk_step st s = Some s' \<Longrightarrow>
     ssl_reach n x prog s' cs (if st = Set_locking_callback False then locks_in_use s cs else B)"
| ssl_enter: "ssl_reach n x prog s cs B \<Longrightarrow> lk_locking_callback s \<Longrightarrow> index < n \<Longrightarrow>
     t \<notin> fst ` set cs \<Longrightarrow> and mode CRYPTO_LOCK = 0 \<longrightarrow> holds_lock t index s \<Longrightarrow>
     ssl_reach n x prog s ((t, mode, index) # cs) B"
| ssl_call: "ssl_reach n x prog s (cs @ (t, mode, index) # cs') B \<Longrightarrow>
     pthread_mutex_funs t mode index s = Used s' \<Longrightarrow> ssl_reach n x prog s' (cs @ cs') B"
| ssl_exit: "ssl_reach n False [] s cs B \<Longrightarrow> ssl_reach n True (SSL_free_locks n s) s cs B"

text \<open>What holds while the callback is set: every mutex is initialized, and a thread on its way to
  unlock one holds it.\<close>

definition locks_ready :: "nat \<Rightarrow> 't ssl_locks \<Rightarrow> 't lock_call list \<Rightarrow> bool" where
  "locks_ready n s cs \<longleftrightarrow>
     (\<exists>ms. lk_mutex_buffer s = Some ms \<and> length ms = n \<and> Uninitialized \<notin> set ms) \<and>
     distinct (map fst cs) \<and>
     (\<forall>t mode index. (t, mode, index) \<in> set cs \<longrightarrow>
        index < n \<and> (and mode CRYPTO_LOCK = 0 \<longrightarrow> holds_lock t index s))"

text \<open>Where in the two functions the program can be, and what is then true of the mutexes.\<close>

inductive ssl_at ::
    "nat \<Rightarrow> bool \<Rightarrow> lock_step list \<Rightarrow> 't ssl_locks \<Rightarrow> 't lock_call list \<Rightarrow> nat set \<Rightarrow> bool" for n where
  at_start: "ssl_at n False (SSL_register_locks n allocated) no_locks [] {}"
| at_init: "i \<le> n \<Longrightarrow> \<not> lk_locking_callback s \<Longrightarrow> lk_mutex_buffer s = Some ms \<Longrightarrow> length ms = n \<Longrightarrow>
     \<forall>j < i. ms ! j = Unlocked \<Longrightarrow>
     ssl_at n False (map Mutex_init [i..<n] @ [Set_id_callback True, Set_locking_callback True]) s [] {}"
| at_publish: "\<not> lk_locking_callback s \<Longrightarrow> locks_ready n s [] \<Longrightarrow>
     ssl_at n False [Set_locking_callback True] s [] {}"
| at_work: "lk_locking_callback s \<Longrightarrow> locks_ready n s cs \<Longrightarrow> ssl_at n False [] s cs {}"
| at_none: "\<not> lk_locking_callback s \<Longrightarrow> lk_mutex_buffer s = None \<Longrightarrow> ssl_at n x [] s [] {}"
| at_exit: "prog = Set_id_callback False # prog' \<or> prog = prog' \<Longrightarrow>
     prog' = Set_locking_callback False # map Mutex_destroy [0..<n] @ [Free_buffer] \<Longrightarrow>
     lk_locking_callback s \<Longrightarrow> locks_ready n s cs \<Longrightarrow> ssl_at n True prog s cs {}"
| at_destroy: "i \<le> n \<Longrightarrow> \<not> lk_locking_callback s \<Longrightarrow> lk_mutex_buffer s = Some ms \<Longrightarrow> length ms = n \<Longrightarrow>
     \<forall>j < n. i \<le> j \<longrightarrow> ms ! j \<noteq> Uninitialized \<and> (j \<in> B \<or> ms ! j = Unlocked) \<Longrightarrow>
     \<forall>t mode index. (t, mode, index) \<in> set cs \<longrightarrow> index \<in> B \<Longrightarrow>
     ssl_at n True (map Mutex_destroy [i..<n] @ [Free_buffer]) s cs B"
| at_freed: "\<not> lk_locking_callback s \<Longrightarrow> lk_mutex_buffer s = None \<Longrightarrow>
     \<forall>t mode index. (t, mode, index) \<in> set cs \<longrightarrow> index \<in> B \<Longrightarrow> ssl_at n True [] s cs B"

lemma map_upt_Cons: "map f [i..<n] @ rest = (if i < n then f i # map f [Suc i..<n] @ rest else rest)"
  by (simp add: upt_conv_Cons)

lemma locks_ready_callback [simp]:
  "locks_ready n (s\<lparr>lk_id_callback := b\<rparr>) cs = locks_ready n s cs"
  "locks_ready n (s\<lparr>lk_locking_callback := c\<rparr>) cs = locks_ready n s cs"
  by (simp_all add: locks_ready_def holds_lock_def)

text \<open>When the callback is taken away, only locks in use may be held or called for later.\<close>

lemma locks_ready_clear:
  assumes "locks_ready n s cs"
  shows "ssl_at n True (map Mutex_destroy [0..<n] @ [Free_buffer]) (s\<lparr>lk_locking_callback := False\<rparr>) cs (locks_in_use s cs)"
proof -
  obtain ms where ms: "lk_mutex_buffer s = Some ms" "length ms = n" "Uninitialized \<notin> set ms"
    using assms by (auto simp: locks_ready_def)
  have m: "ms ! j \<noteq> Uninitialized \<and> (j \<in> locks_in_use s cs \<or> ms ! j = Unlocked)" if "j < n" for j
    using that ms nth_mem [of j ms] by (cases "ms ! j") (auto simp: locks_in_use_def holds_lock_def)
  show ?thesis by (rule at_destroy [where ms = ms]) (use ms m in \<open>auto simp: locks_in_use_def\<close>)
qed

lemma ssl_at_main:
  assumes "ssl_at n x (st # prog) s cs B" and "lk_step st s = Some s'"
  shows "ssl_at n x prog s' cs (if st = Set_locking_callback False then locks_in_use s cs else B)"
  using assms(1)
proof cases
  case (at_start allocated)
  with assms(2) show ?thesis
    by (cases allocated)
      (auto simp: SSL_register_locks_def no_locks_def intro: at_none at_init [where i = 0, simplified])
next
  case (at_init i ms)
  then show ?thesis
  proof (cases "i < n")
    case True
    with at_init have "st = Mutex_init i"
      and "prog = map Mutex_init [Suc i..<n] @ [Set_id_callback True, Set_locking_callback True]"
      by (simp_all add: map_upt_Cons)
    with at_init True assms(2) show ?thesis
      by (auto simp: less_Suc_eq intro!: ssl_at.at_init [where ms = "ms[i := Unlocked]"])
  next
    case False
    with at_init assms(2) show ?thesis
      by (auto simp: map_upt_Cons in_set_conv_nth locks_ready_def intro!: at_publish)
  qed
next
  case at_publish
  with assms(2) show ?thesis by (auto intro!: at_work)
next
  case (at_exit prog')
  with assms(2) locks_ready_clear [of n s cs] show ?thesis
    by (auto intro!: ssl_at.at_exit)
next
  case (at_destroy i ms)
  then show ?thesis
  proof (cases "i < n")
    case True
    with at_destroy have p: "st = Mutex_destroy i" "prog = map Mutex_destroy [Suc i..<n] @ [Free_buffer]"
      by (simp_all add: map_upt_Cons)
    have "ssl_at n True prog s' cs B" unfolding p(2)
      by (rule ssl_at.at_destroy [where ms = "ms[i := Uninitialized]"])
        (use at_destroy True assms(2) p in \<open>auto split: if_splits\<close>)
    with at_destroy p show ?thesis by simp
  next
    case False
    with at_destroy assms(2) show ?thesis by (auto simp: map_upt_Cons intro!: at_freed)
  qed
qed

text \<open>A call that is under way while every mutex is ready.\<close>

lemma locks_ready_call:
  assumes "locks_ready n s (cs @ (t, mode, index) # cs')"
  shows "pthread_mutex_funs t mode index s \<noteq> Misused \<and>
    (pthread_mutex_funs t mode index s = Used s' \<longrightarrow> locks_ready n s' (cs @ cs') \<and>
       lk_locking_callback s' = lk_locking_callback s)"
proof -
  obtain ms where ms: "lk_mutex_buffer s = Some ms" "length ms = n" "Uninitialized \<notin> set ms"
    using assms by (auto simp: locks_ready_def)
  have i: "index < n" and h: "and mode CRYPTO_LOCK = 0 \<longrightarrow> ms ! index = Locked t"
    using assms ms by (auto simp: locks_ready_def holds_lock_def)
  have d: "distinct (map fst (cs @ cs'))" "t \<notin> fst ` set (cs @ cs')"
    using assms by (auto simp: locks_ready_def)
  have o: "j < n \<and> (and m CRYPTO_LOCK = 0 \<longrightarrow> ms ! j = Locked u)" if "(u, m, j) \<in> set (cs @ cs')" for u m j
    using assms ms that by (auto simp: locks_ready_def holds_lock_def)
  have u: "ms ! index \<noteq> Uninitialized" using i ms nth_mem by metis
  have keep: "locks_ready n (s\<lparr>lk_mutex_buffer := Some (ms[index := m])\<rparr>) (cs @ cs')"
    if "m \<noteq> Uninitialized" and "ms ! index = Unlocked \<or> ms ! index = Locked t" for m
    unfolding locks_ready_def holds_lock_def
  proof (intro conjI allI impI)
    show "\<exists>ms'. lk_mutex_buffer (s\<lparr>lk_mutex_buffer := Some (ms[index := m])\<rparr>) = Some ms' \<and> length ms' = n \<and>
        Uninitialized \<notin> set ms'"
      using that(1) ms set_update_subset_insert [of ms index m] by auto
    show "distinct (map fst (cs @ cs'))" by (rule d(1))
    fix u md j assume c: "(u, md, j) \<in> set (cs @ cs')"
    then have "u \<noteq> t" using d(2) by force
    with o [OF c] that(2) ms
    show "j < n" and "and md CRYPTO_LOCK = 0 \<Longrightarrow> 
        \<exists>ms'. lk_mutex_buffer (s\<lparr>lk_mutex_buffer := Some (ms[index := m])\<rparr>) = Some ms' \<and> j < length ms' \<and> ms' ! j = Locked u"
      by (cases "j = index"; auto)+
  qed
  show ?thesis
  proof (cases "ms ! index")
    case Unlocked
    with keep [of "Locked t"] h i ms show ?thesis by (auto simp: pthread_mutex_funs_def)
  next
    case (Locked v)
    with keep [of Unlocked] h i ms show ?thesis by (auto simp: pthread_mutex_funs_def)
  qed (use u in simp)
qed

text \<open>A call whose lock is not in use cannot be under way once the callback is gone.\<close>

lemma ssl_at_call:
  assumes "ssl_at n x prog s (cs @ (t, mode, index) # cs') B"
  shows "(pthread_mutex_funs t mode index s = Misused \<longrightarrow> x \<and> \<not> lk_locking_callback s \<and> index \<in> B) \<and>
    (pthread_mutex_funs t mode index s = Used s' \<longrightarrow> ssl_at n x prog s' (cs @ cs') B)"
  using assms
proof cases
  case at_work
  with locks_ready_call [of n s cs t mode index cs' s'] show ?thesis by (auto intro!: ssl_at.at_work)
next
  case (at_exit prog')
  with locks_ready_call [of n s cs t mode index cs' s'] show ?thesis by (auto intro!: ssl_at.at_exit)
next
  case (at_destroy i ms)
  have b: "index \<in> B" using at_destroy by auto
  have "ssl_at n x prog s' (cs @ cs') B" if used: "pthread_mutex_funs t mode index s = Used s'"
  proof -
    obtain m where s': "s' = s\<lparr>lk_mutex_buffer := Some (ms[index := m])\<rparr>"
      and m: "(if and mode CRYPTO_LOCK \<noteq> 0 then pthread_mutex_lock t (ms ! index)
               else pthread_mutex_unlock t (ms ! index)) = Used m"
      using used at_destroy by (auto simp: pthread_mutex_funs_def split: if_splits use.splits)
    from m have "m \<noteq> Uninitialized" and "ms ! index \<noteq> Uninitialized"
      by (cases "ms ! index"; auto split: if_splits)+
    then have "\<forall>j < n. i \<le> j \<longrightarrow> ms[index := m] ! j \<noteq> Uninitialized \<and> (j \<in> B \<or> ms[index := m] ! j = Unlocked)"
      using at_destroy b by (metis nth_list_update_eq nth_list_update_neq)
    with at_destroy have "ssl_at n True (map Mutex_destroy [i..<n] @ [Free_buffer]) s' (cs @ cs') B" unfolding s'
      by (intro ssl_at.at_destroy [where ms = "ms[index := m]"]) auto
    with at_destroy show ?thesis by simp
  qed
  with at_destroy b show ?thesis by simp
next
  case at_freed
  then show ?thesis by (auto simp: pthread_mutex_funs_def)
qed simp_all

lemma ssl_at_enter:
  assumes "ssl_at n x prog s cs B" and "lk_locking_callback s" and "index < n" and "t \<notin> fst ` set cs"
    and "and mode CRYPTO_LOCK = 0 \<longrightarrow> holds_lock t index s"
  shows "ssl_at n x prog s ((t, mode, index) # cs) B"
proof -
  have "locks_ready n s cs \<Longrightarrow> locks_ready n s ((t, mode, index) # cs)"
    using assms(3-5) by (auto simp: locks_ready_def)
  with assms(1,2) show ?thesis
    by (cases rule: ssl_at.cases) (auto simp: no_locks_def intro: ssl_at.intros)
qed

lemma ssl_at_exit:
  assumes "ssl_at n False [] s cs B"
  shows "ssl_at n True (SSL_free_locks n s) s cs B"
  using assms
proof cases
  case at_work
  then have "lk_mutex_buffer s \<noteq> None" by (auto simp: locks_ready_def)
  with at_work show ?thesis by (auto simp: SSL_free_locks_def intro!: at_exit)
qed (auto simp: SSL_free_locks_def SSL_register_locks_def intro: at_none)

lemma ssl_reach_at: "ssl_reach n x prog s cs B \<Longrightarrow> ssl_at n x prog s cs B"
proof (induction rule: ssl_reach.induct)
  case (ssl_start allocated)
  show ?case by (rule at_start)
next
  case (ssl_main x st prog s cs B s')
  from ssl_main.IH ssl_main.hyps(2) show ?case by (rule ssl_at_main)
next
  case (ssl_enter x prog s cs B index t mode)
  from ssl_at_enter [OF ssl_enter.IH ssl_enter.hyps(2-5)] show ?case .
next
  case (ssl_call x prog s cs t mode index cs' B s')
  with ssl_at_call [OF ssl_call.IH] show ?case by simp
next
  case (ssl_exit s cs B)
  from ssl_exit.IH show ?case by (rule ssl_at_exit)
qed

lemma ssl_at_step:
  assumes "ssl_at n x (st # prog) s cs B" and "lk_step st s = None"
  shows "\<exists>i \<in> B. st = Mutex_destroy i \<and> (\<exists>t. holds_lock t i s)"
  using assms(1)
proof cases
  case (at_start allocated)
  with assms(2) show ?thesis by (auto simp: SSL_register_locks_def)
next
  case (at_init i ms)
  with assms(2) show ?thesis by (cases "i < n") (auto simp: map_upt_Cons)
next
  case (at_destroy i ms)
  then have "i < n" and "st = Mutex_destroy i" using assms(2) by (auto simp: map_upt_Cons split: if_splits)
  with at_destroy assms(2) show ?thesis by (cases "ms ! i") (auto simp: holds_lock_def split: if_splits)
qed (use assms(2) in auto)

text \<open>
  C39: The locks for OpenSSL are ready whenever they can be called for. In every interleaving of the
  initializer, the destructor and the calls of any number of threads, whether or not the buffer could be
  allocated: as long as the callback is set, which includes the beginning of the destructor, no call
  that a thread has entered or can enter touches a mutex that is missing or not initialized. Nothing
  makes the destructor wait for the threads, so a misuse is possible: a destruction of a mutex that is
  held, or a call on one that has been destroyed. But both concern only locks that were in use
  at the moment the destructor took the callback away. If none was, the destructor runs through; and
  when it is through, the buffer is freed and OpenSSL has no callback into it.
\<close>

theorem openssl_locks_safe:
  assumes "ssl_reach n exiting prog s calls busy"
  shows "(prog \<noteq> [] \<and> lk_step (hd prog) s = None \<longrightarrow>
       (\<exists>index \<in> busy. hd prog = Mutex_destroy index \<and> (\<exists>t. holds_lock t index s))) \<and>
    (\<forall>t mode index. (t, mode, index) \<in> set calls \<and> pthread_mutex_funs t mode index s = Misused \<longrightarrow>
       exiting \<and> \<not> lk_locking_callback s \<and> index \<in> busy) \<and>
    (\<not> exiting \<or> lk_locking_callback s \<longrightarrow> busy = {}) \<and>
    (exiting \<and> prog = [] \<longrightarrow> lk_mutex_buffer s = None \<and> \<not> lk_locking_callback s)"
proof (intro conjI allI impI)
  note at = ssl_reach_at [OF assms]
  show "\<exists>index \<in> busy. hd prog = Mutex_destroy index \<and> (\<exists>t. holds_lock t index s)"
    if "prog \<noteq> [] \<and> lk_step (hd prog) s = None"
    using at that ssl_at_step by (cases prog) auto
  show "exiting" "\<not> lk_locking_callback s" "index \<in> busy"
    if "(t, mode, index) \<in> set calls \<and> pthread_mutex_funs t mode index s = Misused" for t mode index
    using that at ssl_at_call by (metis split_list)+
  show "busy = {}" if "\<not> exiting \<or> lk_locking_callback s" using at that by (auto elim: ssl_at.cases)
  show "lk_mutex_buffer s = None" and "\<not> lk_locking_callback s" if "exiting \<and> prog = []"
    using at that by (auto elim: ssl_at.cases)
qed

text \<open>
  One thread holds the only lock and another is on its way to wait for it, when the destructor starts.
  The second call is safe while the callback is set; the destructor then destroys a mutex in use.
\<close>

theorem openssl_locks_safe_witness:
  defines "s \<equiv> \<lparr>lk_mutex_buffer = Some [Locked ''worker''], lk_id_callback = False, lk_locking_callback = True\<rparr>"
  shows "ssl_reach 1 True [Set_locking_callback False, Mutex_destroy 0, Free_buffer] s [(''other'', 9, 0)] {} \<and>
    pthread_mutex_funs ''other'' 9 0 s = Waits \<and>
    ssl_reach 1 True [Mutex_destroy 0, Free_buffer] (s\<lparr>lk_locking_callback := False\<rparr>) [(''other'', 9, 0)] {0} \<and>
    lk_step (Mutex_destroy 0) (s\<lparr>lk_locking_callback := False\<rparr>) = None"
proof -
  let ?s = "\<lambda>m i. \<lparr>lk_mutex_buffer = Some [m :: string pmutex], lk_id_callback = i, lk_locking_callback = True\<rparr>"
  have "ssl_reach 1 False [Malloc 1 True, Mutex_init 0, Set_id_callback True, Set_locking_callback True]
      (no_locks :: string ssl_locks) [] {}"
    using ssl_start [of 1 True] by (simp add: SSL_register_locks_def)
  then have "ssl_reach 1 False [] (?s Unlocked True) [] {}"
    unfolding no_locks_def by - (drule ssl_main, simp, simp)+
  then have "ssl_reach 1 False [] (?s Unlocked True) [(''worker'', 9, 0)] {}"
    by (rule ssl_enter) (simp_all add: CRYPTO_LOCK_def)
  then have "ssl_reach 1 False [] (?s (Locked ''worker'') True) [] {}"
    using ssl_call [of 1 False "[]" _ "[]" "''worker''" 9 0 "[]" "{}"]
    by (simp add: pthread_mutex_funs_def CRYPTO_LOCK_def)
  then have "ssl_reach 1 True (SSL_free_locks 1 (?s (Locked ''worker'') True)) (?s (Locked ''worker'') True) [] {}"
    by (rule ssl_exit)
  then have "ssl_reach 1 True (Set_id_callback False # [Set_locking_callback False, Mutex_destroy 0, Free_buffer])
      (?s (Locked ''worker'') True) [] {}" by (simp add: SSL_free_locks_def)
  from ssl_main [OF this] have "ssl_reach 1 True [Set_locking_callback False, Mutex_destroy 0, Free_buffer] s [] {}"
    by (simp add: s_def)
  then have r: "ssl_reach 1 True [Set_locking_callback False, Mutex_destroy 0, Free_buffer] s [(''other'', 9, 0)] {}"
    by (rule ssl_enter) (simp_all add: CRYPTO_LOCK_def s_def)
  have u: "locks_in_use s [(''other'', 9, 0)] = {0}"
    by (auto simp: locks_in_use_def holds_lock_def s_def)
  from ssl_main [OF r] have r2: "ssl_reach 1 True [Mutex_destroy 0, Free_buffer] (s\<lparr>lk_locking_callback := False\<rparr>)
      [(''other'', 9, 0)] {0}" by (simp add: u)
  show ?thesis
    using openssl_locks_safe [OF r] openssl_locks_safe [OF r2] r r2
    by (simp add: s_def pthread_mutex_funs_def CRYPTO_LOCK_def)
qed

end
