(* ===== verification/Monitor.thy ===== *)
theory Monitor
  imports Kinetic_Prelude
begin

text \<open>
  Threads that share an object behind a \<open>std::recursive_mutex\<close>. A method is a short program:
  \<open>std::lock_guard\<close> locks the mutex, the body calls an operation of the inner object, and leaving
  the scope unlocks it. The inner operation is not atomic: it is any sequence of small steps on the
  shared state, with a local state of its own, between which other threads may run. The locale
  \<open>monitor\<close> is what a class must do for its calls to be linearizable: lock around every operation.
\<close>

section \<open>The recursive mutex\<close>

record 't mutex =
  mx_owner :: "'t option"
  mx_depth :: nat

definition mx_free :: "'t mutex" where
  "mx_free = \<lparr>mx_owner = None, mx_depth = 0\<rparr>"

text \<open>None: the thread has to wait.\<close>

definition mx_lock :: "'t \<Rightarrow> 't mutex \<Rightarrow> 't mutex option" where
  "mx_lock t m =
     (case mx_owner m of
        None \<Rightarrow> Some \<lparr>mx_owner = Some t, mx_depth = 1\<rparr>
      | Some u \<Rightarrow> if u = t then Some (m\<lparr>mx_depth := mx_depth m + 1\<rparr>) else None)"

definition mx_unlock :: "'t mutex \<Rightarrow> 't mutex" where
  "mx_unlock m = (if mx_depth m \<le> 1 then mx_free else m\<lparr>mx_depth := mx_depth m - 1\<rparr>)"

section \<open>Threads and their steps\<close>

datatype 'op instr = Lock | Invoke 'op | Unlock

definition guarded :: "'op \<Rightarrow> 'op instr list" where
  "guarded op = [Lock, Invoke op, Unlock]"

record ('t, 'op, 'l, 's, 'r) config =
  cf_mutex :: "'t mutex"
  cf_shared :: 's
  cf_code :: "'t \<Rightarrow> 'op instr list"
  cf_run :: "'t \<Rightarrow> ('op \<times> 'l) option"
  cf_history :: "('t \<times> 'op \<times> 'r) list"

definition initial_config :: "'s \<Rightarrow> ('t, 'op, 'l, 's, 'r) config" where
  "initial_config s = \<lparr>cf_mutex = mx_free, cf_shared = s, cf_code = (\<lambda>_. []), cf_run = (\<lambda>_. None), cf_history = []\<rparr>"

text \<open>One step of one thread inside its method.\<close>

inductive mstep ::
    "('op \<Rightarrow> 'l) \<Rightarrow> ('op \<Rightarrow> 'l \<Rightarrow> 's \<Rightarrow> ('l \<times> 's) + ('r \<times> 's))
     \<Rightarrow> ('t, 'op, 'l, 's, 'r) config \<Rightarrow> ('t, 'op, 'l, 's, 'r) config \<Rightarrow> bool"
  for init act where
  m_lock: "cf_run c t = None \<Longrightarrow> cf_code c t = Lock # rest \<Longrightarrow> mx_lock t (cf_mutex c) = Some m \<Longrightarrow>
     mstep init act c (c\<lparr>cf_mutex := m, cf_code := (cf_code c)(t := rest)\<rparr>)"
| m_invoke: "cf_run c t = None \<Longrightarrow> cf_code c t = Invoke op # rest \<Longrightarrow>
     mstep init act c (c\<lparr>cf_run := (cf_run c)(t := Some (op, init op)), cf_code := (cf_code c)(t := rest)\<rparr>)"
| m_act: "cf_run c t = Some (op, l) \<Longrightarrow> act op l (cf_shared c) = Inl (l', s') \<Longrightarrow>
     mstep init act c (c\<lparr>cf_run := (cf_run c)(t := Some (op, l')), cf_shared := s'\<rparr>)"
| m_return: "cf_run c t = Some (op, l) \<Longrightarrow> act op l (cf_shared c) = Inr (r, s') \<Longrightarrow>
     mstep init act c (c\<lparr>cf_run := (cf_run c)(t := None), cf_shared := s',
                         cf_history := cf_history c @ [(t, op, r)]\<rparr>)"
| m_unlock: "cf_run c t = None \<Longrightarrow> cf_code c t = Unlock # rest \<Longrightarrow>
     mstep init act c (c\<lparr>cf_mutex := mx_unlock (cf_mutex c), cf_code := (cf_code c)(t := rest)\<rparr>)"

text \<open>Any thread that is outside may call any method at any time.\<close>

inductive mreach ::
    "('m \<Rightarrow> 'op instr list) \<Rightarrow> ('op \<Rightarrow> 'l) \<Rightarrow> ('op \<Rightarrow> 'l \<Rightarrow> 's \<Rightarrow> ('l \<times> 's) + ('r \<times> 's)) \<Rightarrow> 's
     \<Rightarrow> ('t, 'op, 'l, 's, 'r) config \<Rightarrow> bool"
  for program init act s0 where
  mr_start: "mreach program init act s0 (initial_config s0)"
| mr_call: "mreach program init act s0 c \<Longrightarrow> cf_code c t = [] \<Longrightarrow> cf_run c t = None \<Longrightarrow>
     mreach program init act s0 (c\<lparr>cf_code := (cf_code c)(t := program m)\<rparr>)"
| mr_step: "mreach program init act s0 c \<Longrightarrow> mstep init act c c' \<Longrightarrow> mreach program init act s0 c'"

section \<open>Sequential runs\<close>

text \<open>An operation that has run for some steps, undisturbed.\<close>

inductive runs ::
    "('op \<Rightarrow> 'l \<Rightarrow> 's \<Rightarrow> ('l \<times> 's) + ('r \<times> 's)) \<Rightarrow> 'op \<Rightarrow> 'l \<Rightarrow> 's \<Rightarrow> 'l \<Rightarrow> 's \<Rightarrow> bool"
  for act op where
  runs_refl: "runs act op l s l s"
| runs_step: "runs act op l s l1 s1 \<Longrightarrow> act op l1 s1 = Inl (l2, s2) \<Longrightarrow> runs act op l s l2 s2"

text \<open>The small steps implement the operations: an undisturbed run that returns does what \<open>exec\<close> says.\<close>

definition implements ::
    "('op \<Rightarrow> 'l) \<Rightarrow> ('op \<Rightarrow> 'l \<Rightarrow> 's \<Rightarrow> ('l \<times> 's) + ('r \<times> 's)) \<Rightarrow> ('op \<Rightarrow> 's \<Rightarrow> 'r \<times> 's) \<Rightarrow> bool" where
  "implements init act exec \<longleftrightarrow>
     (\<forall>op s l s1 r s2. runs act op (init op) s l s1 \<longrightarrow> act op l s1 = Inr (r, s2) \<longrightarrow> exec op s = (r, s2))"

text \<open>The state after a history of operations one after the other, if each returned what it says.\<close>

fun replay :: "('op \<Rightarrow> 's \<Rightarrow> 'r \<times> 's) \<Rightarrow> 's \<Rightarrow> ('t \<times> 'op \<times> 'r) list \<Rightarrow> 's option" where
  "replay exec s [] = Some s"
| "replay exec s ((t, op, r) # h) = (case exec op s of (r', s') \<Rightarrow> if r' = r then replay exec s' h else None)"

lemma replay_append:
  "replay exec s h = Some s1 \<Longrightarrow> exec op s1 = (r, s2) \<Longrightarrow> replay exec s (h @ [(t, op, r)]) = Some s2"
  by (induction exec s h rule: replay.induct) (auto split: prod.splits if_splits)

section \<open>The contract and what it gives\<close>

text \<open>The thread that owns the mutex is the only one inside; the others are outside or before the lock.\<close>

definition outside :: "'t \<Rightarrow> ('t, 'op, 'l, 's, 'r) config \<Rightarrow> bool" where
  "outside t c \<longleftrightarrow> cf_run c t = None \<and> (cf_code c t = [] \<or> (\<exists>op. cf_code c t = guarded op))"

definition inside ::
    "('op \<Rightarrow> 'l) \<Rightarrow> ('op \<Rightarrow> 'l \<Rightarrow> 's \<Rightarrow> ('l \<times> 's) + ('r \<times> 's)) \<Rightarrow> 's \<Rightarrow> ('t, 'op, 'l, 's, 'r) config \<Rightarrow> 't \<Rightarrow> bool" where
  "inside init act s1 c t \<longleftrightarrow>
     (cf_run c t = None \<and> (\<exists>op. cf_code c t = [Invoke op, Unlock]) \<and> cf_shared c = s1) \<or>
     (\<exists>op l. cf_run c t = Some (op, l) \<and> cf_code c t = [Unlock] \<and> runs act op (init op) s1 l (cf_shared c)) \<or>
     (cf_run c t = None \<and> cf_code c t = [Unlock] \<and> cf_shared c = s1)"

definition exclusive ::
    "('op \<Rightarrow> 'l) \<Rightarrow> ('op \<Rightarrow> 'l \<Rightarrow> 's \<Rightarrow> ('l \<times> 's) + ('r \<times> 's)) \<Rightarrow> 's \<Rightarrow> ('t, 'op, 'l, 's, 'r) config \<Rightarrow> bool" where
  "exclusive init act s1 c \<longleftrightarrow>
     (case mx_owner (cf_mutex c) of
        None \<Rightarrow> (\<forall>t. outside t c) \<and> cf_shared c = s1
      | Some t \<Rightarrow> mx_depth (cf_mutex c) = 1 \<and> (\<forall>u. u \<noteq> t \<longrightarrow> outside u c) \<and> inside init act s1 c t)"

locale monitor =
  fixes program :: "'m \<Rightarrow> 'op instr list"
    and target :: "'m \<Rightarrow> 'op"
  assumes locks: "program m = guarded (target m)"
begin

lemma exclusive_owner:
  "exclusive init act s1 c \<Longrightarrow> \<not> outside t c \<Longrightarrow> mx_owner (cf_mutex c) = Some t"
  by (cases "mx_owner (cf_mutex c)") (simp_all add: exclusive_def, metis)

lemma exclusive_step:
  assumes "mstep init act c c'" and "exclusive init act s1 c" and "implements init act exec"
    and "replay exec s0 (cf_history c) = Some s1"
  shows "\<exists>s2. exclusive init act s2 c' \<and> replay exec s0 (cf_history c') = Some s2"
  using assms
proof (induction rule: mstep.induct)
  case (m_lock c t rest m)
  then have "mx_owner (cf_mutex c) = None"
    by (auto simp: exclusive_def outside_def inside_def mx_lock_def split: option.splits if_splits)
  with m_lock have "outside t c" by (simp add: exclusive_def)
  with m_lock obtain op where "rest = [Invoke op, Unlock]" by (auto simp: outside_def guarded_def)
  with m_lock \<open>mx_owner (cf_mutex c) = None\<close> show ?case
    by (intro exI [of _ s1]) (auto simp: exclusive_def outside_def inside_def mx_lock_def guarded_def)
next
  case (m_invoke c t op rest)
  then have o: "mx_owner (cf_mutex c) = Some t" by (intro exclusive_owner) (auto simp: outside_def guarded_def)
  with m_invoke show ?case
    by (intro exI [of _ s1]) (auto simp: exclusive_def outside_def inside_def intro: runs_refl)
next
  case (m_act c t op l l' s')
  then have o: "mx_owner (cf_mutex c) = Some t" by (intro exclusive_owner) (auto simp: outside_def)
  with m_act show ?case
    by (intro exI [of _ s1]) (auto simp: exclusive_def outside_def inside_def intro: runs_step)
next
  case (m_return c t op l r s')
  then have o: "mx_owner (cf_mutex c) = Some t" by (intro exclusive_owner) (auto simp: outside_def)
  with m_return have "runs act op (init op) s1 l (cf_shared c)" by (auto simp: exclusive_def inside_def)
  with m_return have "exec op s1 = (r, s')" by (auto simp: implements_def)
  with m_return have "replay exec s0 (cf_history c @ [(t, op, r)]) = Some s'" by (intro replay_append)
  with o m_return show ?case
    by (intro exI [of _ s']) (auto simp: exclusive_def outside_def inside_def)
next
  case (m_unlock c t rest)
  then have o: "mx_owner (cf_mutex c) = Some t" by (intro exclusive_owner) (auto simp: outside_def guarded_def)
  with m_unlock show ?case
    by (intro exI [of _ s1]) (auto simp: exclusive_def outside_def inside_def mx_unlock_def mx_free_def)
qed

lemma exclusive_reach:
  assumes "mreach program init act s0 c" and "implements init act exec"
  shows "\<exists>s1. exclusive init act s1 c \<and> replay exec s0 (cf_history c) = Some s1"
  using assms(1)
proof (induction rule: mreach.induct)
  case mr_start
  then show ?case by (simp add: exclusive_def outside_def initial_config_def mx_free_def)
next
  case (mr_call c t m)
  then obtain s1 where s1: "exclusive init act s1 c" "replay exec s0 (cf_history c) = Some s1" by blast
  then have "exclusive init act s1 (c\<lparr>cf_code := (cf_code c)(t := program m)\<rparr>)"
    using mr_call.hyps by (auto simp: exclusive_def outside_def inside_def locks split: option.splits)
  with s1 show ?case by auto
next
  case (mr_step c c')
  then show ?case using exclusive_step [OF mr_step.hyps(2) _ assms(2)] by blast
qed

text \<open>No two threads are inside an operation at once, and the history explains the shared state.\<close>

lemma linearizable:
  assumes "mreach program init act s0 c" and "implements init act exec"
  shows "(\<forall>t u. cf_run c t \<noteq> None \<longrightarrow> cf_run c u \<noteq> None \<longrightarrow> t = u) \<and>
    (\<exists>s1. replay exec s0 (cf_history c) = Some s1 \<and>
      ((\<forall>t. cf_run c t = None) \<longrightarrow> cf_shared c = s1) \<and>
      (\<forall>t op l. cf_run c t = Some (op, l) \<longrightarrow> runs act op (init op) s1 l (cf_shared c)))"
proof -
  obtain s1 where "exclusive init act s1 c" "replay exec s0 (cf_history c) = Some s1"
    using exclusive_reach [OF assms] by blast
  then show ?thesis
  proof (cases "mx_owner (cf_mutex c)")
    case None
    with \<open>exclusive init act s1 c\<close> \<open>replay _ _ _ = _\<close> show ?thesis
      by (auto simp: exclusive_def outside_def)
  next
    case (Some t)
    with \<open>exclusive init act s1 c\<close> have o: "u \<noteq> t \<Longrightarrow> cf_run c u = None" for u
      by (auto simp: exclusive_def outside_def)
    have i: "inside init act s1 c t" using \<open>exclusive init act s1 c\<close> Some by (simp add: exclusive_def)
    have r: "cf_run c u = Some (op, l) \<Longrightarrow> runs act op (init op) s1 l (cf_shared c)" for u op l
      using i o [of u] by (cases "u = t") (auto simp: inside_def)
    have n: "(\<forall>u. cf_run c u = None) \<Longrightarrow> cf_shared c = s1" using i by (auto simp: inside_def)
    show ?thesis
      using o r n \<open>replay _ _ _ = _\<close> by (metis option.distinct(1))
  qed
qed

text \<open>Nobody is locked out for good: while a thread is inside a method, some thread can go on.\<close>

lemma deadlock_free:
  assumes "mreach program init act s0 c" and "implements init act exec"
    and "cf_code c t \<noteq> [] \<or> cf_run c t \<noteq> None"
  shows "\<exists>c'. mstep init act c c'"
proof -
  obtain s1 where x: "exclusive init act s1 c" using exclusive_reach [OF assms(1,2)] by blast
  have run: "cf_run c u = Some (op, l) \<Longrightarrow> \<exists>c'. mstep init act c c'" for u op l
    by (cases "act op l (cf_shared c)") (auto intro: m_act m_return)
  show ?thesis
  proof (cases "mx_owner (cf_mutex c)")
    case None
    with x assms(3) obtain op where "cf_run c t = None" "cf_code c t = [Lock, Invoke op, Unlock]"
      by (auto simp: exclusive_def outside_def guarded_def)
    moreover have "mx_lock t (cf_mutex c) = Some \<lparr>mx_owner = Some t, mx_depth = 1\<rparr>" using None by (simp add: mx_lock_def)
    ultimately show ?thesis by (blast intro: m_lock)
  next
    case (Some u)
    with x have "inside init act s1 c u" by (simp add: exclusive_def)
    then show ?thesis by (auto simp: inside_def intro: run m_invoke m_unlock)
  qed
qed

end

section \<open>An implementation in small steps\<close>

text \<open>
  An operation on a pair of which the halves change one after the other: between the two steps the
  state is torn. It implements any operation, and shows that the contract has something to exclude.
\<close>

definition torn_init :: "'op \<Rightarrow> ('r \<times> 'b) option" where
  "torn_init op = None"

fun torn_act ::
    "('op \<Rightarrow> 'a \<times> 'b \<Rightarrow> 'r \<times> 'a \<times> 'b) \<Rightarrow> 'op \<Rightarrow> ('r \<times> 'b) option \<Rightarrow> 'a \<times> 'b
     \<Rightarrow> (('r \<times> 'b) option \<times> 'a \<times> 'b) + ('r \<times> 'a \<times> 'b)" where
  "torn_act exec op None (a, b) = (case exec op (a, b) of (r, a', b') \<Rightarrow> Inl (Some (r, b'), a', b))"
| "torn_act exec op (Some (r, b')) (a, b) = Inr (r, a, b')"

lemma torn_runs:
  "runs (torn_act exec) op l s l1 s1 \<Longrightarrow> l = None \<Longrightarrow>
     (l1 = None \<and> s1 = s) \<or> (\<exists>r b'. l1 = Some (r, b') \<and> exec op s = (r, fst s1, b'))"
proof (induction rule: runs.induct)
  case (runs_step l s l1 s1 l2 s2)
  then show ?case by (cases s1) (auto split: prod.splits)
qed simp

lemma torn_implements: "implements torn_init (torn_act exec) exec"
  unfolding implements_def
proof (intro allI impI)
  fix op s l s1 r s2
  assume run: "runs (torn_act exec) op (torn_init op) s l s1" and ret: "torn_act exec op l s1 = Inr (r, s2)"
  from torn_runs [OF run] ret show "exec op s = (r, s2)"
    by (cases s1) (auto simp: torn_init_def split: prod.splits)
qed

text \<open>A thread that is alone goes through a whole method, with any implementation in two steps.\<close>

lemma guarded_call:
  assumes "mreach program init act s0 c" and "mx_owner (cf_mutex c) = None"
    and "cf_code c t = []" and "cf_run c t = None" and "program m = guarded op"
    and "act op (init op) (cf_shared c) = Inl (l1, s1)" and "act op l1 s1 = Inr (r, s2)"
  shows "\<exists>c'. mreach program init act s0 c' \<and> cf_code c' = cf_code c \<and> cf_run c' = cf_run c \<and>
    cf_shared c' = s2 \<and> mx_owner (cf_mutex c') = None \<and> cf_history c' = cf_history c @ [(t, op, r)]"
proof -
  define c1 where "c1 = c\<lparr>cf_code := (cf_code c)(t := program m)\<rparr>"
  have r1: "mreach program init act s0 c1" unfolding c1_def using assms(1,3,4) by (rule mr_call)
  define c2 where "c2 = c1\<lparr>cf_mutex := \<lparr>mx_owner = Some t, mx_depth = 1\<rparr>, cf_code := (cf_code c1)(t := [Invoke op, Unlock])\<rparr>"
  have r2: "mreach program init act s0 c2" unfolding c2_def
    by (rule mr_step [OF r1 m_lock]) (use assms in \<open>auto simp: c1_def guarded_def mx_lock_def\<close>)
  define c3 where "c3 = c2\<lparr>cf_run := (cf_run c2)(t := Some (op, init op)), cf_code := (cf_code c2)(t := [Unlock])\<rparr>"
  have r3: "mreach program init act s0 c3" unfolding c3_def
    by (rule mr_step [OF r2 m_invoke]) (use assms in \<open>auto simp: c1_def c2_def\<close>)
  define c4 where "c4 = c3\<lparr>cf_run := (cf_run c3)(t := Some (op, l1)), cf_shared := s1\<rparr>"
  have r4: "mreach program init act s0 c4" unfolding c4_def
    by (rule mr_step [OF r3 m_act]) (use assms in \<open>auto simp: c1_def c2_def c3_def\<close>)
  define c5 where "c5 = c4\<lparr>cf_run := (cf_run c4)(t := None), cf_shared := s2, cf_history := cf_history c4 @ [(t, op, r)]\<rparr>"
  have r5: "mreach program init act s0 c5" unfolding c5_def
    by (rule mr_step [OF r4 m_return]) (use assms in \<open>auto simp: c1_def c2_def c3_def c4_def\<close>)
  define c6 where "c6 = c5\<lparr>cf_mutex := mx_unlock (cf_mutex c5), cf_code := (cf_code c5)(t := [])\<rparr>"
  have r6: "mreach program init act s0 c6" unfolding c6_def
    by (rule mr_step [OF r5 m_unlock]) (use assms in \<open>auto simp: c1_def c2_def c3_def c4_def c5_def\<close>)
  show ?thesis
    by (rule exI [of _ c6], use r6 assms(3,4) in \<open>simp add: c1_def c2_def c3_def c4_def c5_def c6_def
        mx_unlock_def mx_free_def fun_upd_idem\<close>)
qed

end
