(* ===== verification/Transport.thy ===== *)
theory Transport
  imports Kinetic_Prelude
begin

text \<open>
  The non-blocking byte transport: the system calls the client makes on its socket and the two
  loops over them, \<open>NonblockingStringReader\<close> and \<open>NonblockingStringWriter\<close>
  (\<open>nonblocking_string.cc\<close>).

  What the operating system will answer is a script, a list of events consumed one per call.
  Theorems quantify over all scripts, so they hold for every way the kernel may split the data,
  interrupt a call, ask the client to come back later, or fail. An exhausted script answers
  EAGAIN: nothing more has arrived, or no more space is free, for now. \<open>SSL_read\<close> and
  \<open>SSL_write\<close> are handled by the code exactly as \<open>read\<close> and \<open>send\<close> (the return value and
  \<open>errno\<close> decide), so one script covers both transports.
\<close>

section \<open>System calls\<close>

datatype errno = EINTR | EAGAIN | EWOULDBLOCK | Errno int

datatype rd_event =
    Rd_bytes bytes  \<comment> \<open>these bytes have arrived; the empty list is end of file\<close>
  | Rd_err errno    \<comment> \<open>the call returns -1 with this \<open>errno\<close>\<close>

text \<open>
  No call moves more than an \<open>int\<close> holds: \<open>read\<close> and \<open>send\<close> stop short of \<open>2 ^ 31\<close> bytes, and the
  lengths and results of \<open>SSL_read\<close> and \<open>SSL_write\<close> are of this type. So the code's \<open>int status\<close> keeps
  every result. Its conversion of a length to \<open>int\<close> matters for SSL from \<open>2 ^ 31\<close> bytes on: OpenSSL
  refuses a negative length, and reads or writes less than was meant if the remainder is positive. Both
  are answers that a script can give (an error, or few bytes); a script without errors for such a length
  is one of a plain connection.
\<close>

definition INT_MAX :: int where
  "INT_MAX = 2147483647"

definition io_limit :: "nat \<Rightarrow> nat" where
  "io_limit n = (if int n \<le> INT_MAX then n else nat INT_MAX)"

lemma io_limit_le: "io_limit n \<le> n"
  by (simp add: io_limit_def INT_MAX_def)

lemma io_limit_pos [simp]: "0 < io_limit n \<longleftrightarrow> 0 < n" "io_limit n = 0 \<longleftrightarrow> n = 0"
  by (simp_all add: io_limit_def INT_MAX_def)

lemma io_limit_small [simp]: "n < 2 ^ 31 \<Longrightarrow> io_limit n = n"
  by (simp add: io_limit_def INT_MAX_def)

fun sys_read :: "nat \<Rightarrow> rd_event list \<Rightarrow> (errno + bytes) \<times> rd_event list" where
  "sys_read n [] = (Inl EAGAIN, [])"
| "sys_read n (Rd_err e # evs) = (Inl e, evs)"
| "sys_read n (Rd_bytes bs # evs) =
     (if length bs \<le> io_limit n then (Inr bs, evs)
      else (Inr (take (io_limit n) bs), Rd_bytes (drop (io_limit n) bs) # evs))"

datatype wr_event =
    Wr_fstat_fail     \<comment> \<open>\<open>fstat\<close> on the socket fails\<close>
  | Wr_accept nat     \<comment> \<open>the kernel takes at most this many of the offered bytes\<close>
  | Wr_err errno

fun sys_fstat :: "wr_event list \<Rightarrow> bool \<times> wr_event list" where
  "sys_fstat (Wr_fstat_fail # evs) = (False, evs)"
| "sys_fstat evs = (True, evs)"

fun sys_send :: "nat \<Rightarrow> wr_event list \<Rightarrow> (errno + nat) \<times> wr_event list" where
  "sys_send n [] = (Inl EAGAIN, [])"
| "sys_send n (Wr_accept k # evs) = (Inr (min k (io_limit n)), evs)"
| "sys_send n (Wr_err e # evs) = (Inl e, evs)"
| "sys_send n (Wr_fstat_fail # evs) = (Inl (Errno 9), evs)"

text \<open>
  The size of a script decreases with every call that consumes something: an event, or at least
  one byte of an event. The bytes that a script still holds are its data.
\<close>

fun rd_event_size :: "rd_event \<Rightarrow> nat" where
  "rd_event_size (Rd_bytes bs) = Suc (length bs)"
| "rd_event_size (Rd_err _) = 1"

definition rd_size :: "rd_event list \<Rightarrow> nat" where
  "rd_size evs = sum_list (map rd_event_size evs)"

fun rd_event_data :: "rd_event \<Rightarrow> bytes" where
  "rd_event_data (Rd_bytes bs) = bs"
| "rd_event_data (Rd_err _) = []"

definition rd_data :: "rd_event list \<Rightarrow> bytes" where
  "rd_data evs = concat (map rd_event_data evs)"

lemma rd_size_simps [simp]:
  "rd_size [] = 0" "rd_size (e # evs) = rd_event_size e + rd_size evs"
  "rd_size (es @ fs) = rd_size es + rd_size fs"
  by (simp_all add: rd_size_def)

lemma rd_data_simps [simp]:
  "rd_data [] = []" "rd_data (e # evs) = rd_event_data e @ rd_data evs"
  "rd_data (es @ fs) = rd_data es @ rd_data fs"
  by (simp_all add: rd_data_def)

lemma sys_read_data [conserve]: "sys_read n evs = (Inr bs, evs') \<Longrightarrow> bs @ rd_data evs' = rd_data evs"
  by (induction n evs rule: sys_read.induct) (use io_limit_le in \<open>auto intro: le_trans split: if_splits\<close>)

lemma sys_read_err_data [conserve]: "sys_read n evs = (Inl e, evs') \<Longrightarrow> rd_data evs' = rd_data evs"
  by (induction n evs rule: sys_read.induct) (use io_limit_le in \<open>auto intro: le_trans split: if_splits\<close>)

lemma sys_read_length: "sys_read n evs = (Inr bs, evs') \<Longrightarrow> length bs \<le> n"
  by (induction n evs rule: sys_read.induct) (use io_limit_le in \<open>auto intro: le_trans split: if_splits\<close>)

lemma sys_read_size:
  "sys_read n evs = (Inr bs, evs') \<Longrightarrow> 0 < n \<Longrightarrow> rd_size evs' < rd_size evs"
  by (induction n evs rule: sys_read.induct) (auto split: if_splits intro!: diff_less)

lemma sys_read_size_data:
  "sys_read n evs = (Inr bs, evs') \<Longrightarrow> rd_size evs' + length bs \<le> rd_size evs"
  by (induction n evs rule: sys_read.induct) (use io_limit_le in \<open>auto intro: le_trans split: if_splits\<close>)

lemma sys_read_err_size:
  "sys_read n evs = (Inl e, evs') \<Longrightarrow> evs' = [] \<and> evs = [] \<or> rd_size evs' < rd_size evs"
  by (induction n evs rule: sys_read.induct) (use io_limit_le in \<open>auto intro: le_trans split: if_splits\<close>)

lemma sys_read_EINTR_size:
  "sys_read n evs = (Inl EINTR, evs') \<Longrightarrow> rd_size evs' < rd_size evs"
  by (induction n evs rule: sys_read.induct) (use io_limit_le in \<open>auto intro: le_trans split: if_splits\<close>)

lemma sys_fstat_length [simp]: "length (snd (sys_fstat evs)) \<le> length evs"
  by (induction evs rule: sys_fstat.induct) auto

lemma sys_fstat_True: "sys_fstat evs = (True, evs') \<Longrightarrow> evs' = evs"
  by (induction evs rule: sys_fstat.induct) auto

lemma sys_send_bound: "sys_send n evs = (Inr k, evs') \<Longrightarrow> k \<le> n"
  by (induction n evs rule: sys_send.induct) (auto intro: le_trans [OF _ io_limit_le])

lemma sys_send_length:
  "sys_send n evs = (Inr k, evs') \<Longrightarrow> length evs' < length evs"
  "sys_send n evs = (Inl EINTR, evs') \<Longrightarrow> length evs' < length evs"
  by (induction n evs rule: sys_send.induct) auto

section \<open>NonblockingStringReader\<close>

text \<open>
  The enumeration \<open>NonblockingStringStatus\<close>. The extra value \<open>kAbort\<close> stands for a failed
  glog \<open>CHECK\<close>, which ends the process.
\<close>

datatype nb_string_status = kInProgress | kDone | kFailed | kAbort

text \<open>
  \<open>sr_buf\<close> is the filled part of the C++ buffer: its length is \<open>bytes_read_\<close>. The string that a
  completed read moves to the caller's pointer \<open>s_\<close> is \<open>sr_result\<close>.
\<close>

record string_reader =
  sr_size :: nat
  sr_buf :: bytes

definition new_string_reader :: "nat \<Rightarrow> string_reader" where
  "new_string_reader n = \<lparr>sr_size = n, sr_buf = []\<rparr>"

function sr_read ::
    "string_reader \<Rightarrow> rd_event list \<Rightarrow> nb_string_status \<times> string_reader \<times> rd_event list" where
  "sr_read r evs =
     (if length (sr_buf r) < sr_size r then
        (case sys_read (sr_size r - length (sr_buf r)) evs of
           (Inr bs, evs') \<Rightarrow>
             if bs = [] then (kFailed, r, evs')
             else sr_read (r\<lparr>sr_buf := sr_buf r @ bs\<rparr>) evs'
         | (Inl e, evs') \<Rightarrow>
             if e = EINTR then sr_read r evs'
             else if e = EAGAIN \<or> e = EWOULDBLOCK then (kInProgress, r, evs')
             else (kFailed, r, evs'))
      else if length (sr_buf r) = sr_size r then (kDone, r, evs)
      else (kAbort, r, evs))"
  by pat_completeness auto
termination
  by (relation "measure (\<lambda>(r, evs). rd_size evs)")
     (auto dest: sys_read_size sys_read_EINTR_size sys_read_size [OF sym] sys_read_EINTR_size [OF sym])

declare sr_read.simps [simp del]

text \<open>
  Induction along one call of \<open>Read\<close>: the turn that ends it (everything there, a failed \<open>CHECK\<close>, or a
  system call that stops it), and the turns before it (interrupted, or with new bytes).
\<close>

lemma sr_read_runs [consumes 1, case_names full beyond stop retry bytes]:
  assumes run: "sr_read r evs = (st, r', evs')"
    and full: "\<And>r evs. length (sr_buf r) = sr_size r \<Longrightarrow> P r evs kDone r evs"
    and beyond: "\<And>r evs. sr_size r < length (sr_buf r) \<Longrightarrow> P r evs kAbort r evs"
    and stop: "\<And>r evs res evs1. length (sr_buf r) < sr_size r \<Longrightarrow>
      sys_read (sr_size r - length (sr_buf r)) evs = (res, evs1) \<Longrightarrow> res = Inr [] \<or> (\<exists>e. res = Inl e \<and> e \<noteq> EINTR) \<Longrightarrow>
      P r evs (if res = Inl EAGAIN \<or> res = Inl EWOULDBLOCK then kInProgress else kFailed) r evs1"
    and retry: "\<And>r evs evs1 st r' evs'. length (sr_buf r) < sr_size r \<Longrightarrow>
      sys_read (sr_size r - length (sr_buf r)) evs = (Inl EINTR, evs1) \<Longrightarrow> sr_read r evs1 = (st, r', evs') \<Longrightarrow>
      P r evs1 st r' evs' \<Longrightarrow> P r evs st r' evs'"
    and bytes: "\<And>r evs bs evs1 st r' evs'. length (sr_buf r) < sr_size r \<Longrightarrow>
      sys_read (sr_size r - length (sr_buf r)) evs = (Inr bs, evs1) \<Longrightarrow> bs \<noteq> [] \<Longrightarrow>
      sr_read (r\<lparr>sr_buf := sr_buf r @ bs\<rparr>) evs1 = (st, r', evs') \<Longrightarrow>
      P (r\<lparr>sr_buf := sr_buf r @ bs\<rparr>) evs1 st r' evs' \<Longrightarrow> P r evs st r' evs'"
  shows "P r evs st r' evs'"
  using run
proof (induction r evs arbitrary: st r' evs' rule: sr_read.induct)
  case (1 r evs)
  note step = "1.prems" [unfolded sr_read.simps [of r evs]]
  obtain res evs1 where sys: "sys_read (sr_size r - length (sr_buf r)) evs = (res, evs1)"
    by (cases "sys_read (sr_size r - length (sr_buf r)) evs")
  show ?case
  proof (cases "length (sr_buf r) < sr_size r")
    case False
    with step full beyond show ?thesis by (auto split: if_splits)
  next
    case less: True
    consider bs where "res = Inr bs" "bs \<noteq> []" | "res = Inl EINTR" | "res = Inr [] \<or> (\<exists>e. res = Inl e \<and> e \<noteq> EINTR)"
      by (cases res) blast+
    then show ?thesis
    proof cases
      case (1 bs)
      with less sys step have "sr_read (r\<lparr>sr_buf := sr_buf r @ bs\<rparr>) evs1 = (st, r', evs')" by simp
      with "1.IH"(2) [OF less sys [symmetric] 1 this] show ?thesis using bytes [OF less _ 1(2)] sys 1(1) by blast
    next
      case 2
      with less sys step have "sr_read r evs1 = (st, r', evs')" by simp
      with "1.IH"(1) [OF less sys [symmetric] 2 refl this] show ?thesis using retry [OF less] sys 2 by blast
    next
      case 3
      with less sys step have "st = (if res = Inl EAGAIN \<or> res = Inl EWOULDBLOCK then kInProgress else kFailed)"
        "r' = r" "evs' = evs1" by (auto split: if_splits)
      with stop [OF less sys 3] show ?thesis by simp
    qed
  qed
qed

definition sr_result :: "string_reader \<Rightarrow> bytes" where
  "sr_result r = take (sr_size r) (sr_buf r)"

section \<open>NonblockingStringWriter\<close>

text \<open>
  \<open>out\<close> is everything the kernel has taken from the client so far. The writer picks \<open>send\<close>,
  \<open>write\<close> or \<open>SSL_write\<close> by the kind of descriptor and treats the results alike.
\<close>

record string_writer =
  sw_data :: bytes
  sw_written :: nat

definition new_string_writer :: "bytes \<Rightarrow> string_writer" where
  "new_string_writer s = \<lparr>sw_data = s, sw_written = 0\<rparr>"

function sw_write ::
    "string_writer \<Rightarrow> wr_event list \<Rightarrow> bytes
     \<Rightarrow> nb_string_status \<times> string_writer \<times> wr_event list \<times> bytes" where
  "sw_write w evs out =
     (if sw_written w < length (sw_data w) then
        (case sys_fstat evs of
           (False, evs') \<Rightarrow> (kFailed, w, evs', out)
         | (True, evs') \<Rightarrow>
             (case sys_send (length (sw_data w) - sw_written w) evs' of
                (Inr k, evs'') \<Rightarrow>
                  if k = 0 then (kFailed, w, evs'', out)
                  else sw_write (w\<lparr>sw_written := sw_written w + k\<rparr>) evs''
                         (out @ take k (drop (sw_written w) (sw_data w)))
              | (Inl e, evs'') \<Rightarrow>
                  if e = EINTR then sw_write w evs'' out
                  else if e = EAGAIN \<or> e = EWOULDBLOCK then (kInProgress, w, evs'', out)
                  else (kFailed, w, evs'', out)))
      else if sw_written w = length (sw_data w) then (kDone, w, evs, out)
      else (kAbort, w, evs, out))"
  by pat_completeness auto
termination
  by (relation "measure (\<lambda>(w, evs, out). length evs)")
     (auto dest!: sys_fstat_True sys_fstat_True [OF sym] sys_send_length sys_send_length [OF sym])

declare sw_write.simps [simp del]

text \<open>The same for \<open>Write\<close>: its last turn, and the turns before it.\<close>

lemma sw_write_runs [consumes 1, case_names full beyond stop retry took]:
  assumes run: "sw_write w evs out = (st, w', evs', out')"
    and full: "\<And>w evs out. sw_written w = length (sw_data w) \<Longrightarrow> P w evs out kDone w evs out"
    and beyond: "\<And>w evs out. length (sw_data w) < sw_written w \<Longrightarrow> P w evs out kAbort w evs out"
    and stop: "\<And>w evs out st evs'. sw_written w < length (sw_data w) \<Longrightarrow>
      (sys_fstat evs = (False, evs') \<and> st = kFailed \<or>
       (\<exists>res. sys_fstat evs = (True, evs) \<and> sys_send (length (sw_data w) - sw_written w) evs = (res, evs') \<and>
          (res = Inr 0 \<or> (\<exists>e. res = Inl e \<and> e \<noteq> EINTR)) \<and>
          st = (if res = Inl EAGAIN \<or> res = Inl EWOULDBLOCK then kInProgress else kFailed))) \<Longrightarrow>
      P w evs out st w evs' out"
    and retry: "\<And>w evs out evs1 st w' evs' out'. sw_written w < length (sw_data w) \<Longrightarrow>
      sys_send (length (sw_data w) - sw_written w) evs = (Inl EINTR, evs1) \<Longrightarrow>
      sw_write w evs1 out = (st, w', evs', out') \<Longrightarrow> P w evs1 out st w' evs' out' \<Longrightarrow> P w evs out st w' evs' out'"
    and took: "\<And>w evs out k evs1 st w' evs' out'. sw_written w < length (sw_data w) \<Longrightarrow>
      sys_send (length (sw_data w) - sw_written w) evs = (Inr k, evs1) \<Longrightarrow> 0 < k \<Longrightarrow>
      k \<le> length (sw_data w) - sw_written w \<Longrightarrow>
      P (w\<lparr>sw_written := sw_written w + k\<rparr>) evs1 (out @ take k (drop (sw_written w) (sw_data w))) st w' evs' out' \<Longrightarrow>
      P w evs out st w' evs' out'"
  shows "P w evs out st w' evs' out'"
  using run
proof (induction w evs out arbitrary: st w' evs' out' rule: sw_write.induct)
  case (1 w evs out)
  note step = "1.prems" [unfolded sw_write.simps [of w evs out]]
  show ?case
  proof (cases "sw_written w < length (sw_data w)")
    case False
    with step full beyond show ?thesis by (auto split: if_splits)
  next
    case less: True
    let ?n = "length (sw_data w) - sw_written w"
    obtain ok evs0 where fs: "sys_fstat evs = (ok, evs0)" by (cases "sys_fstat evs")
    obtain res evs1 where sys: "sys_send ?n evs = (res, evs1)" by (cases "sys_send ?n evs")
    consider "\<not> ok" | k where "ok = True" "res = Inr k" "0 < k" | "ok = True" "res = Inl EINTR"
      | "ok = True" "res = Inr 0 \<or> (\<exists>e. res = Inl e \<and> e \<noteq> EINTR)"
      by (cases ok; cases res) blast+
    then show ?thesis
    proof cases
      case 1
      with less step fs stop [OF less, of evs evs0 kFailed out] show ?thesis by simp
    next
      case (2 k)
      then have eq: "evs0 = evs" using sys_fstat_True fs by simp
      with 2 less fs sys step have "sw_write (w\<lparr>sw_written := sw_written w + k\<rparr>) evs1
          (out @ take k (drop (sw_written w) (sw_data w))) = (st, w', evs', out')" by simp
      with "1.IH"(2) [OF less fs [symmetric, unfolded eq] 2(1) sys [symmetric] 2(2) _ this]
      show ?thesis using took [OF less] sys sys_send_bound [of ?n evs k evs1] 2 by simp
    next
      case 3
      then have eq: "evs0 = evs" using sys_fstat_True fs by simp
      with 3 less fs sys step have "sw_write w evs1 out = (st, w', evs', out')" by simp
      with "1.IH"(1) [OF less fs [symmetric, unfolded eq] 3(1) sys [symmetric] 3(2) refl this]
      show ?thesis using retry [OF less] sys 3 by simp
    next
      case 4
      then have eq: "evs0 = evs" using sys_fstat_True fs by simp
      let ?st = "if res = Inl EAGAIN \<or> res = Inl EWOULDBLOCK then kInProgress else kFailed"
      from eq 4 less fs sys step have "st = ?st" "w' = w" "evs' = evs1" "out' = out" by (auto split: if_splits)
      with stop [OF less, of evs evs1 ?st out] fs eq 4 sys show ?thesis by simp
    qed
  qed
qed

definition sw_rest :: "string_writer \<Rightarrow> bytes" where
  "sw_rest w = drop (sw_written w) (sw_data w)"

section \<open>What a call of the reader does\<close>

definition sr_wf :: "string_reader \<Rightarrow> bool" where
  "sr_wf r \<longleftrightarrow> length (sr_buf r) \<le> sr_size r"

lemma sr_wf_new [simp]: "sr_wf (new_string_reader n)"
  by (simp add: sr_wf_def new_string_reader_def)

lemma new_string_reader_sel [simp]:
  "sr_size (new_string_reader n) = n" "sr_buf (new_string_reader n) = []"
  by (simp_all add: new_string_reader_def)

lemma sr_read_stop:
  "length (sr_buf r) = sr_size r \<Longrightarrow> sr_read r evs = (kDone, r, evs)"
  by (simp add: sr_read.simps)

lemma sr_read_post:
  assumes "sr_read r evs = (st, r', evs')" and "sr_wf r"
  shows "sr_wf r' \<and> sr_size r' = sr_size r \<and> st \<noteq> kAbort \<and>
    sr_buf r' @ rd_data evs' = sr_buf r @ rd_data evs \<and>
    (st = kDone \<longleftrightarrow> length (sr_buf r') = sr_size r) \<and>
    rd_size evs' + length (sr_buf r') \<le> rd_size evs + length (sr_buf r) \<and>
    (st = kInProgress \<longrightarrow> evs = [] \<and> evs' = [] \<or> evs' = [] \<or> rd_size evs' < rd_size evs) \<and>
    (\<exists>xs. sr_buf r' = sr_buf r @ xs)"
  using assms
proof (induction rule: sr_read_runs)
  case (stop r evs res evs1)
  have "rd_data evs1 = rd_data evs \<and> rd_size evs1 \<le> rd_size evs \<and>
      (res = Inr [] \<or> evs1 = [] \<or> rd_size evs1 < rd_size evs)"
  proof (cases res)
    case (Inl e)
    with stop.hyps(2) show ?thesis using sys_read_err_data sys_read_err_size by fastforce
  next
    case (Inr bs)
    with stop.hyps(2,3) show ?thesis using sys_read_data sys_read_size_data by fastforce
  qed
  with stop show ?case by auto
next
  case (retry r evs evs1 st r' evs')
  with sys_read_err_data [OF retry.hyps(2)] sys_read_err_size [OF retry.hyps(2)] show ?case by auto
next
  case (bytes r evs bs evs1 st r' evs')
  from sys_read_length [OF bytes.hyps(2)] bytes.hyps(1) have "sr_wf (r\<lparr>sr_buf := sr_buf r @ bs\<rparr>)"
    by (simp add: sr_wf_def)
  with bytes.IH sys_read_data [OF bytes.hyps(2)] sys_read_size_data [OF bytes.hyps(2)]
    sys_read_size [OF bytes.hyps(2)] bytes.hyps(1) show ?case by auto
qed (auto simp: sr_wf_def)

text \<open>
  A script is benign when it holds no end of file and no error other than the ones the client
  retries. On a benign script no read fails.
\<close>

fun rd_benign_event :: "rd_event \<Rightarrow> bool" where
  "rd_benign_event (Rd_bytes bs) \<longleftrightarrow> bs \<noteq> []"
| "rd_benign_event (Rd_err e) \<longleftrightarrow> e = EINTR \<or> e = EAGAIN \<or> e = EWOULDBLOCK"

definition rd_benign :: "rd_event list \<Rightarrow> bool" where
  "rd_benign evs \<longleftrightarrow> list_all rd_benign_event evs"

lemma rd_benign_simps [simp]:
  "rd_benign []" "rd_benign (e # evs) \<longleftrightarrow> rd_benign_event e \<and> rd_benign evs"
  by (simp_all add: rd_benign_def)

lemma sys_read_benign:
  "sys_read n evs = (res, evs') \<Longrightarrow> rd_benign evs \<Longrightarrow> 0 < n \<Longrightarrow>
     rd_benign evs' \<and>
     (case res of Inr bs \<Rightarrow> bs \<noteq> [] | Inl e \<Rightarrow> e = EINTR \<or> e = EAGAIN \<or> e = EWOULDBLOCK)"
  by (induction n evs rule: sys_read.induct) (use io_limit_le in \<open>auto intro: le_trans split: if_splits\<close>)

lemma sr_read_benign:
  assumes "sr_read r evs = (st, r', evs')" and "rd_benign evs"
  shows "rd_benign evs' \<and> st \<noteq> kFailed"
  using assms
proof (induction rule: sr_read_runs)
  case (stop r evs res evs1)
  with sys_read_benign [OF stop.hyps(2)] show ?case by (cases res) auto
next
  case (retry r evs evs1 st r' evs')
  with sys_read_benign [OF retry.hyps(2)] show ?case by simp
next
  case (bytes r evs bs evs1 st r' evs')
  with sys_read_benign [OF bytes.hyps(2)] show ?case by simp
qed simp_all

section \<open>What a call of the writer does\<close>

definition sw_wf :: "string_writer \<Rightarrow> bool" where
  "sw_wf w \<longleftrightarrow> sw_written w \<le> length (sw_data w)"

lemma new_string_writer_sel [simp]:
  "sw_data (new_string_writer s) = s" "sw_written (new_string_writer s) = 0"
  "sw_rest (new_string_writer s) = s" "sw_wf (new_string_writer s)"
  by (simp_all add: new_string_writer_def sw_rest_def sw_wf_def)

lemma sw_rest_Nil_iff: "sw_wf w \<Longrightarrow> sw_rest w = [] \<longleftrightarrow> sw_written w = length (sw_data w)"
  by (auto simp: sw_wf_def sw_rest_def)

lemma sw_write_stop: "sw_wf w \<Longrightarrow> sw_rest w = [] \<Longrightarrow> sw_write w evs out = (kDone, w, evs, out)"
  by (simp add: sw_write.simps sw_rest_Nil_iff)

lemma sw_write_post:
  assumes "sw_write w evs out = (st, w', evs', out')" and "sw_wf w"
  shows "sw_wf w' \<and> sw_data w' = sw_data w \<and> st \<noteq> kAbort \<and>
    out' @ sw_rest w' = out @ sw_rest w \<and> (\<exists>xs. out' = out @ xs) \<and>
    (st = kDone \<longleftrightarrow> sw_rest w' = []) \<and> length evs' \<le> length evs \<and>
    (st = kInProgress \<longrightarrow> evs' = [] \<or> length evs' < length evs)"
  using assms
proof (induction rule: sw_write_runs)
  case (stop w evs out st evs')
  have "length evs' \<le> length evs \<and> (st = kInProgress \<longrightarrow> evs' = [] \<or> length evs' < length evs)"
    using stop.hyps(2) by (cases evs rule: sys_fstat.cases) (auto split: if_splits elim: sys_send.elims)
  with stop show ?case by (auto simp: sw_rest_def split: if_splits)
next
  case (retry w evs out evs1 st w' evs' out')
  with sys_send_length(2) [OF retry.hyps(2)] show ?case by auto
next
  case (took w evs out k evs1 st w' evs' out')
  have "out @ take k (drop (sw_written w) (sw_data w)) @ sw_rest (w\<lparr>sw_written := sw_written w + k\<rparr>) = out @ sw_rest w"
    by (simp add: sw_rest_def take_drop_drop)
  moreover have "sw_wf (w\<lparr>sw_written := sw_written w + k\<rparr>)" using took.hyps(1,4) by (simp add: sw_wf_def)
  ultimately show ?case using took.IH sys_send_length(1) [OF took.hyps(2)] by auto
qed (auto simp: sw_wf_def sw_rest_def)

end
