(* ===== verification/Packet.thy ===== *)
theory Packet
  imports Transport
begin

text \<open>
  Framing of one protocol message: \<open>NonblockingPacketWriter\<close> and \<open>NonblockingPacketReader\<close>
  (\<open>nonblocking_packet.cc\<close>). A packet on the wire is the byte \<open>F\<close>, the length of the serialized
  message and the length of the value as 32-bit big-endian numbers, the message, the value. Both
  machines go through the same states and can stop in the middle of any field, to be resumed by
  the next call.

  The protocol buffer message is a parameter: its type \<open>'m\<close>, its serializer \<open>ser\<close> (None is a
  message that lacks required fields) and its parser \<open>parse\<close> are generated code.
\<close>

section \<open>The states of a packet\<close>

datatype packet_state = kMagic | kMessageLength | kValueLength | kMessage | kValue | kFinished

primrec state_rank :: "packet_state \<Rightarrow> nat" where
  "state_rank kMagic = 0"
| "state_rank kMessageLength = 1"
| "state_rank kValueLength = 2"
| "state_rank kMessage = 3"
| "state_rank kValue = 4"
| "state_rank kFinished = 5"

text \<open>The states are ordered as the enumeration declares them, so progress is \<open>\<le>\<close>.\<close>

instantiation packet_state :: linorder
begin

definition less_eq_packet_state :: "packet_state \<Rightarrow> packet_state \<Rightarrow> bool" where
  "less_eq_packet_state a b \<longleftrightarrow> state_rank a \<le> state_rank b"

definition less_packet_state :: "packet_state \<Rightarrow> packet_state \<Rightarrow> bool" where
  "less_packet_state a b \<longleftrightarrow> state_rank a < state_rank b"

instance
proof
  fix a b c :: packet_state
  show "a < b \<longleftrightarrow> a \<le> b \<and> \<not> b \<le> a" and "a \<le> a" and "a \<le> b \<or> b \<le> a"
    and "a \<le> b \<Longrightarrow> b \<le> c \<Longrightarrow> a \<le> c"
    by (auto simp: less_eq_packet_state_def less_packet_state_def)
  show "a \<le> b \<Longrightarrow> b \<le> a \<Longrightarrow> a = b"
    by (cases a; cases b) (auto simp: less_eq_packet_state_def)
qed

end

lemmas state_order = less_eq_packet_state_def less_packet_state_def

section \<open>The format of the wire\<close>

definition magic_byte :: byte where
  "magic_byte = 70"

definition wire_packet :: "bytes \<Rightarrow> bytes \<Rightarrow> bytes" where
  "wire_packet m v =
     magic_byte # be32 (of_nat (length m)) @ be32 (of_nat (length v)) @ m @ v"

section \<open>NonblockingPacketWriter\<close>

record 'm packet_writer =
  pw_message :: 'm
  pw_value :: bytes
  pw_state :: packet_state
  pw_writer :: string_writer
  pw_serialized :: bytes

definition new_packet_writer :: "'m \<Rightarrow> bytes \<Rightarrow> 'm packet_writer" where
  "new_packet_writer m v =
     \<lparr>pw_message = m, pw_value = v, pw_state = kMagic,
      pw_writer = new_string_writer [magic_byte], pw_serialized = []\<rparr>"

definition pw_TransitionFromMagic ::
    "('m \<Rightarrow> bytes option) \<Rightarrow> 'm packet_writer \<Rightarrow> bool \<times> 'm packet_writer" where
  "pw_TransitionFromMagic ser w =
     (case ser (pw_message w) of
        None \<Rightarrow> (False, w)
      | Some s \<Rightarrow>
          (True, w\<lparr>pw_serialized := s,
                   pw_writer := new_string_writer (be32 (of_nat (length s))),
                   pw_state := kMessageLength\<rparr>))"

definition pw_TransitionFromMessageLength :: "'m packet_writer \<Rightarrow> 'm packet_writer" where
  "pw_TransitionFromMessageLength w =
     w\<lparr>pw_writer := new_string_writer (be32 (of_nat (length (pw_value w)))),
       pw_state := kValueLength\<rparr>"

definition pw_TransitionFromValueLength :: "'m packet_writer \<Rightarrow> 'm packet_writer" where
  "pw_TransitionFromValueLength w =
     w\<lparr>pw_writer := new_string_writer (pw_serialized w), pw_state := kMessage\<rparr>"

definition pw_TransitionFromMessage :: "'m packet_writer \<Rightarrow> 'm packet_writer" where
  "pw_TransitionFromMessage w =
     w\<lparr>pw_writer := new_string_writer (pw_value w), pw_state := kValue\<rparr>"

definition pw_TransitionFromValue :: "'m packet_writer \<Rightarrow> 'm packet_writer" where
  "pw_TransitionFromValue w = w\<lparr>pw_state := kFinished\<rparr>"

text \<open>
  The \<open>switch\<close> of \<open>Write\<close> for every state but the last: the flag is False when \<open>Write\<close> must
  return \<open>kFailed\<close>.
\<close>

definition pw_transition ::
    "('m \<Rightarrow> bytes option) \<Rightarrow> 'm packet_writer \<Rightarrow> bool \<times> 'm packet_writer" where
  "pw_transition ser w =
     (case pw_state w of
        kMagic \<Rightarrow> pw_TransitionFromMagic ser w
      | kMessageLength \<Rightarrow> (True, pw_TransitionFromMessageLength w)
      | kValueLength \<Rightarrow> (True, pw_TransitionFromValueLength w)
      | kMessage \<Rightarrow> (True, pw_TransitionFromMessage w)
      | kValue \<Rightarrow> (True, pw_TransitionFromValue w)
      | kFinished \<Rightarrow> (True, w))"

lemmas pw_transition_defs =
  pw_TransitionFromMagic_def pw_TransitionFromMessageLength_def pw_TransitionFromValueLength_def
  pw_TransitionFromMessage_def pw_TransitionFromValue_def

lemma pw_transition_rank:
  "pw_transition ser w = (True, w') \<Longrightarrow> pw_state w \<noteq> kFinished \<Longrightarrow>
     state_rank (pw_state w') = Suc (state_rank (pw_state w))"
  by (cases "pw_state w") (auto simp: pw_transition_def pw_transition_defs split: option.splits)

lemma state_rank_bound: "state_rank s \<le> 5"
  by (cases s) auto

lemma state_rank_unfinished: "s \<noteq> kFinished \<Longrightarrow> state_rank s < 5"
  by (cases s) auto

text \<open>The \<open>while (true)\<close> of \<open>Write\<close>.\<close>

function pw_loop ::
    "('m \<Rightarrow> bytes option) \<Rightarrow> 'm packet_writer \<Rightarrow> wr_event list \<Rightarrow> bytes
     \<Rightarrow> nb_string_status \<times> 'm packet_writer \<times> wr_event list \<times> bytes" where
  "pw_loop ser w evs out =
     (case sw_write (pw_writer w) evs out of
        (st, sw, evs', out') \<Rightarrow>
          if st \<noteq> kDone then (st, w\<lparr>pw_writer := sw\<rparr>, evs', out')
          else if pw_state w = kFinished then
            (case sys_fstat evs' of
               (ok, evs'') \<Rightarrow> (if ok then kDone else kFailed, w\<lparr>pw_writer := sw\<rparr>, evs'', out'))
          else
            (case pw_transition ser (w\<lparr>pw_writer := sw\<rparr>) of
               (False, w') \<Rightarrow> (kFailed, w', evs', out')
             | (True, w') \<Rightarrow> pw_loop ser w' evs' out'))"
  by pat_completeness auto
termination
  by (relation "measure (\<lambda>(ser, w, evs, out). 5 - state_rank (pw_state w))")
     (auto dest!: pw_transition_rank [OF sym] dest: state_rank_unfinished)

declare pw_loop.simps [simp del]

text \<open>Induction along the loop: the turn that ends it, and the turns before it.\<close>

lemma pw_loop_runs [consumes 1, case_names wait finish refuse turn]:
  assumes run: "pw_loop ser w evs out = (st, w', evs', out')"
    and wait: "\<And>w evs out st sw evs' out'. sw_write (pw_writer w) evs out = (st, sw, evs', out') \<Longrightarrow> st \<noteq> kDone \<Longrightarrow>
      P w evs out st (w\<lparr>pw_writer := sw\<rparr>) evs' out'"
    and finish: "\<And>w evs out sw evs1 out1 ok evs2. sw_write (pw_writer w) evs out = (kDone, sw, evs1, out1) \<Longrightarrow>
      pw_state w = kFinished \<Longrightarrow> sys_fstat evs1 = (ok, evs2) \<Longrightarrow>
      P w evs out (if ok then kDone else kFailed) (w\<lparr>pw_writer := sw\<rparr>) evs2 out1"
    and refuse: "\<And>w evs out sw evs1 out1 w2. sw_write (pw_writer w) evs out = (kDone, sw, evs1, out1) \<Longrightarrow>
      pw_state w \<noteq> kFinished \<Longrightarrow> pw_transition ser (w\<lparr>pw_writer := sw\<rparr>) = (False, w2) \<Longrightarrow>
      P w evs out kFailed w2 evs1 out1"
    and turn: "\<And>w evs out sw evs1 out1 w2 st w' evs' out'. sw_write (pw_writer w) evs out = (kDone, sw, evs1, out1) \<Longrightarrow>
      pw_state w \<noteq> kFinished \<Longrightarrow> pw_transition ser (w\<lparr>pw_writer := sw\<rparr>) = (True, w2) \<Longrightarrow>
      P w2 evs1 out1 st w' evs' out' \<Longrightarrow> P w evs out st w' evs' out'"
  shows "P w evs out st w' evs' out'"
  using run
proof (induction "5 - state_rank (pw_state w)" arbitrary: w evs out st w' evs' out' rule: less_induct)
  case less
  note step = less.prems [unfolded pw_loop.simps [of ser w evs out]]
  obtain st1 sw evs1 out1 where sw: "sw_write (pw_writer w) evs out = (st1, sw, evs1, out1)" by (metis prod_cases4)
  obtain ok w2 where tr: "pw_transition ser (w\<lparr>pw_writer := sw\<rparr>) = (ok, w2)"
    by (cases "pw_transition ser (w\<lparr>pw_writer := sw\<rparr>)")
  obtain fine evs2 where fs: "sys_fstat evs1 = (fine, evs2)" by (cases "sys_fstat evs1")
  consider "st1 \<noteq> kDone" | "st1 = kDone" "pw_state w = kFinished" | "st1 = kDone" "pw_state w \<noteq> kFinished" "ok = False"
    | "st1 = kDone" "pw_state w \<noteq> kFinished" "ok = True" by (cases ok) auto
  then show ?case
  proof cases
    case 1
    with wait [OF sw] step sw show ?thesis by simp
  next
    case 2
    with finish [OF sw [unfolded 2(1)] 2(2) fs] step sw fs show ?thesis by (auto split: if_splits)
  next
    case 3
    with refuse [OF sw [unfolded 3(1)] 3(2) tr [unfolded 3(3)]] step sw tr show ?thesis by simp
  next
    case 4
    then have rec: "pw_loop ser w2 evs1 out1 = (st, w', evs', out')" using step sw tr by simp
    have "state_rank (pw_state w2) = Suc (state_rank (pw_state w))"
      using pw_transition_rank [OF tr [unfolded 4(3)]] 4(2) by simp
    then have "5 - state_rank (pw_state w2) < 5 - state_rank (pw_state w)" using state_rank_unfinished [OF 4(2)] by simp
    from turn [OF sw [unfolded 4(1)] 4(2) tr [unfolded 4(3)] less.hyps [OF this rec]] show ?thesis .
  qed
qed

text \<open>
  \<open>Write\<close> checks the descriptor with \<open>fstat\<close> before it corks the socket. The socket options
  it sets (TCP\_CORK, TCP\_NODELAY) change when bytes travel, not which, and their results are
  not looked at.
\<close>

definition pw_Write ::
    "('m \<Rightarrow> bytes option) \<Rightarrow> 'm packet_writer \<Rightarrow> wr_event list \<Rightarrow> bytes
     \<Rightarrow> nb_string_status \<times> 'm packet_writer \<times> wr_event list \<times> bytes" where
  "pw_Write ser w evs out =
     (case sys_fstat evs of
        (False, evs') \<Rightarrow> (kFailed, w, evs', out)
      | (True, evs') \<Rightarrow> pw_loop ser w evs' out)"

section \<open>NonblockingPacketReader\<close>

text \<open>
  The four \<open>unique_ptr\<close> fields are empty until their part has been read. The response message and
  the value belong to the receiver: \<open>Read\<close> takes them and returns them updated.
\<close>

record packet_reader =
  pr_state :: packet_state
  pr_magic :: bytes
  pr_message_length :: bytes
  pr_value_length :: bytes
  pr_message :: bytes
  pr_reader :: string_reader

definition new_packet_reader :: packet_reader where
  "new_packet_reader =
     \<lparr>pr_state = kMagic, pr_magic = [], pr_message_length = [], pr_value_length = [],
      pr_message = [], pr_reader = new_string_reader 1\<rparr>"

text \<open>Which pointer the current string reader fills when it is done.\<close>

definition pr_store :: "packet_reader \<Rightarrow> bytes option \<Rightarrow> packet_reader \<times> bytes option" where
  "pr_store r val =
     (let s = sr_result (pr_reader r) in
      case pr_state r of
        kMagic \<Rightarrow> (r\<lparr>pr_magic := s\<rparr>, val)
      | kMessageLength \<Rightarrow> (r\<lparr>pr_message_length := s\<rparr>, val)
      | kValueLength \<Rightarrow> (r\<lparr>pr_value_length := s\<rparr>, val)
      | kMessage \<Rightarrow> (r\<lparr>pr_message := s\<rparr>, val)
      | kValue \<Rightarrow> (r, Some s)
      | kFinished \<Rightarrow> (r, Some s))"

definition pr_TransitionFromMagic :: "packet_reader \<Rightarrow> bool \<times> packet_reader" where
  "pr_TransitionFromMagic r =
     (if pr_magic r \<noteq> [magic_byte] then (False, r)
      else (True, r\<lparr>pr_reader := new_string_reader 4, pr_state := kMessageLength\<rparr>))"

definition pr_TransitionFromMessageLength :: "packet_reader \<Rightarrow> packet_reader" where
  "pr_TransitionFromMessageLength r =
     r\<lparr>pr_reader := new_string_reader 4, pr_state := kValueLength\<rparr>"

text \<open>The two transitions that decode a length check first that it has four bytes (\<open>CHECK_EQ\<close>).\<close>

definition pr_TransitionFromValueLength :: "packet_reader \<Rightarrow> packet_reader option" where
  "pr_TransitionFromValueLength r =
     (if length (pr_message_length r) \<noteq> 4 then None
      else Some (r\<lparr>pr_reader := new_string_reader (unat (unbe32 (pr_message_length r))),
                   pr_state := kMessage\<rparr>))"

definition pr_TransitionFromMessage :: "packet_reader \<Rightarrow> packet_reader option" where
  "pr_TransitionFromMessage r =
     (if length (pr_value_length r) \<noteq> 4 then None
      else Some (r\<lparr>pr_reader := new_string_reader (unat (unbe32 (pr_value_length r))),
                   pr_state := kValue\<rparr>))"

definition pr_TransitionFromValue ::
    "(bytes \<Rightarrow> 'm option) \<Rightarrow> packet_reader \<Rightarrow> 'm \<Rightarrow> bool \<times> packet_reader \<times> 'm" where
  "pr_TransitionFromValue parse r resp =
     (case parse (pr_message r) of
        None \<Rightarrow> (False, r\<lparr>pr_state := kFinished\<rparr>, resp)
      | Some m \<Rightarrow> (True, r\<lparr>pr_state := kFinished\<rparr>, m))"

text \<open>
  The \<open>switch\<close> of \<open>Read\<close>: \<open>Some st\<close> when \<open>Read\<close> returns \<open>st\<close>, None when its loop goes on.
\<close>

definition pr_transition ::
    "(bytes \<Rightarrow> 'm option) \<Rightarrow> packet_reader \<Rightarrow> 'm
     \<Rightarrow> nb_string_status option \<times> packet_reader \<times> 'm" where
  "pr_transition parse r resp =
     (case pr_state r of
        kMagic \<Rightarrow> (case pr_TransitionFromMagic r of
                     (ok, r') \<Rightarrow> (if ok then None else Some kFailed, r', resp))
      | kMessageLength \<Rightarrow> (None, pr_TransitionFromMessageLength r, resp)
      | kValueLength \<Rightarrow> (case pr_TransitionFromValueLength r of
                           None \<Rightarrow> (Some kAbort, r, resp)
                         | Some r' \<Rightarrow> (None, r', resp))
      | kMessage \<Rightarrow> (case pr_TransitionFromMessage r of
                       None \<Rightarrow> (Some kAbort, r, resp)
                     | Some r' \<Rightarrow> (None, r', resp))
      | kValue \<Rightarrow> (case pr_TransitionFromValue parse r resp of
                     (ok, r', resp') \<Rightarrow> (if ok then None else Some kFailed, r', resp'))
      | kFinished \<Rightarrow> (Some kDone, r, resp))"

lemmas pr_transition_defs =
  pr_TransitionFromMagic_def pr_TransitionFromMessageLength_def pr_TransitionFromValueLength_def
  pr_TransitionFromMessage_def pr_TransitionFromValue_def

lemma pr_transition_rank:
  "pr_transition parse r resp = (None, r', resp') \<Longrightarrow>
     pr_state r \<noteq> kFinished \<and> state_rank (pr_state r') = Suc (state_rank (pr_state r))"
  by (cases "pr_state r")
     (auto simp: pr_transition_def pr_transition_defs split: option.splits if_splits prod.splits)

lemma pr_store_state: "pr_store r val = (r', val') \<Longrightarrow> pr_state r' = pr_state r"
  by (auto simp: pr_store_def Let_def split: packet_state.splits)

function pr_Read ::
    "(bytes \<Rightarrow> 'm option) \<Rightarrow> packet_reader \<Rightarrow> rd_event list \<Rightarrow> 'm \<Rightarrow> bytes option
     \<Rightarrow> nb_string_status \<times> packet_reader \<times> rd_event list \<times> 'm \<times> bytes option" where
  "pr_Read parse r evs resp val =
     (case sr_read (pr_reader r) evs of
        (st, sr, evs') \<Rightarrow>
          if st \<noteq> kDone then (st, r\<lparr>pr_reader := sr\<rparr>, evs', resp, val)
          else
            (case pr_store (r\<lparr>pr_reader := sr\<rparr>) val of
               (r1, val1) \<Rightarrow>
                 (case pr_transition parse r1 resp of
                    (Some st', r2, resp2) \<Rightarrow> (st', r2, evs', resp2, val1)
                  | (None, r2, resp2) \<Rightarrow> pr_Read parse r2 evs' resp2 val1)))"
  by pat_completeness auto
termination
  by (relation "measure (\<lambda>(parse, r, evs, resp, val). 5 - state_rank (pr_state r))")
     (auto dest!: pr_transition_rank [OF sym] pr_store_state [OF sym] dest: state_rank_unfinished)

declare pr_Read.simps [simp del]

text \<open>
  Induction along one call of \<open>Read\<close>: the turn that ends it, because the current part is not complete or
  because the state machine says so, and the turns before it.
\<close>

lemma pr_Read_runs [consumes 1, case_names wait finish turn]:
  assumes run: "pr_Read parse r evs resp val = (st, r', evs', resp', val')"
    and wait: "\<And>r evs resp val st sr evs'. sr_read (pr_reader r) evs = (st, sr, evs') \<Longrightarrow> st \<noteq> kDone \<Longrightarrow>
      P r evs resp val st (r\<lparr>pr_reader := sr\<rparr>) evs' resp val"
    and finish: "\<And>r evs resp val sr evs1 r1 val1 st r2 resp2. sr_read (pr_reader r) evs = (kDone, sr, evs1) \<Longrightarrow>
      pr_store (r\<lparr>pr_reader := sr\<rparr>) val = (r1, val1) \<Longrightarrow> pr_transition parse r1 resp = (Some st, r2, resp2) \<Longrightarrow>
      P r evs resp val st r2 evs1 resp2 val1"
    and turn: "\<And>r evs resp val sr evs1 r1 val1 r2 resp2 st r' evs' resp' val'.
      sr_read (pr_reader r) evs = (kDone, sr, evs1) \<Longrightarrow> pr_store (r\<lparr>pr_reader := sr\<rparr>) val = (r1, val1) \<Longrightarrow>
      pr_transition parse r1 resp = (None, r2, resp2) \<Longrightarrow>
      pr_Read parse r2 evs1 resp2 val1 = (st, r', evs', resp', val') \<Longrightarrow>
      P r2 evs1 resp2 val1 st r' evs' resp' val' \<Longrightarrow> P r evs resp val st r' evs' resp' val'"
  shows "P r evs resp val st r' evs' resp' val'"
  using run
proof (induction "5 - state_rank (pr_state r)" arbitrary: r evs resp val st r' evs' resp' val' rule: less_induct)
  case less
  note step = less.prems [unfolded pr_Read.simps [of parse r evs resp val]]
  obtain st1 sr evs1 where sr: "sr_read (pr_reader r) evs = (st1, sr, evs1)" by (metis prod_cases3)
  obtain r1 val1 where store: "pr_store (r\<lparr>pr_reader := sr\<rparr>) val = (r1, val1)"
    by (cases "pr_store (r\<lparr>pr_reader := sr\<rparr>) val")
  obtain t r2 resp2 where tr: "pr_transition parse r1 resp = (t, r2, resp2)" by (metis prod_cases3)
  consider "st1 \<noteq> kDone" | st2 where "st1 = kDone" "t = Some st2" | "st1 = kDone" "t = None" by (cases t) auto
  then show ?case
  proof cases
    case 1
    with wait [OF sr] step sr show ?thesis by simp
  next
    case (2 st2)
    with finish [OF _ store, of evs evs1 resp st2 r2 resp2] step sr store tr show ?thesis by simp
  next
    case 3
    then have rec: "pr_Read parse r2 evs1 resp2 val1 = (st, r', evs', resp', val')" using step sr store tr by simp
    have "state_rank (pr_state r2) = Suc (state_rank (pr_state r)) \<and> pr_state r \<noteq> kFinished"
      using tr [unfolded 3] pr_transition_rank pr_store_state [OF store] by fastforce
    then have "5 - state_rank (pr_state r2) < 5 - state_rank (pr_state r)"
      using state_rank_unfinished [of "pr_state r"] by simp
    from turn [OF sr [unfolded 3] store tr [unfolded 3] rec less.hyps [OF this rec]] show ?thesis .
  qed
qed

section \<open>What the writer puts on the wire\<close>

text \<open>
  \<open>pw_rest\<close> is what a writer still has to send: the rest of the current field and the fields
  after it. Sending moves bytes from the front of \<open>pw_rest\<close> to the end of the output and does
  nothing else, so their concatenation is invariant.
\<close>

definition pw_pending :: "bytes \<Rightarrow> 'm packet_writer \<Rightarrow> bytes" where
  "pw_pending s w =
     (case pw_state w of
        kMagic \<Rightarrow> be32 (of_nat (length s)) @ be32 (of_nat (length (pw_value w))) @ s @ pw_value w
      | kMessageLength \<Rightarrow> be32 (of_nat (length (pw_value w))) @ s @ pw_value w
      | kValueLength \<Rightarrow> s @ pw_value w
      | kMessage \<Rightarrow> pw_value w
      | kValue \<Rightarrow> []
      | kFinished \<Rightarrow> [])"

definition pw_rest :: "bytes \<Rightarrow> 'm packet_writer \<Rightarrow> bytes" where
  "pw_rest s w = sw_rest (pw_writer w) @ pw_pending s w"

definition pw_wf :: "('m \<Rightarrow> bytes option) \<Rightarrow> bytes \<Rightarrow> 'm packet_writer \<Rightarrow> bool" where
  "pw_wf ser s w \<longleftrightarrow>
     sw_wf (pw_writer w) \<and> ser (pw_message w) = Some s \<and>
     (pw_state w \<noteq> kMagic \<longrightarrow> pw_serialized w = s) \<and>
     (pw_state w = kFinished \<longrightarrow> sw_rest (pw_writer w) = [])"

lemma pw_wf_new [simp]: "ser m = Some s \<Longrightarrow> pw_wf ser s (new_packet_writer m v)"
  by (simp add: pw_wf_def new_packet_writer_def)

lemma pw_rest_new [simp]: "pw_rest s (new_packet_writer m v) = wire_packet s v"
  by (simp add: pw_rest_def pw_pending_def new_packet_writer_def wire_packet_def)

lemma pw_transition_step:
  assumes "pw_wf ser s w" and "sw_rest (pw_writer w) = []" and "pw_state w \<noteq> kFinished"
  obtains w' where "pw_transition ser w = (True, w')" and "pw_wf ser s w'"
    and "pw_rest s w' = pw_rest s w" and "pw_message w' = pw_message w" and "pw_value w' = pw_value w"
  using assms
  by (cases "pw_state w")
     (auto simp: pw_transition_def pw_transition_defs pw_wf_def pw_rest_def pw_pending_def)

lemma pw_pending_writer [simp]: "pw_pending s (w\<lparr>pw_writer := sw\<rparr>) = pw_pending s w"
  by (simp add: pw_pending_def split: packet_state.splits)

lemma pw_part_written:
  assumes "sw_write (pw_writer w) evs out = (kDone, sw, evs1, out1)" and "pw_wf ser s w"
  shows "pw_wf ser s (w\<lparr>pw_writer := sw\<rparr>)" and "sw_rest (pw_writer (w\<lparr>pw_writer := sw\<rparr>)) = []"
    and "out1 @ pw_rest s (w\<lparr>pw_writer := sw\<rparr>) = out @ pw_rest s w" and "\<exists>xs. out1 = out @ xs"
    and "length evs1 \<le> length evs"
proof -
  have wf: "sw_wf (pw_writer w)" using assms(2) by (simp add: pw_wf_def)
  note post = sw_write_post [OF assms(1) wf]
  show "pw_wf ser s (w\<lparr>pw_writer := sw\<rparr>)" "sw_rest (pw_writer (w\<lparr>pw_writer := sw\<rparr>)) = []"
    "out1 @ pw_rest s (w\<lparr>pw_writer := sw\<rparr>) = out @ pw_rest s w" "\<exists>xs. out1 = out @ xs"
    "length evs1 \<le> length evs"
    using post assms(2) by (auto simp: pw_wf_def pw_rest_def simp flip: append_assoc)
qed

lemma pw_loop_post:
  assumes "pw_loop ser w evs out = (st, w', evs', out')" and "pw_wf ser s w"
  shows "pw_wf ser s w' \<and> st \<noteq> kAbort \<and> out' @ pw_rest s w' = out @ pw_rest s w \<and>
    (\<exists>xs. out' = out @ xs) \<and> (st = kDone \<longrightarrow> pw_rest s w' = []) \<and>
    (st = kInProgress \<longrightarrow> pw_rest s w' \<noteq> []) \<and>
    length evs' \<le> length evs \<and> (st = kInProgress \<longrightarrow> evs' = [] \<or> length evs' < length evs) \<and>
    pw_message w' = pw_message w \<and> pw_value w' = pw_value w"
  using assms
proof (induction rule: pw_loop_runs)
  case (wait w evs out st sw evs' out')
  have wf: "sw_wf (pw_writer w)" using wait.prems by (simp add: pw_wf_def)
  note post = sw_write_post [OF wait.hyps(1) wf]
  have "pw_state w \<noteq> kFinished"
    using wait sw_write_stop [OF wf, of evs out] by (auto simp: pw_wf_def)
  with wait post show ?case by (auto simp: pw_wf_def pw_rest_def)
next
  case (finish w evs out sw evs1 out1 ok evs2)
  note part = pw_part_written [OF finish.hyps(1) finish.prems]
  from part finish.hyps sys_fstat_length [of evs1] show ?case by (auto simp: pw_rest_def pw_pending_def)
next
  case (refuse w evs out sw evs1 out1 w2)
  note part = pw_part_written [OF refuse.hyps(1) refuse.prems]
  from pw_transition_step [OF part(1,2)] refuse.hyps show ?case by auto
next
  case (turn w evs out sw evs1 out1 w2 st w' evs' out')
  note part = pw_part_written [OF turn.hyps(1) turn.prems]
  obtain w3 where "pw_transition ser (w\<lparr>pw_writer := sw\<rparr>) = (True, w3)" "pw_wf ser s w3"
      "pw_rest s w3 = pw_rest s (w\<lparr>pw_writer := sw\<rparr>)" "pw_message w3 = pw_message w" "pw_value w3 = pw_value w"
    by (rule pw_transition_step [OF part(1,2)]) (use turn.hyps(2) in auto)
  with turn.hyps(3) turn.IH part show ?case by auto
qed

lemma pw_Write_post:
  assumes "pw_Write ser w evs out = (st, w', evs', out')" and "pw_wf ser s w"
  shows "pw_wf ser s w' \<and> st \<noteq> kAbort \<and> out' @ pw_rest s w' = out @ pw_rest s w \<and>
    (\<exists>xs. out' = out @ xs) \<and> (st = kDone \<longrightarrow> pw_rest s w' = []) \<and>
    (st = kInProgress \<longrightarrow> pw_rest s w' \<noteq> []) \<and>
    length evs' \<le> length evs \<and> (st = kInProgress \<longrightarrow> evs' = [] \<or> length evs' < length evs) \<and>
    pw_message w' = pw_message w \<and> pw_value w' = pw_value w"
proof -
  obtain ok evs1 where fs: "sys_fstat evs = (ok, evs1)" by (cases "sys_fstat evs")
  have len: "length evs1 \<le> length evs" using sys_fstat_length [of evs] fs by simp
  show ?thesis
  proof (cases ok)
    case False
    with assms fs len show ?thesis by (auto simp: pw_Write_def)
  next
    case True
    with assms(1) fs have "pw_loop ser w evs1 out = (st, w', evs', out')" by (simp add: pw_Write_def)
    from pw_loop_post [OF this assms(2)] len show ?thesis by auto
  qed
qed

text \<open>Without any assumption on the message: no \<open>CHECK\<close> of the writer ever fails.\<close>

lemma pw_transition_sw_wf:
  "pw_transition ser w = (ok, w') \<Longrightarrow> sw_wf (pw_writer w) \<Longrightarrow> sw_wf (pw_writer w')"
  by (cases "pw_state w")
     (auto simp: pw_transition_def pw_transition_defs split: option.splits)

lemma pw_loop_no_abort:
  assumes "pw_loop ser w evs out = (st, w', evs', out')" and "sw_wf (pw_writer w)"
  shows "st \<noteq> kAbort \<and> sw_wf (pw_writer w') \<and> (\<exists>xs. out' = out @ xs)"
  using assms
proof (induction rule: pw_loop_runs)
  case (wait w evs out st sw evs' out')
  with sw_write_post [OF wait.hyps(1)] show ?case by auto
next
  case (finish w evs out sw evs1 out1 ok evs2)
  with sw_write_post [OF finish.hyps(1)] show ?case by auto
next
  case (refuse w evs out sw evs1 out1 w2)
  with sw_write_post [OF refuse.hyps(1)] pw_transition_sw_wf [OF refuse.hyps(3)] show ?case by auto
next
  case (turn w evs out sw evs1 out1 w2 st w' evs' out')
  with sw_write_post [OF turn.hyps(1)] pw_transition_sw_wf [OF turn.hyps(3)] show ?case by auto
qed

lemma pw_Write_no_abort:
  assumes "pw_Write ser w evs out = (st, w', evs', out')" and "sw_wf (pw_writer w)"
  shows "st \<noteq> kAbort \<and> sw_wf (pw_writer w') \<and> (\<exists>xs. out' = out @ xs)"
  using assms pw_loop_no_abort [of ser w _ out st w' evs' out']
  by (auto simp: pw_Write_def split: prod.splits bool.splits)

text \<open>
  C10: Whatever the kernel does, the bytes that a call of the packet writer hands to the socket are
  the next bytes of the packet, in order and without gaps or repetitions, wherever the previous
  call was interrupted: what is out plus what is left is the same before and after. The call
  reports completion only when nothing is left, and asks to be called again only when something is.
\<close>

theorem packet_write_resumes:
  assumes "pw_wf ser s w" and "pw_Write ser w evs out = (st, w', evs', out')"
  shows "out' @ pw_rest s w' = out @ pw_rest s w \<and> pw_wf ser s w' \<and> st \<noteq> kAbort \<and>
    (st = kDone \<longrightarrow> out' = out @ pw_rest s w) \<and> (st = kInProgress \<longrightarrow> pw_rest s w' \<noteq> [])"
  using pw_Write_post [OF assms(2,1)] by auto

theorem packet_write_resumes_witness:
  "[70, 0] @ pw_rest [9] \<lparr>pw_message = [9 :: byte], pw_value = [8], pw_state = kMessageLength,
        pw_writer = \<lparr>sw_data = [0, 0, 0, 1], sw_written = 1\<rparr>, pw_serialized = [9]\<rparr> =
     [70] @ pw_rest [9] \<lparr>pw_message = [9 :: byte], pw_value = [8], pw_state = kMessageLength,
        pw_writer = \<lparr>sw_data = [0, 0, 0, 1], sw_written = 0\<rparr>, pw_serialized = [9]\<rparr>"
proof -
  let ?w = "\<lparr>pw_message = [9 :: byte], pw_value = [8], pw_state = kMessageLength,
        pw_writer = \<lparr>sw_data = [0, 0, 0, 1], sw_written = 0\<rparr>, pw_serialized = [9]\<rparr>"
  let ?w' = "\<lparr>pw_message = [9 :: byte], pw_value = [8], pw_state = kMessageLength,
        pw_writer = \<lparr>sw_data = [0, 0, 0, 1], sw_written = 1\<rparr>, pw_serialized = [9]\<rparr>"
  have "pw_wf Some [9] ?w" by (simp add: pw_wf_def sw_wf_def)
  moreover have "pw_Write Some ?w [Wr_accept 1, Wr_err EAGAIN] [70] = (kInProgress, ?w', [], [70, 0])"
    by (simp add: pw_Write_def pw_loop.simps sw_write.simps)
  ultimately show ?thesis using packet_write_resumes by blast
qed

text \<open>A packet that starts from a fresh writer and completes is exactly the wire format.\<close>

lemma pw_Write_fresh_done:
  assumes "ser m = Some s" and "pw_Write ser (new_packet_writer m v) evs out = (kDone, w', evs', out')"
  shows "out' = out @ wire_packet s v"
  using pw_Write_post [OF assms(2) pw_wf_new [of ser m s v, OF assms(1)]] by auto

text \<open>A message that cannot be serialized is refused after the magic byte.\<close>

lemma pw_Write_unserializable:
  assumes "ser m = None"
  shows "pw_Write ser (new_packet_writer m v) [Wr_accept 1] out =
     (kFailed, new_packet_writer m v\<lparr>pw_writer := \<lparr>sw_data = [magic_byte], sw_written = 1\<rparr>\<rparr>, [],
      out @ [magic_byte])"
  using assms
  by (simp add: pw_Write_def pw_loop.simps sw_write.simps new_packet_writer_def
      new_string_writer_def pw_transition_def pw_TransitionFromMagic_def)

section \<open>What the reader takes off the wire\<close>

text \<open>
  \<open>pr_consumed\<close> is everything a reader has taken off the wire: the fields it has completed and
  the part of the current one. \<open>pr_wf\<close> says that the fields read so far fit each other.
\<close>

definition pr_consumed :: "packet_reader \<Rightarrow> bytes" where
  "pr_consumed r =
     (let buf = sr_buf (pr_reader r) in
      case pr_state r of
        kMagic \<Rightarrow> buf
      | kMessageLength \<Rightarrow> pr_magic r @ buf
      | kValueLength \<Rightarrow> pr_magic r @ pr_message_length r @ buf
      | kMessage \<Rightarrow> pr_magic r @ pr_message_length r @ pr_value_length r @ buf
      | kValue \<Rightarrow> pr_magic r @ pr_message_length r @ pr_value_length r @ pr_message r @ buf
      | kFinished \<Rightarrow> pr_magic r @ pr_message_length r @ pr_value_length r @ pr_message r @ buf)"

definition pr_wf :: "packet_reader \<Rightarrow> bool" where
  "pr_wf r \<longleftrightarrow>
     sr_wf (pr_reader r) \<and>
     (pr_state r > kMagic \<longrightarrow> pr_magic r = [magic_byte]) \<and>
     (pr_state r > kMessageLength \<longrightarrow> length (pr_message_length r) = 4) \<and>
     (pr_state r > kValueLength \<longrightarrow> length (pr_value_length r) = 4) \<and>
     (pr_state r > kMessage \<longrightarrow> length (pr_message r) = unat (unbe32 (pr_message_length r))) \<and>
     (pr_state r = kFinished \<longrightarrow> length (sr_buf (pr_reader r)) = sr_size (pr_reader r)) \<and>
     sr_size (pr_reader r) =
       (case pr_state r of
          kMagic \<Rightarrow> 1
        | kMessageLength \<Rightarrow> 4
        | kValueLength \<Rightarrow> 4
        | kMessage \<Rightarrow> unat (unbe32 (pr_message_length r))
        | kValue \<Rightarrow> unat (unbe32 (pr_value_length r))
        | kFinished \<Rightarrow> unat (unbe32 (pr_value_length r)))"

lemma pr_wf_new [simp]: "pr_wf new_packet_reader"
  by (simp add: pr_wf_def new_packet_reader_def state_order)

lemma new_packet_reader_sel [simp]:
  "pr_state new_packet_reader = kMagic" "pr_consumed new_packet_reader = []"
  by (simp_all add: new_packet_reader_def pr_consumed_def)

lemma pr_wf_reader:
  "pr_wf r \<Longrightarrow> sr_wf sr \<Longrightarrow> sr_size sr = sr_size (pr_reader r) \<Longrightarrow>
     pr_state r \<noteq> kFinished \<or> sr = pr_reader r \<Longrightarrow> pr_wf (r\<lparr>pr_reader := sr\<rparr>)"
  by (auto simp: pr_wf_def split: packet_state.splits)

lemma pr_consumed_reader:
  "pr_consumed (r\<lparr>pr_reader := sr\<rparr>) @ xs = pr_consumed r @ ys \<longleftrightarrow>
     sr_buf sr @ xs = sr_buf (pr_reader r) @ ys"
  by (cases "pr_state r") (simp_all add: pr_consumed_def Let_def)

lemma pr_consumed_reader_length:
  "length (pr_consumed (r\<lparr>pr_reader := sr\<rparr>)) + length (sr_buf (pr_reader r)) =
     length (pr_consumed r) + length (sr_buf sr)"
  by (cases "pr_state r") (simp_all add: pr_consumed_def Let_def)

lemma sr_result_full: "length (sr_buf r) = sr_size r \<Longrightarrow> sr_result r = sr_buf r"
  by (simp add: sr_result_def)

text \<open>One turn of the loop of \<open>Read\<close> after its string reader is done.\<close>

lemma pr_next:
  assumes "pr_wf r" and "length (sr_buf (pr_reader r)) = sr_size (pr_reader r)"
    and "pr_store r val = (r1, val1)" and "pr_transition parse r1 resp = (res, r2, resp2)"
    and "pr_state r = kFinished \<Longrightarrow> parse (pr_message r) = Some resp"
  shows "pr_consumed r2 = pr_consumed r \<and>
    (case res of
       None \<Rightarrow> pr_wf r2 \<and> (pr_state r2 = kFinished \<longrightarrow> parse (pr_message r2) = Some resp2)
     | Some st \<Rightarrow> st = kFailed \<or>
         st = kDone \<and> r2 = r \<and> pr_state r = kFinished \<and> val1 = Some (sr_buf (pr_reader r)) \<and>
         resp2 = resp)"
proof -
  note defs = pr_transition_def pr_transition_defs Let_def pr_consumed_def pr_wf_def state_order
  note store = assms(3) [unfolded pr_store_def sr_result_full [OF assms(2)] Let_def]
  show ?thesis
  proof (cases "pr_state r")
    case kMagic
    then show ?thesis using assms(1,2,4,5) store by (auto simp: defs split: if_splits)
  next
    case kMessageLength
    then show ?thesis using assms(1,2,4,5) store by (auto simp: defs split: if_splits)
  next
    case kValueLength
    then show ?thesis using assms(1,2,4,5) store by (auto simp: defs split: if_splits)
  next
    case kMessage
    then show ?thesis using assms(1,2,4,5) store by (auto simp: defs split: if_splits)
  next
    case kValue
    then show ?thesis using assms(1,2,4,5) store by (auto simp: defs split: if_splits option.splits)
  next
    case kFinished
    then show ?thesis using assms(1,2,4,5) store by (auto simp: defs split: if_splits)
  qed
qed

definition pr_complete ::
    "(bytes \<Rightarrow> 'm option) \<Rightarrow> packet_reader \<Rightarrow> 'm \<Rightarrow> bytes option \<Rightarrow> bool" where
  "pr_complete parse r resp val \<longleftrightarrow>
     pr_state r = kFinished \<and> parse (pr_message r) = Some resp \<and>
     val = Some (sr_buf (pr_reader r)) \<and> length (sr_buf (pr_reader r)) = sr_size (pr_reader r)"

lemma pr_part_read:
  assumes "sr_read (pr_reader r) evs = (kDone, sr, evs1)" and "pr_wf r"
  shows "pr_wf (r\<lparr>pr_reader := sr\<rparr>)"
    and "length (sr_buf (pr_reader (r\<lparr>pr_reader := sr\<rparr>))) = sr_size (pr_reader (r\<lparr>pr_reader := sr\<rparr>))"
    and "pr_consumed (r\<lparr>pr_reader := sr\<rparr>) @ rd_data evs1 = pr_consumed r @ rd_data evs"
    and "rd_size evs1 + length (pr_consumed (r\<lparr>pr_reader := sr\<rparr>)) \<le> rd_size evs + length (pr_consumed r)"
    and "length (pr_consumed r) \<le> length (pr_consumed (r\<lparr>pr_reader := sr\<rparr>))"
    and "rd_size evs1 \<le> rd_size evs"
proof -
  have wf: "sr_wf (pr_reader r)" using assms(2) by (simp add: pr_wf_def)
  note post = sr_read_post [OF assms(1) wf]
  have fin: "pr_state r = kFinished \<Longrightarrow> sr = pr_reader r"
    using assms sr_read_stop [of "pr_reader r" evs] by (auto simp: pr_wf_def)
  show "pr_wf (r\<lparr>pr_reader := sr\<rparr>)" using pr_wf_reader [OF assms(2)] post fin by auto
  show "length (sr_buf (pr_reader (r\<lparr>pr_reader := sr\<rparr>))) = sr_size (pr_reader (r\<lparr>pr_reader := sr\<rparr>))"
    using post by simp
  show "pr_consumed (r\<lparr>pr_reader := sr\<rparr>) @ rd_data evs1 = pr_consumed r @ rd_data evs"
    using post by (simp add: pr_consumed_reader)
  show "rd_size evs1 + length (pr_consumed (r\<lparr>pr_reader := sr\<rparr>)) \<le> rd_size evs + length (pr_consumed r)"
    "length (pr_consumed r) \<le> length (pr_consumed (r\<lparr>pr_reader := sr\<rparr>))" "rd_size evs1 \<le> rd_size evs"
    using post pr_consumed_reader_length [of sr r] by auto
qed

lemma pr_Read_post:
  assumes "pr_Read parse r evs resp val = (st, r', evs', resp', val')" and "pr_wf r"
    and "pr_state r = kFinished \<Longrightarrow> parse (pr_message r) = Some resp"
  shows "st \<noteq> kAbort \<and> pr_consumed r' @ rd_data evs' = pr_consumed r @ rd_data evs \<and>
    rd_size evs' + length (pr_consumed r') \<le> rd_size evs + length (pr_consumed r) \<and>
    length (pr_consumed r) \<le> length (pr_consumed r') \<and>
    (st \<noteq> kFailed \<longrightarrow> pr_wf r') \<and>
    (st = kDone \<longrightarrow> pr_complete parse r' resp' val') \<and>
    (st = kInProgress \<longrightarrow> pr_state r' \<noteq> kFinished \<and> (evs' = [] \<or> rd_size evs' < rd_size evs) \<and>
       length (sr_buf (pr_reader r')) < sr_size (pr_reader r'))"
  using assms
proof (induction rule: pr_Read_runs)
  case (wait r evs resp val st sr evs')
  have wf: "sr_wf (pr_reader r)" using wait.prems(1) by (simp add: pr_wf_def)
  note post = sr_read_post [OF wait.hyps(1) wf]
  have fin: "pr_state r \<noteq> kFinished"
    using wait.hyps wait.prems(1) sr_read_stop [of "pr_reader r" evs] by (auto simp: pr_wf_def)
  have "pr_wf (r\<lparr>pr_reader := sr\<rparr>)" using pr_wf_reader [OF wait.prems(1)] post fin by auto
  moreover have "length (sr_buf sr) < sr_size sr" using post wait.hyps(2) by (auto simp: sr_wf_def)
  ultimately show ?case using wait.hyps(2) post fin pr_consumed_reader_length [of sr r]
    by (auto simp: pr_consumed_reader)
next
  case (finish r evs resp val sr evs1 r1 val1 st r2 resp2)
  note full = pr_part_read [OF finish.hyps(1) finish.prems(1)]
  note turn = pr_next [OF full(1,2) finish.hyps(2,3)]
  show ?case using turn full finish.prems(2) by (auto simp: pr_complete_def)
next
  case (turn r evs resp val sr evs1 r1 val1 r2 resp2 st r' evs' resp' val')
  note full = pr_part_read [OF turn.hyps(1) turn.prems(1)]
  have "pr_state (r\<lparr>pr_reader := sr\<rparr>) = kFinished \<Longrightarrow> parse (pr_message (r\<lparr>pr_reader := sr\<rparr>)) = Some resp"
    using turn.prems(2) by simp
  note nxt = pr_next [OF full(1,2) turn.hyps(2,3) this]
  show ?case using turn.IH nxt full by auto
qed

lemma wire_packet_inject:
  assumes "wire_packet m v @ xs = wire_packet m' v' @ ys"
    and "length m < 2 ^ 32" "length v < 2 ^ 32" "length m' < 2 ^ 32" "length v' < 2 ^ 32"
  shows "m = m' \<and> v = v' \<and> xs = ys"
proof -
  from assms(1) have eqs: "be32 (of_nat (length m)) = be32 (of_nat (length m'))"
      "be32 (of_nat (length v)) = be32 (of_nat (length v'))" "m @ v @ xs = m' @ v' @ ys"
    by (simp_all add: wire_packet_def)
  have "length m = length m'"
    using be32_of_nat_inject [OF assms(2,4)] eqs(1) by blast
  moreover have "length v = length v'"
    using be32_of_nat_inject [OF assms(3,5)] eqs(2) by blast
  ultimately show ?thesis using eqs(3) by simp
qed

lemma pr_complete_wire:
  assumes "pr_wf r" and "pr_complete parse r resp val"
  obtains v where "val = Some v" and "pr_consumed r = wire_packet (pr_message r) v"
    and "parse (pr_message r) = Some resp" and "length (pr_message r) < 2 ^ 32" and "length v < 2 ^ 32"
proof (rule that)
  let ?v = "sr_buf (pr_reader r)"
  from assms(2) have st: "pr_state r = kFinished" by (simp add: pr_complete_def)
  from assms(1) [unfolded pr_wf_def st state_order]
  have len: "length ?v = unat (unbe32 (pr_value_length r))"
      "length (pr_message r) = unat (unbe32 (pr_message_length r))"
      "length (pr_message_length r) = 4" "length (pr_value_length r) = 4" "pr_magic r = [magic_byte]"
    by simp_all
  show "val = Some ?v" and "parse (pr_message r) = Some resp"
    using assms(2) by (simp_all add: pr_complete_def)
  show "pr_consumed r = wire_packet (pr_message r) ?v"
    using st len by (simp add: pr_consumed_def wire_packet_def be32_unbe32)
  show "length (pr_message r) < 2 ^ 32" and "length ?v < 2 ^ 32"
    unfolding len(1,2) by (rule uint32_bound)+
qed

lemma pr_Read_fresh_done:
  assumes "pr_Read parse new_packet_reader evs resp val = (kDone, r', evs', resp', val')"
  obtains m v where "rd_data evs = wire_packet m v @ rd_data evs'" and "parse m = Some resp'"
    and "val' = Some v" and "length m < 2 ^ 32" and "length v < 2 ^ 32"
proof -
  note post = pr_Read_post [OF assms pr_wf_new, simplified]
  from post have "pr_wf r'" and "pr_complete parse r' resp' val'" by auto
  then obtain v where v: "val' = Some v" "pr_consumed r' = wire_packet (pr_message r') v"
      "parse (pr_message r') = Some resp'" "length (pr_message r') < 2 ^ 32" "length v < 2 ^ 32"
    by (rule pr_complete_wire)
  moreover have "rd_data evs = pr_consumed r' @ rd_data evs'" using post by auto
  ultimately show ?thesis using that by auto
qed

text \<open>
  A reader that is on its way through the packet of \<open>m\<close> and \<open>v\<close> meets no mismatch: the magic byte
  is right, and the message bytes it parses are those of \<open>m\<close>.
\<close>

lemma wire_packet_prefix_magic:
  "buf @ xs = wire_packet m v @ rest \<Longrightarrow> length buf = 1 \<Longrightarrow> buf = [magic_byte]"
  by (cases buf) (auto simp: wire_packet_def)

lemma wire_packet_split:
  assumes "[magic_byte] @ ml @ vl @ body = wire_packet m v @ rest" "length ml = 4" "length vl = 4"
    "length m < 2 ^ 32" "length v < 2 ^ 32"
  shows "unat (unbe32 ml) = length m \<and> unat (unbe32 vl) = length v \<and> body = m @ v @ rest"
  using assms by (simp add: wire_packet_def append_eq_append_conv unat_of_length32)

lemma pr_turn_expected:
  assumes "pr_wf r" and "length (sr_buf (pr_reader r)) = sr_size (pr_reader r)"
    and "pr_store r val = (r1, val1)" and "pr_transition parse r1 resp = (Some kFailed, r2, resp2)"
    and eq: "pr_consumed r @ xs = wire_packet m v @ rest" and parse: "parse m = Some M"
    and "length m < 2 ^ 32" "length v < 2 ^ 32"
  shows False
proof -
  note store = assms(3) [unfolded pr_store_def sr_result_full [OF assms(2)] Let_def]
  note defs = pr_transition_def pr_transition_defs pr_wf_def state_order
  show False
  proof (cases "pr_state r")
    case kMagic
    then have "sr_buf (pr_reader r) = [magic_byte]"
      using eq assms(1,2) by (intro wire_packet_prefix_magic) (auto simp: pr_consumed_def pr_wf_def)
    with kMagic assms(4) store show False by (auto simp: defs)
  next
    case kValue
    then have "[magic_byte] @ pr_message_length r @ pr_value_length r @
        (pr_message r @ sr_buf (pr_reader r) @ xs) = wire_packet m v @ rest"
      using eq assms(1) by (simp add: pr_consumed_def pr_wf_def state_order)
    from wire_packet_split [OF this _ _ assms(7,8)] have "pr_message r = m"
      using kValue assms(1) by (simp add: pr_wf_def state_order append_eq_append_conv)
    with kValue assms(4) store parse show False by (auto simp: defs)
  qed (use assms(1,2,4) store in \<open>auto simp: defs split: if_splits\<close>)
qed

definition pr_expects ::
    "(bytes \<Rightarrow> 'm option) \<Rightarrow> bytes \<Rightarrow> bytes \<Rightarrow> bytes \<Rightarrow> packet_reader \<Rightarrow> rd_event list \<Rightarrow> bool" where
  "pr_expects parse m v rest r evs \<longleftrightarrow>
     pr_wf r \<and> rd_benign evs \<and> pr_consumed r @ rd_data evs = wire_packet m v @ rest"

lemma pr_Read_expected:
  assumes "pr_Read parse r evs resp val = (st, r', evs', resp', val')"
    and "pr_expects parse m v rest r evs" and "parse m = Some M"
    and "length m < 2 ^ 32" "length v < 2 ^ 32"
    and "pr_state r = kFinished \<Longrightarrow> parse (pr_message r) = Some resp"
  shows "st \<noteq> kFailed \<and> rd_benign evs'"
  using assms
proof (induction rule: pr_Read_runs)
  case (wait r evs resp val st sr evs')
  with sr_read_benign show ?case by (simp add: pr_expects_def)
next
  case (finish r evs resp val sr evs1 r1 val1 st r2 resp2)
  note full = pr_part_read [OF finish.hyps(1)]
  have wf: "pr_wf r" and ben: "rd_benign evs1" and eq: "pr_consumed r @ rd_data evs = wire_packet m v @ rest"
    using finish.prems(1) sr_read_benign [OF finish.hyps(1)] by (simp_all add: pr_expects_def)
  note full = full [OF wf]
  have "st \<noteq> kFailed"
  proof
    assume "st = kFailed"
    with finish.hyps(3) have tr: "pr_transition parse r1 resp = (Some kFailed, r2, resp2)" by simp
    have "pr_consumed (r\<lparr>pr_reader := sr\<rparr>) @ rd_data evs1 = wire_packet m v @ rest" using full(3) eq by simp
    from pr_turn_expected [OF full(1,2) finish.hyps(2) tr this finish.prems(2-4)] show False .
  qed
  with ben show ?case by simp
next
  case (turn r evs resp val sr evs1 r1 val1 r2 resp2 st r' evs' resp' val')
  have wf: "pr_wf r" and ben: "rd_benign evs1" and eq: "pr_consumed r @ rd_data evs = wire_packet m v @ rest"
    using turn.prems(1) sr_read_benign [OF turn.hyps(1)] by (simp_all add: pr_expects_def)
  note full = pr_part_read [OF turn.hyps(1) wf]
  have "pr_state (r\<lparr>pr_reader := sr\<rparr>) = kFinished \<Longrightarrow> parse (pr_message (r\<lparr>pr_reader := sr\<rparr>)) = Some resp"
    using turn.prems(5) by simp
  note nxt = pr_next [OF full(1,2) turn.hyps(2,3) this]
  have "pr_expects parse m v rest r2 evs1" using nxt full(3) eq ben by (simp add: pr_expects_def)
  from turn.IH [OF this turn.prems(2-4)] nxt show ?case by simp
qed

text \<open>
  A reader that waits in the middle of the packet has not seen all of it.
\<close>

lemma pr_waiting_has_more:
  assumes "pr_wf r" and "pr_state r \<noteq> kFinished" and "length (sr_buf (pr_reader r)) < sr_size (pr_reader r)"
    and "pr_consumed r = wire_packet m v @ rest" and "length m < 2 ^ 32" "length v < 2 ^ 32"
  shows False
proof (cases "pr_state r")
  case kMessage
  then have "[magic_byte] @ pr_message_length r @ pr_value_length r @ sr_buf (pr_reader r) = wire_packet m v @ rest"
    using assms(1,4) by (simp add: pr_consumed_def pr_wf_def state_order)
  from wire_packet_split [OF this _ _ assms(5,6)] kMessage assms(1,3) show False
    by (simp add: pr_wf_def state_order)
next
  case kValue
  then have "[magic_byte] @ pr_message_length r @ pr_value_length r @
      (pr_message r @ sr_buf (pr_reader r)) = wire_packet m v @ rest"
    using assms(1,4) by (simp add: pr_consumed_def pr_wf_def state_order)
  from wire_packet_split [OF this _ _ assms(5,6)] kValue assms(1,3) show False
    by (auto simp: pr_wf_def state_order append_eq_append_conv)
next
  case kFinished
  with assms(2) show False by simp
qed (use assms arg_cong [OF assms(4), of length] in
      \<open>auto simp: pr_consumed_def pr_wf_def state_order wire_packet_def\<close>)

text \<open>
  The caller's loop: \<open>Read\<close> is called again as long as it asks to be, at most \<open>n\<close> times.
\<close>

fun pr_poll ::
    "nat \<Rightarrow> (bytes \<Rightarrow> 'm option) \<Rightarrow> packet_reader \<Rightarrow> rd_event list \<Rightarrow> 'm \<Rightarrow> bytes option
     \<Rightarrow> nb_string_status \<times> packet_reader \<times> rd_event list \<times> 'm \<times> bytes option" where
  "pr_poll 0 parse r evs resp val = (kInProgress, r, evs, resp, val)"
| "pr_poll (Suc n) parse r evs resp val =
     (case pr_Read parse r evs resp val of
        (st, r', evs', resp', val') \<Rightarrow>
          if st = kInProgress then pr_poll n parse r' evs' resp' val'
          else (st, r', evs', resp', val'))"

lemma pr_poll_expected:
  assumes "pr_expects parse m v rest r evs" and "parse m = Some M"
    and "length m < 2 ^ 32" "length v < 2 ^ 32" and "pr_state r \<noteq> kFinished" and "rd_size evs < n"
  shows "\<exists>r' evs'. pr_poll n parse r evs resp val = (kDone, r', evs', M, Some v) \<and> rd_data evs' = rest"
  using assms
proof (induction n arbitrary: r evs resp val)
  case 0
  then show ?case by simp
next
  case (Suc n)
  obtain st r' evs' resp' val' where rd: "pr_Read parse r evs resp val = (st, r', evs', resp', val')"
    by (metis prod_cases5)
  from Suc.prems(1) have wf: "pr_wf r" and eq: "pr_consumed r @ rd_data evs = wire_packet m v @ rest"
    by (simp_all add: pr_expects_def)
  have nf: "pr_state r = kFinished \<Longrightarrow> parse (pr_message r) = Some resp" using Suc.prems(5) by simp
  note post = pr_Read_post [OF rd wf nf]
  have ok: "st \<noteq> kFailed" "rd_benign evs'"
    using pr_Read_expected [OF rd Suc.prems(1-4) nf] by auto
  have eq': "pr_consumed r' @ rd_data evs' = wire_packet m v @ rest" using post eq by simp
  show ?case
  proof (cases "st = kInProgress")
    case True
    with post ok(1) have wf': "pr_wf r'" and st': "pr_state r' \<noteq> kFinished"
      and short: "length (sr_buf (pr_reader r')) < sr_size (pr_reader r')" by auto
    have "evs' \<noteq> []"
      using pr_waiting_has_more [OF wf' st' short _ Suc.prems(3,4), of rest] eq' by auto
    then have "rd_size evs' < n" using post True Suc.prems(6) by auto
    moreover have "pr_expects parse m v rest r' evs'" using wf' ok eq' by (simp add: pr_expects_def)
    ultimately show ?thesis using Suc.IH [OF _ Suc.prems(2-4) st'] rd True by simp
  next
    case False
    with post ok have st: "st = kDone" and wf': "pr_wf r'" and comp: "pr_complete parse r' resp' val'"
      by (cases st; auto)+
    from pr_complete_wire [OF wf' comp] obtain v' where v': "val' = Some v'"
        "pr_consumed r' = wire_packet (pr_message r') v'" "parse (pr_message r') = Some resp'"
        "length (pr_message r') < 2 ^ 32" "length v' < 2 ^ 32" .
    with eq' have "wire_packet (pr_message r') v' @ rd_data evs' = wire_packet m v @ rest" by simp
    from wire_packet_inject [OF this v'(4,5) Suc.prems(3,4)] v' rd st Suc.prems(2) show ?thesis by simp
  qed
qed

text \<open>
  C9: A packet that arrives is read back exactly, however the network splits it. If the bytes on
  the wire are a packet followed by anything, and the kernel delivers them in any pieces, with any
  number of interrupted and would-block calls between them, then polling a fresh reader ends with
  the parsed message and the value, and leaves the stream at the first byte after the packet.
  The number of calls needed is at most the size of the script plus one.
\<close>

theorem packet_read_roundtrip:
  assumes "rd_benign evs" and "rd_data evs = wire_packet m v @ rest" and "parse m = Some M"
    and "length m < 2 ^ 32" "length v < 2 ^ 32"
  shows "\<exists>r' evs'. pr_poll (Suc (rd_size evs)) parse new_packet_reader evs resp val =
           (kDone, r', evs', M, Some v) \<and> rd_data evs' = rest"
  using assms by (intro pr_poll_expected) (auto simp: pr_expects_def)

theorem packet_read_roundtrip_witness:
  "\<exists>r' evs'. pr_poll (Suc (rd_size [Rd_bytes [70, 0, 0], Rd_err EINTR, Rd_bytes [0, 1, 0, 0, 0], Rd_err EAGAIN,
        Rd_bytes [2, 9, 8, 7, 70]])) Some new_packet_reader
      [Rd_bytes [70, 0, 0], Rd_err EINTR, Rd_bytes [0, 1, 0, 0, 0], Rd_err EAGAIN,
        Rd_bytes [2, 9, 8, 7, 70]] [] None = (kDone, r', evs', [9], Some [8, 7]) \<and> rd_data evs' = [70]"
  by (rule packet_read_roundtrip [where m = "[9]"])
     (simp_all add: wire_packet_def magic_byte_def be32_def)

section \<open>Values that are too long\<close>

lemma wire_packet_modulo:
  "wire_packet m v = wire_packet m (take (length v mod 2 ^ 32) v) @ drop (length v mod 2 ^ 32) v"
proof -
  have "(of_nat (length v mod 2 ^ 32) :: uint32) = of_nat (length v)"
    by (simp add: word_of_nat_eq_iff take_bit_eq_mod)
  moreover have "length (take (length v mod 2 ^ 32) v) = length v mod 2 ^ 32"
    by (simp add: mod_less_eq_dividend)
  ultimately show ?thesis by (simp add: wire_packet_def)
qed

lemma sw_write_whole:
  "length bs < 2 ^ 31 \<Longrightarrow> sw_write (new_string_writer bs) (Wr_accept (length bs + k) # evs) out =
     (kDone, \<lparr>sw_data = bs, sw_written = length bs\<rparr>, if bs = [] then Wr_accept (length bs + k) # evs else evs, out @ bs)"
  by (cases bs) (auto simp: sw_write.simps new_string_writer_def)

text \<open>More than four gigabytes take three calls.\<close>

lemma sw_write_large:
  assumes "length bs = 2 ^ 32 + 1" and "a = Wr_accept (2 ^ 32)"
  shows "sw_write (new_string_writer bs) [a, a, a] out = (kDone, \<lparr>sw_data = bs, sw_written = length bs\<rparr>, [], out @ bs)"
proof -
  let ?n = "2147483647 :: nat"
  have "bs = take (?n + (?n + 3)) bs" using assms(1) by simp
  then have "take ?n bs @ take ?n (drop ?n bs) @ take 3 (drop 4294967294 bs) = bs"
    by (simp only: take_add) simp
  then show ?thesis using assms by (simp add: sw_write.simps new_string_writer_def io_limit_def INT_MAX_def)
qed

text \<open>
  C11: The length of a value is sent modulo \<open>2 ^ 32\<close>, and neither side notices. On a plain connection, when
  the kernel has taken all of it, the drive, or any reader of the protocol, sees of a value of
  \<open>2 ^ 32\<close> bytes or more only the first \<open>length mod 2 ^ 32\<close>, and takes the rest of it for the packets
  that follow. Below this bound a packet that a fresh writer has written is read back exactly, however
  both kernels split it. Over SSL the calls refuse a remaining length from \<open>2 ^ 31\<close> to \<open>2 ^ 32\<close>, so
  such a packet is not written to its end, and not read without an error in the script.
\<close>

theorem packet_exchange_modulo:
  assumes "pw_Write ser (new_packet_writer msg v) wevs [] = (kDone, w', wevs', out)"
    and "ser msg = Some m" and "parse m = Some M" and "length m < 2 ^ 32"
    and "rd_benign evs" and "rd_data evs = out @ rest"
  shows "\<exists>r' evs'. pr_poll (Suc (rd_size evs)) parse new_packet_reader evs resp val =
      (kDone, r', evs', M, Some (if length v < 2 ^ 32 then v else take (length v mod 2 ^ 32) v)) \<and>
    rd_data evs' = (if length v < 2 ^ 32 then [] else drop (length v mod 2 ^ 32) v) @ rest"
proof -
  let ?k = "length v mod 2 ^ 32"
  have "rd_data evs = wire_packet m (take ?k v) @ drop ?k v @ rest"
    using assms(6) pw_Write_fresh_done [OF assms(2,1)] wire_packet_modulo [of m v] by simp
  moreover have "length (take ?k v) < 2 ^ 32" by (simp add: min_less_iff_disj)
  ultimately have "\<exists>r' evs'. pr_poll (Suc (rd_size evs)) parse new_packet_reader evs resp val =
      (kDone, r', evs', M, Some (take ?k v)) \<and> rd_data evs' = drop ?k v @ rest"
    using assms(3-5) by (intro pr_poll_expected) (auto simp: pr_expects_def)
  then show ?thesis by (cases "length v < 2 ^ 32") simp_all
qed

text \<open>Four gigabytes and one byte: the drive stores a value of one byte.\<close>

theorem packet_exchange_modulo_witness:
  "\<exists>v r' evs'. length v = 2 ^ 32 + 1 \<and>
     pr_poll (Suc (rd_size [Rd_bytes (wire_packet [9] v)])) Some new_packet_reader [Rd_bytes (wire_packet [9] v)] [] None =
       (kDone, r', evs', [9], Some [7]) \<and> length (rd_data evs') = 2 ^ 32"
proof -
  obtain u :: bytes where u: "length u = 2 ^ 32" using Ex_list_of_length by blast
  define v where "v = 7 # u"
  have len: "length v = 2 ^ 32 + 1" by (simp add: v_def u)
  define piece where "piece = Wr_accept (2 ^ 32)"
  have v: "sw_write (new_string_writer v) [piece, piece, piece] out =
      (kDone, \<lparr>sw_data = v, sw_written = length v\<rparr>, [], out @ v)" for out
    by (rule sw_write_large [OF len piece_def])
  have f: "sys_fstat [piece, piece, piece] = (True, [piece, piece, piece])" by (simp add: piece_def)
  let ?evs = "[Wr_accept 1, Wr_accept 4, Wr_accept 4, Wr_accept 1, piece, piece, piece]"
  obtain w' where w: "pw_Write Some (new_packet_writer [9] v) ?evs [] = (kDone, w', [], wire_packet [9] v)"
    using sw_write_whole [of "[magic_byte]" 0] sw_write_whole [of "be32 x" 0 for x] sw_write_whole [of "[9]" 0] v f
    by (simp add: pw_Write_def new_packet_writer_def pw_loop.simps pw_transition_def pw_transition_defs wire_packet_def
        sw_write.simps [of "\<lparr>sw_data = v, sw_written = length v\<rparr>"])
  have "length v mod 2 ^ 32 = 1" "take 1 v = [7]" by (simp_all add: len) (simp add: v_def)
  moreover have "rd_benign [Rd_bytes (wire_packet [9] v)]" by (simp add: wire_packet_def)
  ultimately show ?thesis
    using packet_exchange_modulo [OF w, of "[9]" Some "[9]" "[Rd_bytes (wire_packet [9] v)]" "[]" "[]" None] len
    by (intro exI [of _ v]) (auto simp del: pr_poll.simps)
qed


end
