(* ===== verification/Status_Codes.thy ===== *)
theory Status_Codes
  imports Kinetic_Prelude
begin

text \<open>
  The error values of the client: the \<open>StatusCode\<close> enumeration, its conversion from and to the
  protocol's status codes (\<open>status_code.cc\<close>), the \<open>KineticStatus\<close> object every callback and
  every blocking call hands out (\<open>kinetic_status.h\<close>), the message table of the receiver
  (\<open>GetKineticStatus\<close> in \<open>nonblocking_packet_receiver.cc\<close>) and the two-valued \<open>Status\<close> of the
  connection factory (\<open>status.h\<close>).
  The protocol's own enumeration is generated code. Only the values that the client names are
  constructors of \<open>proto_status\<close>; every other value is \<open>PROTO_UNLISTED\<close> of its number.
\<close>

section \<open>Status codes\<close>

datatype status_code =
    OK
  | CLIENT_IO_ERROR
  | CLIENT_SHUTDOWN
  | CLIENT_INTERNAL_ERROR
  | CLIENT_RESPONSE_HMAC_VERIFICATION_ERROR
  | REMOTE_HMAC_ERROR
  | REMOTE_NOT_AUTHORIZED
  | REMOTE_CLUSTER_VERSION_MISMATCH
  | REMOTE_INVALID_REQUEST
  | REMOTE_INTERNAL_ERROR
  | REMOTE_HEADER_REQUIRED
  | REMOTE_NOT_FOUND
  | REMOTE_VERSION_MISMATCH
  | REMOTE_SERVICE_BUSY
  | REMOTE_EXPIRED
  | REMOTE_DATA_ERROR
  | REMOTE_PERM_DATA_ERROR
  | REMOTE_REMOTE_CONNECTION_ERROR
  | REMOTE_NO_SPACE
  | REMOTE_NO_SUCH_HMAC_ALGORITHM
  | REMOTE_OTHER_ERROR
  | PROTOCOL_ERROR_RESPONSE_NO_ACKSEQUENCE
  | REMOTE_NESTED_OPERATION_ERRORS

datatype proto_status =
    PROTO_INVALID_STATUS_CODE
  | PROTO_HMAC_FAILURE
  | PROTO_NOT_AUTHORIZED
  | PROTO_NOT_FOUND
  | PROTO_INTERNAL_ERROR
  | PROTO_HEADER_REQUIRED
  | PROTO_SUCCESS
  | PROTO_VERSION_FAILURE
  | PROTO_VERSION_MISMATCH
  | PROTO_SERVICE_BUSY
  | PROTO_EXPIRED
  | PROTO_DATA_ERROR
  | PROTO_PERM_DATA_ERROR
  | PROTO_REMOTE_CONNECTION_ERROR
  | PROTO_NO_SPACE
  | PROTO_NO_SUCH_HMAC_ALGORITHM
  | PROTO_INVALID_REQUEST
  | PROTO_NESTED_OPERATION_ERRORS
  | PROTO_UNLISTED int

fun ConvertFromProtoStatus :: "proto_status \<Rightarrow> status_code" where
  "ConvertFromProtoStatus PROTO_SUCCESS = OK"
| "ConvertFromProtoStatus PROTO_HMAC_FAILURE = REMOTE_HMAC_ERROR"
| "ConvertFromProtoStatus PROTO_NOT_AUTHORIZED = REMOTE_NOT_AUTHORIZED"
| "ConvertFromProtoStatus PROTO_VERSION_FAILURE = REMOTE_CLUSTER_VERSION_MISMATCH"
| "ConvertFromProtoStatus PROTO_INTERNAL_ERROR = REMOTE_INTERNAL_ERROR"
| "ConvertFromProtoStatus PROTO_HEADER_REQUIRED = REMOTE_HEADER_REQUIRED"
| "ConvertFromProtoStatus PROTO_NOT_FOUND = REMOTE_NOT_FOUND"
| "ConvertFromProtoStatus PROTO_VERSION_MISMATCH = REMOTE_VERSION_MISMATCH"
| "ConvertFromProtoStatus PROTO_SERVICE_BUSY = REMOTE_SERVICE_BUSY"
| "ConvertFromProtoStatus PROTO_EXPIRED = REMOTE_EXPIRED"
| "ConvertFromProtoStatus PROTO_DATA_ERROR = REMOTE_DATA_ERROR"
| "ConvertFromProtoStatus PROTO_PERM_DATA_ERROR = REMOTE_PERM_DATA_ERROR"
| "ConvertFromProtoStatus PROTO_REMOTE_CONNECTION_ERROR = REMOTE_REMOTE_CONNECTION_ERROR"
| "ConvertFromProtoStatus PROTO_NO_SPACE = REMOTE_NO_SPACE"
| "ConvertFromProtoStatus PROTO_NO_SUCH_HMAC_ALGORITHM = REMOTE_NO_SUCH_HMAC_ALGORITHM"
| "ConvertFromProtoStatus PROTO_INVALID_REQUEST = REMOTE_INVALID_REQUEST"
| "ConvertFromProtoStatus PROTO_INVALID_STATUS_CODE = CLIENT_INTERNAL_ERROR"
| "ConvertFromProtoStatus PROTO_NESTED_OPERATION_ERRORS = REMOTE_NESTED_OPERATION_ERRORS"
| "ConvertFromProtoStatus (PROTO_UNLISTED _) = REMOTE_OTHER_ERROR"

fun ConvertToProtoStatus :: "status_code \<Rightarrow> proto_status" where
  "ConvertToProtoStatus OK = PROTO_SUCCESS"
| "ConvertToProtoStatus REMOTE_HMAC_ERROR = PROTO_HMAC_FAILURE"
| "ConvertToProtoStatus REMOTE_NOT_AUTHORIZED = PROTO_NOT_AUTHORIZED"
| "ConvertToProtoStatus REMOTE_CLUSTER_VERSION_MISMATCH = PROTO_VERSION_FAILURE"
| "ConvertToProtoStatus REMOTE_INTERNAL_ERROR = PROTO_INTERNAL_ERROR"
| "ConvertToProtoStatus REMOTE_HEADER_REQUIRED = PROTO_HEADER_REQUIRED"
| "ConvertToProtoStatus REMOTE_NOT_FOUND = PROTO_NOT_FOUND"
| "ConvertToProtoStatus REMOTE_VERSION_MISMATCH = PROTO_VERSION_MISMATCH"
| "ConvertToProtoStatus REMOTE_SERVICE_BUSY = PROTO_SERVICE_BUSY"
| "ConvertToProtoStatus REMOTE_EXPIRED = PROTO_EXPIRED"
| "ConvertToProtoStatus REMOTE_DATA_ERROR = PROTO_DATA_ERROR"
| "ConvertToProtoStatus REMOTE_PERM_DATA_ERROR = PROTO_PERM_DATA_ERROR"
| "ConvertToProtoStatus REMOTE_REMOTE_CONNECTION_ERROR = PROTO_REMOTE_CONNECTION_ERROR"
| "ConvertToProtoStatus REMOTE_NO_SPACE = PROTO_NO_SPACE"
| "ConvertToProtoStatus REMOTE_NO_SUCH_HMAC_ALGORITHM = PROTO_NO_SUCH_HMAC_ALGORITHM"
| "ConvertToProtoStatus REMOTE_INVALID_REQUEST = PROTO_INVALID_REQUEST"
| "ConvertToProtoStatus REMOTE_NESTED_OPERATION_ERRORS = PROTO_NESTED_OPERATION_ERRORS"
| "ConvertToProtoStatus _ = PROTO_INTERNAL_ERROR"

section \<open>KineticStatus and Status\<close>

record kinetic_status =
  ks_code :: status_code
  ks_message :: string
  ks_expected_cluster_version :: int64

definition KineticStatus :: "status_code \<Rightarrow> string \<Rightarrow> int64 \<Rightarrow> kinetic_status" where
  "KineticStatus code msg expected =
     \<lparr>ks_code = code, ks_message = msg, ks_expected_cluster_version = expected\<rparr>"

abbreviation KineticStatus0 :: "status_code \<Rightarrow> string \<Rightarrow> kinetic_status" where
  "KineticStatus0 code msg \<equiv> KineticStatus code msg 0"

definition ks_ok :: "kinetic_status \<Rightarrow> bool" where
  "ks_ok s \<longleftrightarrow> ks_code s = OK"

fun GetKineticStatus :: "status_code \<Rightarrow> int64 \<Rightarrow> kinetic_status" where
  "GetKineticStatus CLIENT_IO_ERROR _ = KineticStatus0 CLIENT_IO_ERROR ''IO error''"
| "GetKineticStatus CLIENT_SHUTDOWN _ = KineticStatus0 CLIENT_SHUTDOWN ''Client shutdown''"
| "GetKineticStatus PROTOCOL_ERROR_RESPONSE_NO_ACKSEQUENCE _ =
     KineticStatus0 PROTOCOL_ERROR_RESPONSE_NO_ACKSEQUENCE ''Response did not contain ack sequence''"
| "GetKineticStatus CLIENT_RESPONSE_HMAC_VERIFICATION_ERROR _ =
     KineticStatus0 CLIENT_RESPONSE_HMAC_VERIFICATION_ERROR ''Response HMAC verification failed''"
| "GetKineticStatus REMOTE_HMAC_ERROR _ =
     KineticStatus0 REMOTE_HMAC_ERROR ''Remote HMAC verification failed''"
| "GetKineticStatus REMOTE_NOT_AUTHORIZED _ = KineticStatus0 REMOTE_NOT_AUTHORIZED ''Not authorized''"
| "GetKineticStatus REMOTE_CLUSTER_VERSION_MISMATCH expected =
     KineticStatus REMOTE_CLUSTER_VERSION_MISMATCH ''Cluster version mismatch'' expected"
| "GetKineticStatus REMOTE_INTERNAL_ERROR _ =
     KineticStatus0 REMOTE_INTERNAL_ERROR ''Remote internal error''"
| "GetKineticStatus REMOTE_HEADER_REQUIRED _ =
     KineticStatus0 REMOTE_HEADER_REQUIRED ''Request requires a header to be set''"
| "GetKineticStatus REMOTE_NOT_FOUND _ = KineticStatus0 REMOTE_NOT_FOUND ''Key not found''"
| "GetKineticStatus REMOTE_VERSION_MISMATCH _ =
     KineticStatus0 REMOTE_VERSION_MISMATCH ''Version mismatch''"
| "GetKineticStatus REMOTE_SERVICE_BUSY _ =
     KineticStatus0 REMOTE_SERVICE_BUSY ''Remote service is busy''"
| "GetKineticStatus REMOTE_EXPIRED _ = KineticStatus0 REMOTE_EXPIRED ''Remote timeout''"
| "GetKineticStatus REMOTE_DATA_ERROR _ =
     KineticStatus0 REMOTE_DATA_ERROR ''Remote transient data error''"
| "GetKineticStatus REMOTE_PERM_DATA_ERROR _ =
     KineticStatus0 REMOTE_PERM_DATA_ERROR ''Remote permanent data error''"
| "GetKineticStatus REMOTE_REMOTE_CONNECTION_ERROR _ =
     KineticStatus0 REMOTE_REMOTE_CONNECTION_ERROR ''Remote connection to peer failed''"
| "GetKineticStatus REMOTE_NO_SPACE _ = KineticStatus0 REMOTE_NO_SPACE ''No space left''"
| "GetKineticStatus REMOTE_NO_SUCH_HMAC_ALGORITHM _ =
     KineticStatus0 REMOTE_NO_SUCH_HMAC_ALGORITHM ''Unknown HMAC algorithm''"
| "GetKineticStatus REMOTE_NESTED_OPERATION_ERRORS _ =
     KineticStatus0 REMOTE_NESTED_OPERATION_ERRORS ''Operation completed but has nested errors''"
| "GetKineticStatus code _ = KineticStatus0 code ''Internal Error''"

text \<open>The factory's \<open>Status\<close> is its error message, empty for success.\<close>

record fstatus =
  st_error_message :: string

definition Status_makeOk :: fstatus where
  "Status_makeOk = \<lparr>st_error_message = ''''\<rparr>"

definition Status_makeInternalError :: "string \<Rightarrow> fstatus" where
  "Status_makeInternalError msg = \<lparr>st_error_message = msg\<rparr>"

definition Status_ok :: "fstatus \<Rightarrow> bool" where
  "Status_ok s \<longleftrightarrow> st_error_message s = ''''"

definition Status_notOk :: "fstatus \<Rightarrow> bool" where
  "Status_notOk s \<longleftrightarrow> \<not> Status_ok s"

section \<open>Lemmas\<close>

lemma KineticStatus_sel [simp]:
  "ks_code (KineticStatus c m v) = c"
  "ks_message (KineticStatus c m v) = m"
  "ks_expected_cluster_version (KineticStatus c m v) = v"
  by (simp_all add: KineticStatus_def)

lemma GetKineticStatus_code [simp]: "ks_code (GetKineticStatus c v) = c"
  by (cases c) simp_all

lemma GetKineticStatus_ok [simp]: "ks_ok (GetKineticStatus c v) \<longleftrightarrow> c = OK"
  by (simp add: ks_ok_def)

lemma ConvertFromProtoStatus_OK [simp]: "ConvertFromProtoStatus p = OK \<longleftrightarrow> p = PROTO_SUCCESS"
  by (cases p) simp_all

text \<open>
  The two conversion tables are inverse wherever both can say the same thing. A protocol
  status survives the trip through the client's codes exactly when it is one of the listed
  values other than INVALID_STATUS_CODE, and a client code survives the trip through the
  protocol exactly when it is OK or a REMOTE code other than REMOTE_OTHER_ERROR.
\<close>

lemma status_code_roundtrip:
  "(ConvertToProtoStatus (ConvertFromProtoStatus p) = p \<longleftrightarrow>
      p \<noteq> PROTO_INVALID_STATUS_CODE \<and> (\<nexists>n. p = PROTO_UNLISTED n)) \<and>
   (ConvertFromProtoStatus (ConvertToProtoStatus c) = c \<longleftrightarrow>
      c \<notin> {CLIENT_IO_ERROR, CLIENT_SHUTDOWN, CLIENT_INTERNAL_ERROR,
           CLIENT_RESPONSE_HMAC_VERIFICATION_ERROR, REMOTE_OTHER_ERROR,
           PROTOCOL_ERROR_RESPONSE_NO_ACKSEQUENCE})"
proof
  show "ConvertToProtoStatus (ConvertFromProtoStatus p) = p \<longleftrightarrow>
      p \<noteq> PROTO_INVALID_STATUS_CODE \<and> (\<nexists>n. p = PROTO_UNLISTED n)"
    by (cases p) simp_all
  show "ConvertFromProtoStatus (ConvertToProtoStatus c) = c \<longleftrightarrow>
      c \<notin> {CLIENT_IO_ERROR, CLIENT_SHUTDOWN, CLIENT_INTERNAL_ERROR,
           CLIENT_RESPONSE_HMAC_VERIFICATION_ERROR, REMOTE_OTHER_ERROR,
           PROTOCOL_ERROR_RESPONSE_NO_ACKSEQUENCE}"
    by (cases c) simp_all
qed

end
