(* ===== verification/Messages.thy ===== *)
theory Messages
  imports Status_Codes
begin

text \<open>
  The data that travels through the client: the protocol message and command as the source
  reads and writes them through the generated accessors, the record a drive stores
  (\<open>kinetic_record.h\<close>), access control lists (\<open>acls.h\<close>), push requests
  (\<open>nonblocking_kinetic_connection_interface.h\<close>), write and persist modes
  (\<open>kinetic_connection.h\<close>), the drive log (\<open>drive_log.h\<close>) and the connection options
  (\<open>connection_options.h\<close>).

  A field of the protocol that the source sets or tests for presence is an option: None is a
  field that has not been set. A getter on an unset field gives the protocol buffer default,
  empty for strings, 0 for numbers, False for booleans. Values of generated enumerations that
  the source never names are numbers. Single precision numbers are only copied and are kept as
  their 32 bits.
\<close>

section \<open>Messages\<close>

datatype auth_type = HMACAUTH | PINAUTH | UNSOLICITEDSTATUS | AUTH_UNLISTED

record hmac_auth =
  ha_identity :: int64
  ha_hmac :: bytes

record message =
  msg_authtype :: auth_type
  msg_hmacauth :: "hmac_auth option"
  msg_pin :: "bytes option"
  msg_commandbytes :: bytes

definition new_message :: message where
  "new_message = \<lparr>msg_authtype = AUTH_UNLISTED, msg_hmacauth = None, msg_pin = None, msg_commandbytes = []\<rparr>"

record connection_options =
  co_host :: string
  co_port :: "32 word"
  co_use_ssl :: bool
  co_user_id :: "32 word"
  co_hmac_key :: bytes

section \<open>Commands\<close>

datatype message_type =
    MT_NOOP | MT_GET | MT_GETNEXT | MT_GETPREVIOUS | MT_GETVERSION | MT_GETKEYRANGE | MT_PUT
  | MT_DELETE | MT_PINOP | MT_FLUSHALLDATA | MT_SETUP | MT_GETLOG | MT_SECURITY
  | MT_PEER2PEERPUSH | MT_MEDIASCAN | MT_MEDIAOPTIMIZE | MT_UNLISTED int

datatype priority = PRIORITY_LOWER | PRIORITY_UNLISTED int

record header =
  h_messagetype :: "message_type option"
  h_clusterversion :: "int64 option"
  h_connectionid :: "int64 option"
  h_sequence :: "int64 option"
  h_acksequence :: "int64 option"
  h_priority :: "priority option"

datatype algorithm = Algorithm_unset | Algorithm int

datatype synchronization = SYNC_WRITEBACK | SYNC_WRITETHROUGH | SYNC_FLUSH

record keyvalue =
  kv_key :: "bytes option"
  kv_dbversion :: "bytes option"
  kv_newversion :: "bytes option"
  kv_tag :: "bytes option"
  kv_algorithm :: algorithm
  kv_force :: "bool option"
  kv_synchronization :: "synchronization option"

record key_range =
  rg_startkey :: "bytes option"
  rg_startkeyinclusive :: "bool option"
  rg_endkey :: "bytes option"
  rg_endkeyinclusive :: "bool option"
  rg_reverse :: "bool option"
  rg_maxreturned :: "32 word option"
  rg_keys :: "bytes list"

record setup_body =
  su_newclusterversion :: "int64 option"
  su_firmwaredownload :: "bool option"

datatype pin_op_type = SECURE_ERASE_PINOP | ERASE_PINOP | LOCK_PINOP | UNLOCK_PINOP

datatype permission =
  PERM_READ | PERM_WRITE | PERM_DELETE | PERM_RANGE | PERM_SETUP | PERM_P2POP | PERM_GETLOG | PERM_SECURITY

datatype proto_permission =
    PROTO_PERM_READ | PROTO_PERM_WRITE | PROTO_PERM_DELETE | PROTO_PERM_RANGE | PROTO_PERM_SETUP
  | PROTO_PERM_P2POP | PROTO_PERM_GETLOG | PROTO_PERM_SECURITY

datatype hmac_algorithm = HmacSHA1

record proto_scope =
  ps_offset :: int64
  ps_value :: bytes
  ps_permission :: "proto_permission list"

record proto_acl =
  pa_identity :: int64
  pa_key :: bytes
  pa_hmacalgorithm :: hmac_algorithm
  pa_scope :: "proto_scope list"

record security =
  se_acl :: "proto_acl list"
  se_oldlockpin :: "bytes option"
  se_newlockpin :: "bytes option"
  se_olderasepin :: "bytes option"
  se_newerasepin :: "bytes option"

record proto_operation_status =
  os_code :: proto_status
  os_statusmessage :: string

text \<open>A peer-to-peer message: the peer's host and port and the operations to push to it.\<close>

datatype p2p_message =
  P2P_message (p2p_hostname: bytes) (p2p_port: "32 word") (p2p_operations: "p2p_operation list")
and p2p_operation =
  P2P_operation (p2pop_key: bytes) (p2pop_version: bytes) (p2pop_newkey: "bytes option")
    (p2pop_force: bool) (p2pop_nested: "p2p_message option") (p2pop_status: proto_operation_status)

section \<open>Drive logs\<close>

datatype getlog_type =
    LOG_UTILIZATIONS | LOG_TEMPERATURES | LOG_CAPACITIES | LOG_CONFIGURATION | LOG_STATISTICS
  | LOG_MESSAGES | LOG_LIMITS | LOG_UNLISTED int

record configuration =
  cf_vendor :: bytes
  cf_model :: bytes
  cf_serial_number :: bytes
  cf_version :: bytes
  cf_port :: "32 word"
  cf_tls_port :: "32 word"
  cf_compilation_date :: bytes
  cf_source_hash :: bytes

record capacity =
  cp_nominal_capacity_in_bytes :: "64 word"
  cp_portion_full :: "32 word"

record limits =
  lm_max_key_size :: uint32
  lm_max_value_size :: uint32
  lm_max_version_size :: uint32
  lm_max_tag_size :: uint32
  lm_max_connections :: uint32
  lm_max_outstanding_read_requests :: uint32
  lm_max_outstanding_write_requests :: uint32
  lm_max_message_size :: uint32

record operation_statistic =
  st_name :: bytes
  st_count :: "64 word"
  st_bytes :: "64 word"

record utilization =
  ut_name :: bytes
  ut_percent :: "32 word"

record temperature =
  tp_name :: bytes
  tp_current_degc :: "32 word"
  tp_min_degc :: "32 word"
  tp_max_degc :: "32 word"
  tp_target_degc :: "32 word"

record drive_log =
  dl_configuration :: configuration
  dl_capacity :: capacity
  dl_operation_statistics :: "operation_statistic list"
  dl_utilizations :: "utilization list"
  dl_temperatures :: "temperature list"
  dl_limits :: limits
  dl_messages :: bytes

text \<open>The protocol's log message, by the accessors that \<open>GetLogHandler\<close> reads.\<close>

record proto_statistics =
  pst_messagetype :: message_type
  pst_count :: "64 word"
  pst_bytes :: "64 word"

record proto_utilization =
  put_name :: bytes
  put_value :: "32 word"

record proto_temperature =
  ptp_name :: bytes
  ptp_current :: "32 word"
  ptp_target :: "32 word"
  ptp_maximum :: "32 word"
  ptp_minimum :: "32 word"

record proto_configuration =
  pcf_vendor :: bytes
  pcf_model :: bytes
  pcf_serialnumber :: bytes
  pcf_version :: bytes
  pcf_sourcehash :: bytes
  pcf_compilationdate :: bytes
  pcf_port :: "32 word"
  pcf_tlsport :: "32 word"

record proto_capacity =
  pcp_nominalcapacityinbytes :: "64 word"
  pcp_portionfull :: "32 word"

record proto_limits =
  plm_maxkeysize :: uint32
  plm_maxvaluesize :: uint32
  plm_maxversionsize :: uint32
  plm_maxtagsize :: uint32
  plm_maxconnections :: uint32
  plm_maxoutstandingreadrequests :: uint32
  plm_maxoutstandingwriterequests :: uint32
  plm_maxmessagesize :: uint32

record getlog =
  gl_types :: "getlog_type list"
  gl_configuration :: proto_configuration
  gl_capacity :: proto_capacity
  gl_limits :: proto_limits
  gl_statistics :: "proto_statistics list"
  gl_utilizations :: "proto_utilization list"
  gl_temperatures :: "proto_temperature list"
  gl_messages :: bytes

section \<open>The command message\<close>

record body =
  b_keyvalue :: "keyvalue option"
  b_range :: "key_range option"
  b_setup :: "setup_body option"
  b_pinop :: "pin_op_type option"
  b_getlog :: "getlog option"
  b_security :: "security option"
  b_p2poperation :: "p2p_message option"

record command =
  cmd_header :: header
  cmd_body :: body
  cmd_status :: proto_operation_status

definition empty_header :: header where
  "empty_header = \<lparr>h_messagetype = None, h_clusterversion = None, h_connectionid = None,
     h_sequence = None, h_acksequence = None, h_priority = None\<rparr>"

definition empty_keyvalue :: keyvalue where
  "empty_keyvalue = \<lparr>kv_key = None, kv_dbversion = None, kv_newversion = None, kv_tag = None,
     kv_algorithm = Algorithm_unset, kv_force = None, kv_synchronization = None\<rparr>"

definition empty_key_range :: key_range where
  "empty_key_range = \<lparr>rg_startkey = None, rg_startkeyinclusive = None, rg_endkey = None,
     rg_endkeyinclusive = None, rg_reverse = None, rg_maxreturned = None, rg_keys = []\<rparr>"

definition empty_setup :: setup_body where
  "empty_setup = \<lparr>su_newclusterversion = None, su_firmwaredownload = None\<rparr>"

definition empty_security :: security where
  "empty_security = \<lparr>se_acl = [], se_oldlockpin = None, se_newlockpin = None,
     se_olderasepin = None, se_newerasepin = None\<rparr>"

definition empty_getlog :: getlog where
  "empty_getlog =
     \<lparr>gl_types = [],
      gl_configuration = \<lparr>pcf_vendor = [], pcf_model = [], pcf_serialnumber = [], pcf_version = [],
         pcf_sourcehash = [], pcf_compilationdate = [], pcf_port = 0, pcf_tlsport = 0\<rparr>,
      gl_capacity = \<lparr>pcp_nominalcapacityinbytes = 0, pcp_portionfull = 0\<rparr>,
      gl_limits = \<lparr>plm_maxkeysize = 0, plm_maxvaluesize = 0, plm_maxversionsize = 0,
         plm_maxtagsize = 0, plm_maxconnections = 0, plm_maxoutstandingreadrequests = 0,
         plm_maxoutstandingwriterequests = 0, plm_maxmessagesize = 0\<rparr>,
      gl_statistics = [], gl_utilizations = [], gl_temperatures = [], gl_messages = []\<rparr>"

definition empty_body :: body where
  "empty_body = \<lparr>b_keyvalue = None, b_range = None, b_setup = None, b_pinop = None,
     b_getlog = None, b_security = None, b_p2poperation = None\<rparr>"

definition empty_command :: command where
  "empty_command = \<lparr>cmd_header = empty_header, cmd_body = empty_body,
     cmd_status = \<lparr>os_code = PROTO_INVALID_STATUS_CODE, os_statusmessage = ''''\<rparr>\<rparr>"

text \<open>Getters: the value of a field, or the default when it (or its message) is not set.\<close>

definition get_keyvalue :: "command \<Rightarrow> keyvalue" where
  "get_keyvalue c = (case b_keyvalue (cmd_body c) of Some kv \<Rightarrow> kv | None \<Rightarrow> empty_keyvalue)"

definition get_range :: "command \<Rightarrow> key_range" where
  "get_range c = (case b_range (cmd_body c) of Some r \<Rightarrow> r | None \<Rightarrow> empty_key_range)"

definition get_getlog :: "command \<Rightarrow> getlog" where
  "get_getlog c = (case b_getlog (cmd_body c) of Some g \<Rightarrow> g | None \<Rightarrow> empty_getlog)"

definition get_p2poperation :: "command \<Rightarrow> p2p_message" where
  "get_p2poperation c =
     (case b_p2poperation (cmd_body c) of Some p \<Rightarrow> p | None \<Rightarrow> P2P_message [] 0 [])"

definition bytes_or_empty :: "bytes option \<Rightarrow> bytes" where
  "bytes_or_empty b = (case b of Some s \<Rightarrow> s | None \<Rightarrow> [])"

definition int64_or_0 :: "int64 option \<Rightarrow> int64" where
  "int64_or_0 v = (case v of Some x \<Rightarrow> x | None \<Rightarrow> 0)"

lemma or_default_simps [simp]:
  "bytes_or_empty None = []" "bytes_or_empty (Some s) = s"
  "int64_or_0 None = 0" "int64_or_0 (Some x) = x"
  by (simp_all add: bytes_or_empty_def int64_or_0_def)

section \<open>Application data\<close>

record kinetic_record =
  kr_value :: "bytes option"
  kr_version :: "bytes option"
  kr_tag :: "bytes option"
  kr_algorithm :: algorithm

datatype write_mode = IGNORE_VERSION | REQUIRE_SAME_VERSION

datatype persist_mode = WRITE_THROUGH | WRITE_BACK | FLUSH

record scope =
  sc_offset :: int64
  sc_value :: bytes
  sc_permissions :: "permission list"

record acl =
  acl_identity :: int64
  acl_hmac_key :: bytes
  acl_scopes :: "scope list"

datatype p2p_push_request =
  P2PPushRequest (ppr_host: bytes) (ppr_port: "32 word") (ppr_operations: "p2p_push_operation list")
and p2p_push_operation =
  P2PPushOperation (po_key: bytes) (po_version: bytes) (po_newKey: bytes) (po_force: bool)
    (po_request: "p2p_push_request option")

end
