(* ===== verification/Hmac.thy ===== *)
theory Hmac
  imports Messages
begin

text \<open>
  \<open>HmacProvider\<close> (\<open>hmac_provider.cc\<close>). The keyed hash itself, OpenSSL's HMAC with SHA-1, is a
  parameter \<open>hmac_sha1\<close> from key and data to digest; feeding it in pieces hashes their
  concatenation.
\<close>

definition ComputeHmac :: "(bytes \<Rightarrow> bytes \<Rightarrow> bytes) \<Rightarrow> message \<Rightarrow> bytes \<Rightarrow> bytes" where
  "ComputeHmac hmac_sha1 m key =
     hmac_sha1 key
       (if length (msg_commandbytes m) \<noteq> 0
        then be32 (of_nat (length (msg_commandbytes m))) @ msg_commandbytes m
        else [])"

text \<open>
  The comparison loop: every byte pair is promoted to \<open>int\<close>, and the accumulated result is
  zero only if all pairs agree. The loop runs over the whole digest whatever it finds.
\<close>

fun hmac_compare :: "bytes \<Rightarrow> bytes \<Rightarrow> 32 word \<Rightarrow> 32 word" where
  "hmac_compare (p # ps) (c # cs) result = hmac_compare ps cs (result OR (scast p XOR scast c))"
| "hmac_compare _ _ result = result"

definition ValidateHmac :: "(bytes \<Rightarrow> bytes \<Rightarrow> bytes) \<Rightarrow> message \<Rightarrow> bytes \<Rightarrow> bool" where
  "ValidateHmac hmac_sha1 m key =
     (let correct = ComputeHmac hmac_sha1 m key in
      case msg_hmacauth m of
        None \<Rightarrow> False
      | Some auth \<Rightarrow>
          if length (ha_hmac auth) \<noteq> length correct then False
          else hmac_compare (ha_hmac auth) correct 0 = 0)"

lemma word_xor_zero_iff: "a XOR b = 0 \<longleftrightarrow> a = (b :: 'a :: len word)"
  by (metis xor.assoc xor.comm_neutral xor_self_eq)

lemma scast_byte_inject: "(scast (p :: byte) :: 32 word) = scast c \<longleftrightarrow> p = c"
proof
  assume "(scast p :: 32 word) = scast c"
  then have "(scast (scast p :: 32 word) :: byte) = scast (scast c :: 32 word)" by simp
  then show "p = c" by (simp add: scast_up_scast_id is_up)
qed simp

lemma hmac_compare_zero:
  "length ps = length cs \<Longrightarrow> hmac_compare ps cs r = 0 \<longleftrightarrow> r = 0 \<and> ps = cs"
proof (induction ps cs arbitrary: r rule: list_induct2)
  case Nil
  then show ?case by simp
next
  case (Cons p ps c cs)
  have "(scast p XOR scast c :: 32 word) = 0 \<longleftrightarrow> p = c"
    by (simp add: word_xor_zero_iff scast_byte_inject)
  with Cons show ?case by (auto simp: or_eq_0_iff)
qed

lemma ValidateHmac_iff:
  "ValidateHmac h m key \<longleftrightarrow> (\<exists>auth. msg_hmacauth m = Some auth \<and> ha_hmac auth = ComputeHmac h m key)"
  by (auto simp: ValidateHmac_def Let_def hmac_compare_zero split: option.splits if_splits)

text \<open>
  C25: The constant-time comparison decides equality: a message passes validation exactly when it
  carries an HMAC and that HMAC is, byte for byte, the keyed hash of the length-prefixed command
  bytes. The early returns for a missing HMAC and for a wrong length and the accumulating loop
  together accept nothing else and reject nothing else.
\<close>

theorem validate_hmac_correct:
  "ValidateHmac h m key \<longleftrightarrow>
     (\<exists>auth. msg_hmacauth m = Some auth \<and>
        ha_hmac auth =
          h key (if msg_commandbytes m = [] then []
                 else be32 (of_nat (length (msg_commandbytes m))) @ msg_commandbytes m))"
  by (simp add: ValidateHmac_iff ComputeHmac_def)

end
