(* ===== verification/Sender.thy ===== *)
theory Sender
  imports Packet Hmac
begin

text \<open>
  \<open>NonblockingSender\<close> (\<open>nonblocking_packet_sender.cc\<close>): the queue of requests on their way to the
  drive. A handler is owned by its request until the request has been written completely, and is
  then passed to the receiver, which the sender knows only through its interface
  (\<open>NonblockingReceiverInterface\<close>). The sender's operations therefore take the receiver's
  \<open>Enqueue\<close> as an argument, and what they promise is proved once in the locale
  \<open>receiver_interface\<close>.

  Handlers are values of any type \<open>'h\<close>. Calling one is recorded in the log of the world, so that
  theorems can speak of who was called, how often and with what. Here a callback
  does nothing to the connection; those that submit further requests are in \<open>Reentrancy\<close>.
\<close>

section \<open>The world of a connection\<close>

datatype 'h callback =
    Handled (cb_handler: 'h) command "bytes option"            \<comment> \<open>\<open>handler->Handle(response, value)\<close>\<close>
  | Errored (cb_handler: 'h) kinetic_status "command option"   \<comment> \<open>\<open>handler->Error(error, response)\<close>\<close>

record 'h world =
  w_rd :: "rd_event list"
  w_wr :: "wr_event list"
  w_out :: bytes
  w_log :: "'h callback list"

text \<open>
  The generated protocol buffer code and OpenSSL's HMAC, which the client calls: serializers
  (None where required fields are missing), parsers and the keyed hash.
\<close>

record codec =
  cx_ser_command :: "command \<Rightarrow> bytes"
  cx_parse_command :: "bytes \<Rightarrow> command option"
  cx_ser_message :: "message \<Rightarrow> bytes option"
  cx_parse_message :: "bytes \<Rightarrow> message option"
  cx_hmac_sha1 :: "bytes \<Rightarrow> bytes \<Rightarrow> bytes"

text \<open>
  The enumeration \<open>NonblockingPacketServiceStatus\<close>. The extra value \<open>kCrash\<close> is the end of the
  process, by a failed \<open>CHECK\<close> or by the use of a null handler.
\<close>

datatype service_status = kIdle | kIoWait | kError | kCrash

definition log_call :: "'h callback \<Rightarrow> 'h world \<Rightarrow> 'h world" where
  "log_call c w = w\<lparr>w_log := w_log w @ [c]\<rparr>"

definition log_calls :: "'h callback list \<Rightarrow> 'h world \<Rightarrow> 'h world" where
  "log_calls cs w = w\<lparr>w_log := w_log w @ cs\<rparr>"

section \<open>State and operations of the sender\<close>

record 'h request =
  rq_message :: message
  rq_command :: command
  rq_value :: bytes
  rq_handler :: 'h
  rq_key :: handler_key

record 'h sender =
  s_options :: connection_options
  s_sequence_number :: int64
  s_handler_key :: handler_key
  s_current_writer :: "message packet_writer option"
  s_handler :: "'h option"
  s_request_queue :: "'h request list"
  s_message_sequence :: int64

text \<open>The constructor; \<open>handler_key_\<close> and \<open>message_sequence_\<close> are set before they are read.\<close>

definition new_sender :: "connection_options \<Rightarrow> 'h sender" where
  "new_sender opts =
     \<lparr>s_options = opts, s_sequence_number = 0, s_handler_key = 0, s_current_writer = None,
      s_handler = None, s_request_queue = [], s_message_sequence = 0\<rparr>"

definition finish_command :: "int64 \<Rightarrow> int64 \<Rightarrow> command \<Rightarrow> command" where
  "finish_command conn seq cmd =
     cmd\<lparr>cmd_header := (cmd_header cmd)\<lparr>h_connectionid := Some conn, h_sequence := Some seq\<rparr>\<rparr>"

definition sign_message :: "codec \<Rightarrow> connection_options \<Rightarrow> bytes \<Rightarrow> message \<Rightarrow> message" where
  "sign_message cx opts cb m =
     (let m1 = m\<lparr>msg_commandbytes := cb\<rparr> in
      if msg_authtype m1 = HMACAUTH
      then m1\<lparr>msg_hmacauth :=
                Some \<lparr>ha_identity = scast (co_user_id opts),
                      ha_hmac = ComputeHmac (cx_hmac_sha1 cx) m1 (co_hmac_key opts)\<rparr>\<rparr>
      else m1)"

definition s_Enqueue ::
    "codec \<Rightarrow> int64 \<Rightarrow> message \<Rightarrow> command \<Rightarrow> bytes \<Rightarrow> 'h \<Rightarrow> handler_key \<Rightarrow> 'h sender \<Rightarrow> 'h sender" where
  "s_Enqueue cx connection_id m cmd value h key s =
     (let cmd1 = finish_command connection_id (s_sequence_number s) cmd;
          m1 = sign_message cx (s_options s) (cx_ser_command cx cmd1) m
      in s\<lparr>s_sequence_number := s_sequence_number s + 1,
           s_request_queue := s_request_queue s @
             [\<lparr>rq_message = m1, rq_command = cmd1, rq_value = value, rq_handler = h, rq_key = key\<rparr>]\<rparr>)"

text \<open>
  The top of the loop of \<open>Send\<close>: the writer to go on with, started from the front of the queue if
  there is none. None is an idle sender.
\<close>

definition s_next :: "'h sender \<Rightarrow> ('h sender \<times> message packet_writer) option" where
  "s_next s =
     (case s_current_writer s of
        Some pw \<Rightarrow> Some (s, pw)
      | None \<Rightarrow>
          (case s_request_queue s of
             [] \<Rightarrow> None
           | rq # rqs \<Rightarrow>
               let pw = new_packet_writer (rq_message rq) (rq_value rq) in
               Some (s\<lparr>s_request_queue := rqs,
                       s_message_sequence := int64_or_0 (h_sequence (cmd_header (rq_command rq))),
                       s_handler_key := rq_key rq,
                       s_current_writer := Some pw,
                       s_handler := Some (rq_handler rq)\<rparr>, pw)))"

definition write_error :: kinetic_status where
  "write_error = KineticStatus0 CLIENT_IO_ERROR ''I/O write error''"

text \<open>A failed write: the handler of the current request and every queued one are told.\<close>

definition s_fail :: "'h \<Rightarrow> 'h sender \<Rightarrow> 'h world \<Rightarrow> 'h sender \<times> 'h world" where
  "s_fail h s w =
     (s\<lparr>s_handler := None, s_request_queue := []\<rparr>,
      log_calls (Errored h write_error None #
         map (\<lambda>rq. Errored (rq_handler rq) write_error None) (s_request_queue s)) w)"

definition enqueue_error :: kinetic_status where
  "enqueue_error = KineticStatus0 CLIENT_INTERNAL_ERROR ''Could not enqueue handler''"

text \<open>
  One turn of the loop: \<open>Some st\<close> when \<open>Send\<close> returns \<open>st\<close>, None when it goes round again.
\<close>

definition s_turn ::
    "codec \<Rightarrow> ('h \<Rightarrow> int64 \<Rightarrow> handler_key \<Rightarrow> 'r \<Rightarrow> bool \<times> 'r) \<Rightarrow> 'h sender \<Rightarrow> 'r \<Rightarrow> 'h world
     \<Rightarrow> service_status option \<times> 'h sender \<times> 'r \<times> 'h world" where
  "s_turn cx enq s r w =
     (case s_next s of
        None \<Rightarrow> (Some kIdle, s, r, w)
      | Some (s1, pw) \<Rightarrow>
          (case pw_Write (cx_ser_message cx) pw (w_wr w) (w_out w) of
             (st, pw', wr', out') \<Rightarrow>
               let s2 = s1\<lparr>s_current_writer := Some pw'\<rparr>; w1 = w\<lparr>w_wr := wr', w_out := out'\<rparr> in
               if st = kInProgress then (Some kIoWait, s2, r, w1)
               else
                 (case s_handler s2 of
                    None \<Rightarrow> (Some kCrash, s2, r, w1)
                  | Some h \<Rightarrow>
                      if st = kFailed then
                        (case s_fail h s2 w1 of (s3, w2) \<Rightarrow> (Some kError, s3, r, w2))
                      else if st = kAbort then (Some kCrash, s2, r, w1)
                      else
                        (case enq h (s_message_sequence s2) (s_handler_key s2) r of
                           (ok, r') \<Rightarrow>
                             (None, s2\<lparr>s_current_writer := None, s_handler := None\<rparr>, r',
                              if ok then w1 else log_call (Errored h enqueue_error None) w1)))))"

definition s_load :: "'h sender \<Rightarrow> nat" where
  "s_load s = 2 * length (s_request_queue s) + (if s_current_writer s = None then 0 else 1)"

lemma s_turn_load: "s_turn cx enq s r w = (None, s', r', w') \<Longrightarrow> s_load s' < s_load s"
  by (auto simp: s_turn_def s_next_def s_load_def Let_def
      split: option.splits list.splits prod.splits if_splits)

function s_Send ::
    "codec \<Rightarrow> ('h \<Rightarrow> int64 \<Rightarrow> handler_key \<Rightarrow> 'r \<Rightarrow> bool \<times> 'r) \<Rightarrow> 'h sender \<Rightarrow> 'r \<Rightarrow> 'h world
     \<Rightarrow> service_status \<times> 'h sender \<times> 'r \<times> 'h world" where
  "s_Send cx enq s r w =
     (case s_turn cx enq s r w of
        (Some st, s', r', w') \<Rightarrow> (st, s', r', w')
      | (None, s', r', w') \<Rightarrow> s_Send cx enq s' r' w')"
  by pat_completeness auto
termination
  by (relation "measure (\<lambda>(cx, enq, s, r, w). s_load s)") (auto dest!: s_turn_load [OF sym])

declare s_Send.simps [simp del]

text \<open>\<open>Remove\<close> erases the first queued request with the key.\<close>

fun remove_request :: "handler_key \<Rightarrow> 'h request list \<Rightarrow> bool \<times> 'h request list" where
  "remove_request key [] = (False, [])"
| "remove_request key (rq # rqs) =
     (if rq_key rq = key then (True, rqs)
      else (case remove_request key rqs of (b, rqs') \<Rightarrow> (b, rq # rqs')))"

definition s_Remove :: "handler_key \<Rightarrow> 'h sender \<Rightarrow> bool \<times> 'h sender" where
  "s_Remove key s =
     (case remove_request key (s_request_queue s) of
        (b, rqs) \<Rightarrow> (b, s\<lparr>s_request_queue := rqs\<rparr>))"

definition sender_shutdown :: kinetic_status where
  "sender_shutdown = KineticStatus0 CLIENT_SHUTDOWN ''Sender shutdown''"

text \<open>The destructor tells the queued handlers; its members are destroyed after that.\<close>

definition s_destroy :: "'h sender \<Rightarrow> 'h world \<Rightarrow> 'h world" where
  "s_destroy s w =
     log_calls (map (\<lambda>rq. Errored (rq_handler rq) sender_shutdown None) (s_request_queue s)) w"

section \<open>Loop rule and well-formed senders\<close>

text \<open>
  What holds of a run of \<open>Send\<close>: an invariant \<open>I\<close> of the turns, and what the last turn makes of it.
\<close>

lemma s_Send_rule:
  assumes "s_Send cx enq s r w = (st, s', r', w')" and "I s r w"
    and "\<And>s r w s1 r1 w1. s_turn cx enq s r w = (None, s1, r1, w1) \<Longrightarrow> I s r w \<Longrightarrow> I s1 r1 w1"
    and "\<And>s r w st s1 r1 w1. s_turn cx enq s r w = (Some st, s1, r1, w1) \<Longrightarrow> I s r w \<Longrightarrow> Q st s1 r1 w1"
  shows "Q st s' r' w'"
  using assms
proof (induction cx enq s r w rule: s_Send.induct)
  case (1 cx enq s r w)
  obtain res s1 r1 w1 where turn: "s_turn cx enq s r w = (res, s1, r1, w1)"
    by (metis prod_cases4)
  show ?case
  proof (cases res)
    case None
    with turn "1.prems"(1) have "s_Send cx enq s1 r1 w1 = (st, s', r', w')"
      by (simp add: s_Send.simps [of cx enq s r w])
    moreover have "I s1 r1 w1" using turn None "1.prems"(2,3) by blast
    ultimately show ?thesis using "1.IH" [OF turn [symmetric] None refl refl] "1.prems"(3,4) by blast
  next
    case (Some x)
    with turn "1.prems"(1) have "s_turn cx enq s r w = (Some st, s', r', w')"
      by (simp add: s_Send.simps [of cx enq s r w])
    with "1.prems"(2,4) show ?thesis by blast
  qed
qed

text \<open>The handlers a sender owns, and those that have been called.\<close>

definition opt_mset :: "'a option \<Rightarrow> 'a multiset" where
  "opt_mset x = (case x of None \<Rightarrow> {#} | Some a \<Rightarrow> {#a#})"

definition s_pending :: "'h sender \<Rightarrow> 'h multiset" where
  "s_pending s = opt_mset (s_handler s) + mset (map rq_handler (s_request_queue s))"

definition called :: "'h world \<Rightarrow> 'h multiset" where
  "called w = mset (map cb_handler (w_log w))"

lemma opt_mset_simps [simp]: "opt_mset None = {#}" "opt_mset (Some a) = {#a#}"
  by (simp_all add: opt_mset_def)

lemma called_log_call [simp]: "called (log_call c w) = add_mset (cb_handler c) (called w)"
  by (simp add: called_def log_call_def)

lemma called_log_calls [simp]: "called (log_calls cs w) = mset (map cb_handler cs) + called w"
  by (simp add: called_def log_calls_def)

lemma called_io [simp]:
  "called (w\<lparr>w_wr := x\<rparr>) = called w" "called (w\<lparr>w_out := y\<rparr>) = called w" "called (w\<lparr>w_rd := z\<rparr>) = called w"
  by (simp_all add: called_def)

lemma log_calls_sel [simp]:
  "w_out (log_calls cs w) = w_out w" "w_rd (log_calls cs w) = w_rd w" "w_wr (log_calls cs w) = w_wr w"
  "w_out (log_call c w) = w_out w" "w_rd (log_call c w) = w_rd w" "w_wr (log_call c w) = w_wr w"
  "w_log (log_calls cs w) = w_log w @ cs" "w_log (log_call c w) = w_log w @ [c]"
  by (simp_all add: log_calls_def log_call_def)

definition s_wf :: "'h sender \<Rightarrow> bool" where
  "s_wf s \<longleftrightarrow> (s_current_writer s = None \<longleftrightarrow> s_handler s = None) \<and>
     (\<forall>pw. s_current_writer s = Some pw \<longrightarrow> sw_wf (pw_writer pw))"

lemma s_wf_new [simp]: "s_wf (new_sender opts)" "s_pending (new_sender opts) = {#}"
  by (simp_all add: s_wf_def s_pending_def new_sender_def)

lemma s_next_pending:
  assumes "s_wf s" and "s_next s = Some (s1, pw)"
  shows "s_wf s1 \<and> s_pending s1 = s_pending s \<and> s_current_writer s1 = Some pw \<and>
    (\<exists>h. s_handler s1 = Some h) \<and> sw_wf (pw_writer pw)"
  using assms
  by (auto simp: s_next_def s_wf_def s_pending_def Let_def new_packet_writer_def
      split: option.splits list.splits)

lemma s_next_None: "s_next s = None \<longleftrightarrow> s_current_writer s = None \<and> s_request_queue s = []"
  by (simp add: s_next_def Let_def split: option.splits list.splits)

section \<open>The sender and its receiver\<close>

text \<open>
  Every handler is somewhere: in the sender, in the receiver, or called. Counted with multiplicity
  this is what a run must not change, so a handler is neither lost nor called twice.
\<close>

definition owners :: "('r \<Rightarrow> 'h multiset) \<Rightarrow> 'h sender \<Rightarrow> 'r \<Rightarrow> 'h world \<Rightarrow> 'h multiset" where
  "owners pending s r w = s_pending s + pending r + called w"

text \<open>
  What the sender relies on: the receiver takes a handler or refuses it, and says which.
\<close>

locale receiver_interface =
  fixes enq :: "'h \<Rightarrow> int64 \<Rightarrow> handler_key \<Rightarrow> 'r \<Rightarrow> bool \<times> 'r"
    and pending :: "'r \<Rightarrow> 'h multiset"
    and inv :: "'r \<Rightarrow> bool"
  assumes enq_accepts:
      "inv r \<Longrightarrow> enq h seq key r = (True, r') \<Longrightarrow> inv r' \<and> pending r' = add_mset h (pending r)"
    and enq_rejects:
      "inv r \<Longrightarrow> enq h seq key r = (False, r') \<Longrightarrow> inv r' \<and> pending r' = pending r"
begin

lemma turn_conserves:
  assumes "s_turn cx enq s r w = (res, s', r', w')" and "s_wf s" and "inv r"
  shows "owners pending s' r' w' = owners pending s r w \<and> inv r' \<and> res \<noteq> Some kCrash \<and>
    (res \<noteq> Some kError \<longrightarrow> s_wf s') \<and>
    (res = Some kError \<longrightarrow> s_pending s' = {#}) \<and>
    (res = Some kIdle \<longrightarrow> s_pending s' = {#})"
proof (cases "s_next s")
  case None
  then have "s_turn cx enq s r w = (Some kIdle, s, r, w)" by (simp add: s_turn_def)
  with assms None show ?thesis by (auto simp: s_next_None s_wf_def s_pending_def)
next
  case (Some a)
  obtain s1 pw where a: "a = (s1, pw)" by (cases a)
  with Some s_next_pending [OF assms(2)] have n: "s_wf s1" "s_pending s1 = s_pending s"
      "s_current_writer s1 = Some pw" "sw_wf (pw_writer pw)" "\<exists>h. s_handler s1 = Some h" by auto
  then obtain h where h: "s_handler s1 = Some h" by blast
  obtain st pw' wr' out' where wr: "pw_Write (cx_ser_message cx) pw (w_wr w) (w_out w) = (st, pw', wr', out')"
    by (metis prod_cases4)
  from pw_Write_no_abort [OF wr n(4)] have st: "st \<noteq> kAbort" and wf': "sw_wf (pw_writer pw')" by auto
  obtain ok r1 where e: "enq h (s_message_sequence s1) (s_handler_key s1) r = (ok, r1)"
    by (cases "enq h (s_message_sequence s1) (s_handler_key s1) r")
  have r1: "inv r1 \<and> pending r1 = (if ok then add_mset h (pending r) else pending r)"
    using enq_accepts [OF assms(3), of h _ _ r1] enq_rejects [OF assms(3), of h _ _ r1] e
    by (cases ok) auto
  show ?thesis
    using assms(1,3) n(2) r1 st wf' unfolding s_turn_def
    by (cases st; cases ok)
       (auto simp: Some a wr h e s_fail_def owners_def s_pending_def s_wf_def comp_def)
qed

lemma Send_conserves:
  assumes "s_Send cx enq s r w = (st, s', r', w')" and "s_wf s" and "inv r"
  shows "owners pending s' r' w' = owners pending s r w \<and> inv r' \<and> st \<noteq> kCrash \<and>
    (st \<noteq> kError \<longrightarrow> s_wf s') \<and> (st = kError \<or> st = kIdle \<longrightarrow> s_pending s' = {#})"
proof (rule s_Send_rule [where I = "\<lambda>s1 r1 w1. owners pending s1 r1 w1 = owners pending s r w \<and> s_wf s1 \<and> inv r1"
      and Q = "\<lambda>st s' r' w'. owners pending s' r' w' = owners pending s r w \<and> inv r' \<and> st \<noteq> kCrash \<and>
        (st \<noteq> kError \<longrightarrow> s_wf s') \<and> (st = kError \<or> st = kIdle \<longrightarrow> s_pending s' = {#})", OF assms(1)])
  fix s1 r1 w1 s2 r2 w2
  assume "s_turn cx enq s1 r1 w1 = (None, s2, r2, w2)"
    and "owners pending s1 r1 w1 = owners pending s r w \<and> s_wf s1 \<and> inv r1"
  then show "owners pending s2 r2 w2 = owners pending s r w \<and> s_wf s2 \<and> inv r2"
    using turn_conserves [of cx s1 r1 w1 None s2 r2 w2] by auto
next
  fix s1 r1 w1 st s2 r2 w2
  assume "s_turn cx enq s1 r1 w1 = (Some st, s2, r2, w2)"
    and "owners pending s1 r1 w1 = owners pending s r w \<and> s_wf s1 \<and> inv r1"
  then show "owners pending s2 r2 w2 = owners pending s r w \<and> inv r2 \<and> st \<noteq> kCrash \<and>
        (st \<noteq> kError \<longrightarrow> s_wf s2) \<and> (st = kError \<or> st = kIdle \<longrightarrow> s_pending s2 = {#})"
    using turn_conserves [of cx s1 r1 w1 "Some st" s2 r2 w2] by auto
qed (use assms in auto)

end

section \<open>What the sender puts on the wire\<close>

text \<open>
  The bytes a sender still has to write: the rest of the packet it is in, then one whole packet
  per queued request.
\<close>

definition s_packet :: "(message \<Rightarrow> bytes option) \<Rightarrow> 'h request \<Rightarrow> bytes" where
  "s_packet ser rq = wire_packet (bytes_or_empty (ser (rq_message rq))) (rq_value rq)"

definition s_wire :: "(message \<Rightarrow> bytes option) \<Rightarrow> 'h sender \<Rightarrow> bytes" where
  "s_wire ser s =
     (case s_current_writer s of
        None \<Rightarrow> []
      | Some pw \<Rightarrow> pw_rest (bytes_or_empty (ser (pw_message pw))) pw) @
     concat (map (s_packet ser) (s_request_queue s))"

definition s_serializable :: "(message \<Rightarrow> bytes option) \<Rightarrow> 'h sender \<Rightarrow> bool" where
  "s_serializable ser s \<longleftrightarrow>
     (\<forall>pw. s_current_writer s = Some pw \<longrightarrow> pw_wf ser (bytes_or_empty (ser (pw_message pw))) pw) \<and>
     (\<forall>rq \<in> set (s_request_queue s). ser (rq_message rq) \<noteq> None)"

lemma s_wire_new [simp]: "s_wire ser (new_sender opts) = []" "s_serializable ser (new_sender opts)"
  by (simp_all add: s_wire_def s_serializable_def new_sender_def)

lemma s_next_wire:
  assumes "s_next s = Some (s1, pw)" and "s_serializable ser s"
  shows "s_wire ser s1 = s_wire ser s \<and> s_serializable ser s1 \<and> s_current_writer s1 = Some pw"
proof (cases "s_current_writer s")
  case None
  with assms(1) obtain rq rqs where q: "s_request_queue s = rq # rqs"
    by (auto simp: s_next_def split: list.splits)
  with assms(2) obtain b where b: "ser (rq_message rq) = Some b" by (auto simp: s_serializable_def)
  have pm: "pw_message (new_packet_writer (rq_message rq) (rq_value rq)) = rq_message rq"
    by (simp add: new_packet_writer_def)
  from assms None q b show ?thesis
    by (auto simp: s_next_def Let_def s_wire_def s_serializable_def s_packet_def pm)
next
  case (Some pw')
  with assms show ?thesis by (auto simp: s_next_def)
qed

lemma s_turn_wire:
  assumes "s_turn cx enq s r w = (res, s', r', w')" and "s_wf s" and "s_serializable (cx_ser_message cx) s"
  shows "(res \<noteq> Some kError \<longrightarrow> w_out w' @ s_wire (cx_ser_message cx) s' = w_out w @ s_wire (cx_ser_message cx) s \<and>
       s_serializable (cx_ser_message cx) s' \<and> (res = None \<longrightarrow> s_wf s')) \<and>
    (\<exists>rest. w_out w' @ rest = w_out w @ s_wire (cx_ser_message cx) s) \<and>
    (res = Some kIdle \<longrightarrow> s_wire (cx_ser_message cx) s' = []) \<and>
    (res = Some kIoWait \<longrightarrow> s_wire (cx_ser_message cx) s' \<noteq> [])"
proof (cases "s_next s")
  case None
  then have "s_turn cx enq s r w = (Some kIdle, s, r, w)" by (simp add: s_turn_def)
  with assms None show ?thesis by (auto simp: s_next_None s_wire_def)
next
  case (Some a)
  let ?ser = "cx_ser_message cx"
  obtain s1 pw where a: "a = (s1, pw)" by (cases a)
  note n = s_next_wire [OF Some [unfolded a] assms(3)]
  from s_next_pending [OF assms(2) Some [unfolded a]] obtain h where h: "s_handler s1 = Some h" by blast
  obtain st pw' wr' out' where wr: "pw_Write ?ser pw (w_wr w) (w_out w) = (st, pw', wr', out')"
    by (metis prod_cases4)
  from n have wf: "pw_wf ?ser (bytes_or_empty (?ser (pw_message pw))) pw" by (auto simp: s_serializable_def)
  note post = pw_Write_post [OF wr wf]
  obtain ok r1 where e: "enq h (s_message_sequence s1) (s_handler_key s1) r = (ok, r1)"
    by (cases "enq h (s_message_sequence s1) (s_handler_key s1) r")
  have wire: "s_wire ?ser s = pw_rest (bytes_or_empty (?ser (pw_message pw))) pw @
      concat (map (s_packet ?ser) (s_request_queue s1))"
  proof -
    from n have "s_wire ?ser s = s_wire ?ser s1" and "s_current_writer s1 = Some pw" by simp_all
    then show ?thesis by (simp only: s_wire_def option.case)
  qed
  have prefix: "\<exists>rest. out' @ rest = w_out w @ s_wire ?ser s"
    using post wire by (metis append.assoc)
  have turn: "s_turn cx enq s r w = (res, s', r', w')" by (rule assms(1))
  show ?thesis
  proof (cases st)
    case kInProgress
    with turn Some a wr have "res = Some kIoWait" "s' = s1\<lparr>s_current_writer := Some pw'\<rparr>"
        "w_out w' = out'" by (auto simp: s_turn_def)
    with kInProgress n post prefix wire show ?thesis by (simp add: s_wire_def s_serializable_def)
  next
    case kDone
    then have "res = None" "s' = s1\<lparr>s_current_writer := None, s_handler := None\<rparr>"
        "w_out w' = out'" using turn Some a wr h e by (auto simp: s_turn_def Let_def split: if_splits)
    moreover have "out' = w_out w @ pw_rest (bytes_or_empty (?ser (pw_message pw))) pw"
      using post kDone by (metis append_Nil2)
    moreover have "s_serializable ?ser s1" using n by simp
    ultimately show ?thesis using prefix by (simp add: wire) (simp add: s_wire_def s_serializable_def s_wf_def)
  next
    case kFailed
    with turn Some a wr h have "res = Some kError" "w_out w' = out'" by (auto simp: s_turn_def s_fail_def)
    with prefix show ?thesis by simp
  next
    case kAbort
    with post show ?thesis by simp
  qed
qed

text \<open>
  C8: Packets leave in the order they were enqueued, whole and never interleaved. Over one call of
  \<open>Send\<close>, however the kernel cuts the writes, what is out plus what is queued stays the same;
  an idle sender has written all of it; a sender that waits has something left; and after a failed
  write what went out is still a prefix of it. A later call starts from the same conditions.
\<close>

theorem send_fifo:
  assumes "s_Send cx enq s r w = (st, s', r', w')" and "s_wf s" and "s_serializable (cx_ser_message cx) s"
  shows "(st \<noteq> kError \<longrightarrow> w_out w' @ s_wire (cx_ser_message cx) s' = w_out w @ s_wire (cx_ser_message cx) s \<and>
       s_serializable (cx_ser_message cx) s') \<and>
    (\<exists>rest. w_out w' @ rest = w_out w @ s_wire (cx_ser_message cx) s) \<and>
    (st = kIdle \<longrightarrow> w_out w' = w_out w @ s_wire (cx_ser_message cx) s) \<and>
    (st = kIoWait \<longrightarrow> s_wire (cx_ser_message cx) s' \<noteq> [])"
proof (rule s_Send_rule [where I = "\<lambda>s1 r1 w1. s_wf s1 \<and> s_serializable (cx_ser_message cx) s1 \<and>
        w_out w1 @ s_wire (cx_ser_message cx) s1 = w_out w @ s_wire (cx_ser_message cx) s", OF assms(1)])
  fix s1 r1 w1 s2 r2 w2
  assume "s_turn cx enq s1 r1 w1 = (None, s2, r2, w2)"
    and "s_wf s1 \<and> s_serializable (cx_ser_message cx) s1 \<and>
        w_out w1 @ s_wire (cx_ser_message cx) s1 = w_out w @ s_wire (cx_ser_message cx) s"
  then show "s_wf s2 \<and> s_serializable (cx_ser_message cx) s2 \<and>
        w_out w2 @ s_wire (cx_ser_message cx) s2 = w_out w @ s_wire (cx_ser_message cx) s"
    using s_turn_wire [of cx enq s1 r1 w1 None s2 r2 w2] by auto
next
  fix s1 r1 w1 st s2 r2 w2
  assume "s_turn cx enq s1 r1 w1 = (Some st, s2, r2, w2)"
    and "s_wf s1 \<and> s_serializable (cx_ser_message cx) s1 \<and>
        w_out w1 @ s_wire (cx_ser_message cx) s1 = w_out w @ s_wire (cx_ser_message cx) s"
  then show "(st \<noteq> kError \<longrightarrow> w_out w2 @ s_wire (cx_ser_message cx) s2 = w_out w @ s_wire (cx_ser_message cx) s \<and>
       s_serializable (cx_ser_message cx) s2) \<and>
    (\<exists>rest. w_out w2 @ rest = w_out w @ s_wire (cx_ser_message cx) s) \<and>
    (st = kIdle \<longrightarrow> w_out w2 = w_out w @ s_wire (cx_ser_message cx) s) \<and>
    (st = kIoWait \<longrightarrow> s_wire (cx_ser_message cx) s2 \<noteq> [])"
    using s_turn_wire [of cx enq s1 r1 w1 "Some st" s2 r2 w2] by fastforce
qed (use assms in auto)

text \<open>A codec for concrete runs: the parts a run looks at are carried as they are.\<close>

definition example_codec :: codec where
  "example_codec =
     \<lparr>cx_ser_command = (\<lambda>c. [ucast (int64_or_0 (h_sequence (cmd_header c)))]),
      cx_parse_command = (\<lambda>bs. case bs of
         [] \<Rightarrow> None
       | b # _ \<Rightarrow> Some (empty_command\<lparr>
           cmd_header := empty_header\<lparr>h_acksequence := Some (ucast b)\<rparr>,
           cmd_status := \<lparr>os_code = PROTO_SUCCESS, os_statusmessage = ''''\<rparr>\<rparr>)),
      cx_ser_message = (\<lambda>m. Some (msg_commandbytes m)),
      cx_parse_message = (\<lambda>bs. Some (new_message\<lparr>msg_commandbytes := bs\<rparr>)),
      cx_hmac_sha1 = (\<lambda>k d. k @ d)\<rparr>"

definition example_options :: connection_options where
  "example_options =
     \<lparr>co_host = '''', co_port = 8123, co_use_ssl = False, co_user_id = 1, co_hmac_key = [3]\<rparr>"

definition example_sender :: "char list sender" where
  "example_sender =
     s_Enqueue example_codec 7 new_message empty_command [5] ''b'' 2
       (s_Enqueue example_codec 7 new_message empty_command [4] ''a'' 1 (new_sender example_options))"

theorem send_fifo_witness:
  "\<exists>s' w'. s_Send example_codec (\<lambda>h seq key r. (True, r @ [h])) example_sender []
        \<lparr>w_rd = [], w_wr = replicate 8 (Wr_accept 4), w_out = [], w_log = []\<rparr> =
       (kIoWait, s', [''a''], w') \<and>
     w_out w' @ s_wire (cx_ser_message example_codec) s' =
         [70, 0, 0, 0, 1, 0, 0, 0, 1, 0, 4, 70, 0, 0, 0, 1, 0, 0, 0, 1, 1, 5]"
proof -
  let ?enq = "\<lambda>h (seq :: int64) (key :: handler_key) r. (True, r @ [h])"
  let ?w = "\<lparr>w_rd = [], w_wr = replicate 8 (Wr_accept 4), w_out = [], w_log = []\<rparr>"
  have st: "case s_Send example_codec ?enq example_sender [] ?w of (st, s', r', w') \<Rightarrow>
      st = kIoWait \<and> r' = [''a'']"
    by code_simp
  obtain st s' r' w' where run: "s_Send example_codec ?enq example_sender [] ?w = (st, s', r', w')"
    by (metis prod_cases4)
  have "s_wf example_sender" "s_serializable (cx_ser_message example_codec) example_sender"
    by (simp_all add: example_sender_def s_wf_def s_serializable_def s_Enqueue_def new_sender_def
        example_codec_def Let_def)
  from send_fifo [OF run this] st run
  have "w_out w' @ s_wire (cx_ser_message example_codec) s' =
      s_wire (cx_ser_message example_codec) example_sender" by simp
  also have "\<dots> = [70, 0, 0, 0, 1, 0, 0, 0, 1, 0, 4, 70, 0, 0, 0, 1, 0, 0, 0, 1, 1, 5]"
    by code_simp
  finally show ?thesis using st run by auto
qed

section \<open>Enqueueing, removing and destroying\<close>

lemma s_Enqueue_pending [simp]:
  "s_pending (s_Enqueue cx conn m cmd v h key s) = add_mset h (s_pending s)"
  by (simp add: s_Enqueue_def s_pending_def Let_def)

lemma s_Enqueue_wf [simp]: "s_wf (s_Enqueue cx conn m cmd v h key s) = s_wf s"
  by (simp add: s_Enqueue_def s_wf_def Let_def)

text \<open>A new request goes to the end of the wire, signed with the connection's key.\<close>

lemma s_Enqueue_wire:
  "s_wire ser (s_Enqueue cx conn m cmd v h key s) =
     s_wire ser s @
     wire_packet (bytes_or_empty (ser (sign_message cx (s_options s)
        (cx_ser_command cx (finish_command conn (s_sequence_number s) cmd)) m))) v"
  by (simp add: s_Enqueue_def s_wire_def s_packet_def Let_def)

text \<open>
  What the client signs, the drive can verify: a message enqueued for HMAC authentication
  carries the user's identity and an HMAC that passes validation under the connection's key, over
  command bytes that are the serialized command with this connection's id and the next sequence
  number in its header.
\<close>

lemma enqueue_signs:
  assumes "msg_authtype m = HMACAUTH"
  shows "\<exists>rq. s_request_queue (s_Enqueue cx conn m cmd v h key s) = s_request_queue s @ [rq] \<and>
     ValidateHmac (cx_hmac_sha1 cx) (rq_message rq) (co_hmac_key (s_options s)) \<and>
     msg_commandbytes (rq_message rq) = cx_ser_command cx (rq_command rq) \<and>
     h_sequence (cmd_header (rq_command rq)) = Some (s_sequence_number s) \<and>
     h_connectionid (cmd_header (rq_command rq)) = Some conn \<and>
     map_option ha_identity (msg_hmacauth (rq_message rq)) = Some (scast (co_user_id (s_options s))) \<and>
     s_sequence_number (s_Enqueue cx conn m cmd v h key s) = s_sequence_number s + 1"
  using assms
  by (simp add: s_Enqueue_def sign_message_def finish_command_def Let_def ValidateHmac_iff ComputeHmac_def)

lemma remove_request_spec:
  "remove_request key rqs = (b, rqs') \<Longrightarrow>
     (\<not> b \<and> rqs' = rqs \<and> key \<notin> rq_key ` set rqs) \<or>
     (b \<and> (\<exists>xs rq ys. rqs = xs @ rq # ys \<and> rqs' = xs @ ys \<and> rq_key rq = key \<and> key \<notin> rq_key ` set xs))"
proof (induction rqs arbitrary: b rqs')
  case Nil
  then show ?case by simp
next
  case (Cons rq rqs)
  show ?case
  proof (cases "rq_key rq = key")
    case True
    with Cons.prems show ?thesis by (auto intro!: exI [of _ "[]"])
  next
    case False
    obtain b1 r1 where rec: "remove_request key rqs = (b1, r1)" by (cases "remove_request key rqs")
    with False Cons.prems have "b = b1" "rqs' = rq # r1" by auto
    show ?thesis
    proof (cases b)
      case True
      with \<open>b = b1\<close> Cons.IH [OF rec] obtain xs q ys where "rqs = xs @ q # ys" "r1 = xs @ ys"
        "rq_key q = key" "key \<notin> rq_key ` set xs" by auto
      with True False \<open>rqs' = rq # r1\<close> show ?thesis
        by (intro disjI2 conjI exI [of _ "rq # xs"] exI [of _ q] exI [of _ ys]) auto
    next
      case b: False
      with \<open>b = b1\<close> \<open>rqs' = rq # r1\<close> Cons.IH [OF rec] False show ?thesis by auto
    qed
  qed
qed

lemma s_Remove_wf [simp]: "s_Remove key s = (b, s') \<Longrightarrow> s_wf s' = s_wf s"
  by (auto simp: s_Remove_def s_wf_def split: prod.splits)

lemma s_Remove_correct:
  "case s_Remove key s of
     (b, s') \<Rightarrow>
       b = (key \<in> rq_key ` set (s_request_queue s)) \<and>
       s_current_writer s' = s_current_writer s \<and> s_handler s' = s_handler s \<and>
       (if b then \<exists>xs rq ys. s_request_queue s = xs @ rq # ys \<and> s_request_queue s' = xs @ ys \<and>
              rq_key rq = key \<and> key \<notin> rq_key ` set xs \<and>
              s_pending s = add_mset (rq_handler rq) (s_pending s')
        else s' = s)"
proof -
  obtain b rqs where r: "remove_request key (s_request_queue s) = (b, rqs)"
    by (cases "remove_request key (s_request_queue s)")
  show ?thesis
  proof (cases b)
    case False
    with remove_request_spec [OF r] show ?thesis by (simp add: s_Remove_def r)
  next
    case True
    with remove_request_spec [OF r] obtain xs rq ys where q: "s_request_queue s = xs @ rq # ys"
      "rqs = xs @ ys" "rq_key rq = key" "key \<notin> rq_key ` set xs" by auto
    then have "s_pending s = add_mset (rq_handler rq) (s_pending (s\<lparr>s_request_queue := rqs\<rparr>))"
      by (simp add: s_pending_def)
    moreover have "s_Remove key s = (b, s\<lparr>s_request_queue := rqs\<rparr>)" by (simp add: s_Remove_def r)
    ultimately show ?thesis using True q by auto
  qed
qed

text \<open>
  The destructor tells every queued handler exactly once, but not the handler of the request
  that was being written: it is dropped without a callback.
\<close>

lemma sender_destroy_drops_in_flight:
  "called (s_destroy s w) + opt_mset (s_handler s) = called w + s_pending s"
  by (simp add: s_destroy_def s_pending_def comp_def)

end
