(* ===== verification/Receiver.thy ===== *)
theory Receiver
  imports Sender
begin

text \<open>
  \<open>NonblockingReceiver\<close> (\<open>nonblocking_packet_receiver.cc\<close>): the handlers that wait for a response,
  found by the sequence number of their request (\<open>map_\<close>) and by their handler key
  (\<open>handler_to_message_seq_map_\<close>), and the loop that reads responses and dispatches them. A failed
  \<open>CHECK\<close> is the result None or the status \<open>kCrash\<close>; the theorems show that none fails.

  The sender's interface to its receiver is interpreted here on the receiver's own \<open>Enqueue\<close>.
\<close>

section \<open>State and operations of the receiver\<close>

type_synonym 'h wait_entry = "int64 \<times> 'h \<times> handler_key"

record 'h receiver =
  r_options :: connection_options
  r_response :: "packet_reader option"
  r_connection_id :: int64
  r_handler :: "'h option"
  r_message :: message
  r_value :: "bytes option"
  r_map :: "'h wait_entry list"
  r_key_map :: "(handler_key \<times> int64) list"

definition r_Enqueue :: "'h \<Rightarrow> int64 \<Rightarrow> handler_key \<Rightarrow> 'h receiver \<Rightarrow> bool \<times> 'h receiver" where
  "r_Enqueue h seq key r =
     (case um_insert seq (h, key) (r_map r) of
        (False, _) \<Rightarrow> (False, r)
      | (True, m) \<Rightarrow>
          (case um_insert key seq (r_key_map r) of
             (False, _) \<Rightarrow> (False, r\<lparr>r_map := snd (um_erase seq m)\<rparr>)
           | (True, km) \<Rightarrow> (True, r\<lparr>r_map := m, r_key_map := km\<rparr>)))"

text \<open>\<open>CallAllErrorHandlers\<close>: the loop over the map, with its check of the other map.\<close>

fun r_error_loop ::
    "kinetic_status \<Rightarrow> 'h wait_entry list \<Rightarrow> (handler_key \<times> int64) list \<Rightarrow> 'h world
     \<Rightarrow> ((handler_key \<times> int64) list \<times> 'h world) option" where
  "r_error_loop e [] km w = Some (km, w)"
| "r_error_loop e ((seq, h, key) # es) km w =
     (case um_erase key km of
        (n, km') \<Rightarrow> if n = 1 then r_error_loop e es km' (log_call (Errored h e None) w) else None)"

definition r_CallAllErrorHandlers ::
    "kinetic_status \<Rightarrow> 'h receiver \<Rightarrow> 'h world \<Rightarrow> ('h receiver \<times> 'h world) option" where
  "r_CallAllErrorHandlers e r w =
     (let (r1, w1) = (case r_handler r of
             Some h \<Rightarrow> (r\<lparr>r_handler := None\<rparr>, log_call (Errored h e None) w)
           | None \<Rightarrow> (r, w))
      in case r_error_loop e (r_map r1) (r_key_map r1) w1 of
           None \<Rightarrow> None
         | Some (km, w2) \<Rightarrow> Some (r1\<lparr>r_map := [], r_key_map := km\<rparr>, w2))"

definition r_give_up ::
    "service_status \<Rightarrow> kinetic_status \<Rightarrow> 'h receiver \<Rightarrow> 'h world
     \<Rightarrow> service_status option \<times> 'h receiver \<times> 'h world" where
  "r_give_up st e r w =
     (case r_CallAllErrorHandlers e r w of
        None \<Rightarrow> (Some kCrash, r, w)
      | Some (r', w') \<Rightarrow> (Some st, r', w'))"

definition read_error :: kinetic_status where
  "read_error = KineticStatus0 CLIENT_IO_ERROR ''I/O read error''"

definition hmac_error :: kinetic_status where
  "hmac_error = KineticStatus0 CLIENT_RESPONSE_HMAC_VERIFICATION_ERROR ''Response HMAC mismatch''"

definition parse_error :: kinetic_status where
  "parse_error = KineticStatus0 CLIENT_IO_ERROR ''I/O read error parsing proto::Command''"

definition no_ack_error :: kinetic_status where
  "no_ack_error =
     KineticStatus0 PROTOCOL_ERROR_RESPONSE_NO_ACKSEQUENCE ''Response had no acksequence''"

text \<open>The callback that a response leads to.\<close>

definition r_answer :: "'h \<Rightarrow> command \<Rightarrow> bytes option \<Rightarrow> 'h callback" where
  "r_answer h cmd value =
     (if os_code (cmd_status cmd) = PROTO_SUCCESS then Handled h cmd value
      else Errored h
             (GetKineticStatus (ConvertFromProtoStatus (os_code (cmd_status cmd)))
                (int64_or_0 (h_clusterversion (cmd_header cmd)))) (Some cmd))"

text \<open>
  The handler of an acknowledged sequence number is taken out of both maps and called. A success
  moves the value out of the receiver.
\<close>

definition r_call ::
    "int64 \<Rightarrow> command \<Rightarrow> 'h receiver \<Rightarrow> 'h world \<Rightarrow> service_status option \<times> 'h receiver \<times> 'h world" where
  "r_call ack cmd r w =
     (case um_find ack (r_map r) of
        None \<Rightarrow> (None, r, w)
      | Some (h, key) \<Rightarrow>
          let r1 = r\<lparr>r_handler := Some h, r_map := snd (um_erase ack (r_map r))\<rparr> in
          (case um_erase key (r_key_map r1) of
             (n, km) \<Rightarrow>
               let r2 = r1\<lparr>r_key_map := km\<rparr> in
               if n \<noteq> 1 then (Some kCrash, r2, w)
               else (None,
                 r2\<lparr>r_handler := None,
                    r_value := (if os_code (cmd_status cmd) = PROTO_SUCCESS then None else r_value r2)\<rparr>,
                 log_call (r_answer h cmd (r_value r2)) w)))"

text \<open>\<open>command_\<close> is parsed afresh for every response and is not read before that.\<close>

definition r_dispatch ::
    "codec \<Rightarrow> 'h receiver \<Rightarrow> 'h world \<Rightarrow> service_status option \<times> 'h receiver \<times> 'h world" where
  "r_dispatch cx r w =
     (let m = r_message r in
      if msg_hmacauth m \<noteq> None \<and> \<not> ValidateHmac (cx_hmac_sha1 cx) m (co_hmac_key (r_options r))
      then r_give_up kIdle hmac_error r w
      else (case cx_parse_command cx (msg_commandbytes m) of
         None \<Rightarrow> r_give_up kError parse_error r w
       | Some cmd \<Rightarrow>
           let r1 = (case h_connectionid (cmd_header cmd) of
                       Some c \<Rightarrow> r\<lparr>r_connection_id := c\<rparr> | None \<Rightarrow> r);
               cmd1 = (if msg_authtype m = UNSOLICITEDSTATUS
                       then cmd\<lparr>cmd_header := (cmd_header cmd)\<lparr>h_acksequence := Some (- 1)\<rparr>\<rparr>
                       else cmd)
           in case h_acksequence (cmd_header cmd1) of
                None \<Rightarrow> r_give_up kIdle no_ack_error r1 w
              | Some ack \<Rightarrow> r_call ack cmd1 r1 w))"

text \<open>The top of the loop of \<open>Receive\<close>: the reader to go on with. None is an idle receiver.\<close>

definition r_next :: "'h receiver \<Rightarrow> packet_reader option" where
  "r_next r =
     (case r_response r of
        Some pr \<Rightarrow> Some pr
      | None \<Rightarrow> if r_map r = [] then None else Some new_packet_reader)"

definition r_turn ::
    "codec \<Rightarrow> 'h receiver \<Rightarrow> 'h world \<Rightarrow> service_status option \<times> 'h receiver \<times> 'h world" where
  "r_turn cx r w =
     (case r_next r of
        None \<Rightarrow> (Some kIdle, r, w)
      | Some pr \<Rightarrow>
          (case pr_Read (cx_parse_message cx) pr (w_rd w) (r_message r) (r_value r) of
             (st, pr', rd', m', v') \<Rightarrow>
               let r1 = r\<lparr>r_response := Some pr', r_message := m', r_value := v'\<rparr>;
                   w1 = w\<lparr>w_rd := rd'\<rparr>
               in case st of
                    kInProgress \<Rightarrow> (Some kIoWait, r1, w1)
                  | kAbort \<Rightarrow> (Some kCrash, r1, w1)
                  | kFailed \<Rightarrow> r_give_up kError read_error r1 w1
                  | kDone \<Rightarrow> r_dispatch cx (r1\<lparr>r_response := None\<rparr>) w1))"

text \<open>
  The loop ends because a turn that goes round again has taken a whole packet off the script: a
  fresh reader takes at least one byte, and an unfinished one is spent.
\<close>

lemma sr_read_size:
  "sr_read r evs = (st, r', evs') \<Longrightarrow> rd_size evs' \<le> rd_size evs"
proof (induction rule: sr_read_runs)
  case (stop r evs res evs1)
  then show ?case
    using sys_read_size_data [of _ evs _ evs1] sys_read_err_size [of _ evs _ evs1] by (cases res) fastforce+
next
  case (retry r evs evs1 st r' evs')
  with sys_read_err_size [OF retry.hyps(2)] show ?case by auto
next
  case (bytes r evs bs evs1 st r' evs')
  with sys_read_size_data [OF bytes.hyps(2)] show ?case by simp
qed simp_all

lemma pr_Read_size:
  "pr_Read parse r evs resp val = (st, r', evs', resp', val') \<Longrightarrow> rd_size evs' \<le> rd_size evs"
  by (induction rule: pr_Read_runs) (auto dest: sr_read_size)

definition r_load :: "'h receiver \<Rightarrow> 'h world \<Rightarrow> nat" where
  "r_load r w = 2 * rd_size (w_rd w) + (if r_response r = None then 0 else 1)"

lemma r_error_loop_rd: "r_error_loop e es km w = Some (km', w') \<Longrightarrow> w_rd w' = w_rd w"
  by (induction e es km w rule: r_error_loop.induct) (auto split: prod.splits if_splits)

lemma r_dispatch_go_on:
  "r_dispatch cx r w = (None, r', w') \<Longrightarrow> r_response r' = r_response r \<and> w_rd w' = w_rd w"
  by (auto simp: r_dispatch_def r_give_up_def r_call_def Let_def split: if_splits option.splits prod.splits)

text \<open>A packet that was read to its end leaves less to read.\<close>

lemma r_read_load:
  assumes "r_next r = Some pr"
    and rd: "pr_Read (cx_parse_message cx) pr (w_rd w) (r_message r) (r_value r) = (kDone, pr', rd', m', v')"
    and r': "r_response r' = None" "w_rd w' = rd'"
  shows "r_load r' w' < r_load r w"
proof (cases "r_response r")
  case None
  with assms(1) have "pr = new_packet_reader" by (simp add: r_next_def split: if_splits)
  with rd have rd1: "pr_Read (cx_parse_message cx) new_packet_reader (w_rd w) (r_message r) (r_value r)
      = (kDone, pr', rd', m', v')" by simp
  from pr_Read_post [OF rd1 pr_wf_new, simplified] have
    le: "rd_size rd' + length (pr_consumed pr') \<le> rd_size (w_rd w) + length (pr_consumed new_packet_reader)"
    and eq: "pr_consumed pr' @ rd_data rd' = pr_consumed new_packet_reader @ rd_data (w_rd w)" by auto
  obtain m v where "rd_data (w_rd w) = wire_packet m v @ rd_data rd'"
    by (rule pr_Read_fresh_done [OF rd1])
  moreover have new: "pr_consumed new_packet_reader = []" by (simp add: pr_consumed_def new_packet_reader_def)
  ultimately have "0 < length (pr_consumed pr')" using eq by (cases "pr_consumed pr'") (auto simp: wire_packet_def)
  then have "rd_size rd' < rd_size (w_rd w)" using le unfolding new list.size(3) by linarith
  with None r' show ?thesis by (simp add: r_load_def)
next
  case (Some a)
  with pr_Read_size [OF rd] r' show ?thesis by (simp add: r_load_def)
qed

lemma r_turn_load:
  assumes "r_turn cx r w = (None, r', w')"
  shows "r_load r' w' < r_load r w"
proof -
  obtain pr where n: "r_next r = Some pr" using assms by (cases "r_next r") (auto simp: r_turn_def)
  obtain st pr' rd' m' v' where rd: "pr_Read (cx_parse_message cx) pr (w_rd w) (r_message r) (r_value r)
      = (st, pr', rd', m', v')"
    by (metis prod_cases5)
  have st: "st = kDone" using assms n rd
    by (cases st) (auto simp: r_turn_def r_give_up_def Let_def split: option.splits)
  let ?r = "r\<lparr>r_message := m', r_value := v', r_response := None\<rparr>"
  have d: "r_dispatch cx ?r (w\<lparr>w_rd := rd'\<rparr>) = (None, r', w')"
    using assms n rd st by (simp add: r_turn_def)
  from r_dispatch_go_on [OF d] show ?thesis by (intro r_read_load [OF n rd [unfolded st]]) simp_all
qed

function r_Receive :: "codec \<Rightarrow> 'h receiver \<Rightarrow> 'h world \<Rightarrow> service_status \<times> 'h receiver \<times> 'h world" where
  "r_Receive cx r w =
     (case r_turn cx r w of
        (Some st, r', w') \<Rightarrow> (st, r', w')
      | (None, r', w') \<Rightarrow> r_Receive cx r' w')"
  by pat_completeness auto
termination
  by (relation "measure (\<lambda>(cx, r, w). r_load r w)") (auto dest!: r_turn_load [OF sym])

declare r_Receive.simps [simp del]

definition connection_id :: "'h receiver \<Rightarrow> int64" where
  "connection_id r = r_connection_id r"

text \<open>\<open>Remove\<close>: forget the handler of a key that waits for its response, without calling it.\<close>

definition r_Remove :: "handler_key \<Rightarrow> 'h receiver \<Rightarrow> (bool \<times> 'h receiver) option" where
  "r_Remove key r =
     (case um_find key (r_key_map r) of
        None \<Rightarrow> Some (False, r)
      | Some seq \<Rightarrow>
          let r1 = r\<lparr>r_key_map := snd (um_erase key (r_key_map r))\<rparr> in
          (case um_find seq (r_map r1) of
             None \<Rightarrow> None
           | Some (h, key') \<Rightarrow>
               if key' \<noteq> key then None
               else Some (True, r1\<lparr>r_map := snd (um_erase seq (r_map r1))\<rparr>)))"

definition receiver_shutdown :: kinetic_status where
  "receiver_shutdown = KineticStatus0 CLIENT_SHUTDOWN ''Receiver shutdown''"

definition r_destroy :: "'h receiver \<Rightarrow> 'h world \<Rightarrow> 'h world option" where
  "r_destroy r w = map_option snd (r_CallAllErrorHandlers receiver_shutdown (r\<lparr>r_response := None\<rparr>) w)"

section \<open>Construction and handshake\<close>

text \<open>
  The constructor enqueues a handler of its own under sequence number and key -1 and receives until
  that handler was called, which is when the drive's first, unsolicited message has arrived. The
  clock and the bytes that arrive between two calls of \<open>Receive\<close> are the script of the loop; when
  it is used up, the constructor is still waiting.
\<close>

datatype hs_handler = Handshake

definition initial_receiver :: "connection_options \<Rightarrow> hs_handler receiver" where
  "initial_receiver opts =
     \<lparr>r_options = opts, r_response = None, r_connection_id = 0, r_handler = None,
      r_message = new_message, r_value = None,
      r_map = [(- 1, Handshake, - 1)], r_key_map = [(- 1, - 1)]\<rparr>"

definition hh_done :: "hs_handler world \<Rightarrow> bool" where
  "hh_done w = (w_log w \<noteq> [])"

fun is_Handled :: "'h callback \<Rightarrow> bool" where
  "is_Handled (Handled _ _ _) = True"
| "is_Handled (Errored _ _ _) = False"

definition hh_success :: "hs_handler world \<Rightarrow> bool" where
  "hh_success w = list_ex is_Handled (w_log w)"

datatype hs_result =
    HS_ready "hs_handler receiver" "hs_handler world"
  | HS_exception string   \<comment> \<open>\<open>std::runtime_error\<close>\<close>
  | HS_waiting "hs_handler receiver" "hs_handler world"
  | HS_crash

definition hs_finish :: "hs_handler receiver \<Rightarrow> hs_handler world \<Rightarrow> hs_result" where
  "hs_finish r w =
     (if hh_success w then HS_ready r w else HS_exception ''Could not complete handshake.'')"

fun hs_loop ::
    "codec \<Rightarrow> int \<Rightarrow> (rd_event list \<times> int) list \<Rightarrow> hs_handler receiver \<Rightarrow> hs_handler world \<Rightarrow> hs_result" where
  "hs_loop cx start [] r w = HS_waiting r w"
| "hs_loop cx start ((arrivals, now) # rounds) r w =
     (case r_Receive cx r (w\<lparr>w_rd := w_rd w @ arrivals\<rparr>) of
        (st, r', w') \<Rightarrow>
          if st = kCrash then HS_crash
          else if st = kError then hs_finish r' w'
          else if hh_done w' then hs_finish r' w'
          else if now - start > 30 then hs_finish r' w'
          else hs_loop cx start rounds r' w')"

definition NonblockingReceiver ::
    "codec \<Rightarrow> connection_options \<Rightarrow> int \<Rightarrow> (rd_event list \<times> int) list \<Rightarrow> hs_result" where
  "NonblockingReceiver cx opts start rounds =
     hs_loop cx start rounds (initial_receiver opts) \<lparr>w_rd = [], w_wr = [], w_out = [], w_log = []\<rparr>"

text \<open>
  After the handshake no handler of the constructor is left (see \<open>handshake_ready\<close>), and the same
  receiver goes on with the handlers of the connection.
\<close>

definition r_after_handshake :: "hs_handler receiver \<Rightarrow> 'h receiver" where
  "r_after_handshake r =
     \<lparr>r_options = r_options r, r_response = r_response r, r_connection_id = r_connection_id r,
      r_handler = None, r_message = r_message r, r_value = r_value r, r_map = [], r_key_map = []\<rparr>"

section \<open>The two maps agree\<close>

definition entry_key :: "'h wait_entry \<Rightarrow> handler_key" where
  "entry_key e = snd (snd e)"

definition r_maps_ok :: "'h receiver \<Rightarrow> bool" where
  "r_maps_ok r \<longleftrightarrow>
     um_wf (r_map r) \<and> um_wf (r_key_map r) \<and> distinct (map entry_key (r_map r)) \<and>
     set (r_key_map r) = (\<lambda>e. (entry_key e, fst e)) ` set (r_map r) \<and> r_handler r = None"

definition r_live :: "'h receiver \<Rightarrow> bool" where
  "r_live r \<longleftrightarrow> (\<forall>pr. r_response r = Some pr \<longrightarrow> pr_wf pr \<and> pr_state pr \<noteq> kFinished)"

definition r_pending :: "'h receiver \<Rightarrow> 'h multiset" where
  "r_pending r = opt_mset (r_handler r) + mset (map (\<lambda>e. fst (snd e)) (r_map r))"

lemma r_maps_ok_io [simp]:
  "r_maps_ok (r\<lparr>r_response := a\<rparr>) = r_maps_ok r" "r_maps_ok (r\<lparr>r_message := b\<rparr>) = r_maps_ok r"
  "r_maps_ok (r\<lparr>r_value := c\<rparr>) = r_maps_ok r" "r_maps_ok (r\<lparr>r_connection_id := d\<rparr>) = r_maps_ok r"
  "r_pending (r\<lparr>r_response := a\<rparr>) = r_pending r" "r_pending (r\<lparr>r_message := b\<rparr>) = r_pending r"
  "r_pending (r\<lparr>r_value := c\<rparr>) = r_pending r" "r_pending (r\<lparr>r_connection_id := d\<rparr>) = r_pending r"
  by (simp_all add: r_maps_ok_def r_pending_def)

lemma r_maps_ok_empty [simp]:
  "r_maps_ok (r_after_handshake r)" "r_pending (r_after_handshake r) = {#}" "r_maps_ok (initial_receiver opts)"
  by (simp_all add: r_maps_ok_def r_pending_def r_after_handshake_def initial_receiver_def um_wf_def
      entry_key_def)

text \<open>What the agreement gives for one entry.\<close>

lemma r_maps_ok_entry:
  assumes "r_maps_ok r" and "um_find seq (r_map r) = Some (h, key)"
  shows "um_find key (r_key_map r) = Some seq"
    and "r_maps_ok (r\<lparr>r_map := snd (um_erase seq (r_map r)), r_key_map := snd (um_erase key (r_key_map r))\<rparr>)"
    and "mset (r_map r) = add_mset (seq, h, key) (mset (snd (um_erase seq (r_map r))))"
proof -
  from assms have wf: "um_wf (r_map r)" "um_wf (r_key_map r)" and d: "distinct (map entry_key (r_map r))"
    and eq: "set (r_key_map r) = (\<lambda>e. (entry_key e, fst e)) ` set (r_map r)" and hn: "r_handler r = None"
    by (auto simp: r_maps_ok_def)
  have m: "(seq, h, key) \<in> set (r_map r)" using assms(2) by (rule um_find_in_set)
  then have "(key, seq) \<in> set (r_key_map r)" unfolding eq by (force simp: entry_key_def)
  with wf show "um_find key (r_key_map r) = Some seq" by (simp add: um_find_Some_iff)
  show "mset (r_map r) = add_mset (seq, h, key) (mset (snd (um_erase seq (r_map r))))"
    by (rule um_erase_mset [OF wf(1) assms(2)])
  have one: "e \<in> set (r_map r) \<Longrightarrow> entry_key e = key \<longleftrightarrow> fst e = seq" for e
  proof -
    assume e: "e \<in> set (r_map r)"
    have k: "entry_key e = key \<Longrightarrow> e = (seq, h, key)"
      using d e m unfolding distinct_map by (metis entry_key_def inj_onD snd_conv)
    have f: "fst e = seq \<Longrightarrow> e = (seq, h, key)"
      using wf(1) e m unfolding um_wf_def by (metis distinct_map fst_conv inj_onD)
    show ?thesis using k f by (metis entry_key_def fst_conv snd_conv)
  qed
  have "set (snd (um_erase key (r_key_map r))) =
      (\<lambda>e. (entry_key e, fst e)) ` set (snd (um_erase seq (r_map r)))"
  proof -
    have "{x \<in> (\<lambda>e. (entry_key e, fst e)) ` S. fst x \<noteq> key} =
        (\<lambda>e. (entry_key e, fst e)) ` {e \<in> S. entry_key e \<noteq> key}" for S :: "'a wait_entry set"
      by (simp only: Compr_image_eq fst_conv)
    moreover have "{e \<in> set (r_map r). entry_key e \<noteq> key} = {e \<in> set (r_map r). fst e \<noteq> seq}"
      by (intro Collect_cong conj_cong refl arg_cong [where f = Not] one)
    ultimately show ?thesis unfolding um_erase_set eq by simp
  qed
  then show "r_maps_ok (r\<lparr>r_map := snd (um_erase seq (r_map r)), r_key_map := snd (um_erase key (r_key_map r))\<rparr>)"
    using wf d hn by (simp add: r_maps_ok_def um_erase_wf) (simp add: um_erase_def distinct_map_filter)
qed

lemma r_Enqueue_accepts:
  assumes "r_maps_ok r" and "r_Enqueue h seq key r = (True, r')"
  shows "r_maps_ok r' \<and> r_pending r' = add_mset h (r_pending r) \<and>
    r_map r' = r_map r @ [(seq, h, key)] \<and> r_response r' = r_response r"
proof -
  from assms(2) have n: "um_find seq (r_map r) = None" "um_find key (r_key_map r) = None"
    and r': "r' = r\<lparr>r_map := r_map r @ [(seq, h, key)], r_key_map := r_key_map r @ [(key, seq)]\<rparr>"
    by (auto simp: r_Enqueue_def um_insert_def split: if_splits)
  have "key \<notin> entry_key ` set (r_map r)"
    using n(2) assms(1) by (force simp: um_find_None_iff r_maps_ok_def)
  with n assms(1) show ?thesis
    by (auto simp: r' r_maps_ok_def um_wf_def um_find_None_iff r_pending_def entry_key_def)
qed

text \<open>A refused handler leaves no trace: the entry just put in the first map is taken out again.\<close>

lemma r_Enqueue_rejects:
  assumes "r_maps_ok r" and "r_Enqueue h seq key r = (False, r')"
  shows "r' = r"
proof -
  have "um_find seq (r_map r) = None \<Longrightarrow> snd (um_erase seq (r_map r @ [(seq, h, key)])) = r_map r"
    by (force simp: um_erase_def um_find_None_iff intro!: filter_True)
  with assms show ?thesis by (auto simp: r_Enqueue_def um_insert_def split: if_splits)
qed

lemma r_Enqueue_True_iff:
  "r_maps_ok r \<Longrightarrow> fst (r_Enqueue h seq key r) \<longleftrightarrow>
     seq \<notin> fst ` set (r_map r) \<and> key \<notin> entry_key ` set (r_map r)"
  by (auto simp: r_Enqueue_def um_insert_def um_find_None_iff r_maps_ok_def image_image
      split: if_splits prod.splits)

interpretation recv: receiver_interface r_Enqueue r_pending r_maps_ok
  by unfold_locales (auto dest: r_Enqueue_accepts r_Enqueue_rejects)

section \<open>Calling every handler\<close>

definition error_calls :: "kinetic_status \<Rightarrow> 'h wait_entry list \<Rightarrow> 'h callback list" where
  "error_calls e es = map (\<lambda>(seq, h, key). Errored h e None) es"

lemma error_calls_handlers [simp]:
  "image_mset cb_handler (mset (error_calls e es)) = image_mset (\<lambda>e. fst (snd e)) (mset es)"
  by (induction es) (auto simp: error_calls_def)

lemma r_error_loop_ok:
  assumes "distinct (map entry_key es)" and "um_wf km" and "\<forall>x \<in> set es. entry_key x \<in> fst ` set km"
  shows "\<exists>km'. r_error_loop e es km w = Some (km', log_calls (error_calls e es) w) \<and>
    set km' = {x \<in> set km. fst x \<notin> entry_key ` set es}"
  using assms
proof (induction es arbitrary: km w)
  case Nil
  then show ?case by (simp add: log_calls_def error_calls_def)
next
  case (Cons x es)
  obtain seq h key where x: "x = (seq, h, key)" by (cases x)
  have key: "um_find key km \<noteq> None" using Cons.prems(3) x by (auto simp: um_find_None_iff entry_key_def)
  obtain km1 where km1: "um_erase key km = (1, km1)" using key by (simp add: um_erase_def)
  have s1: "set km1 = {y \<in> set km. fst y \<noteq> key}" using um_erase_set [of key km] km1 by simp
  have "um_wf km1" using um_erase_wf [OF Cons.prems(2), of key] km1 by simp
  moreover have "\<forall>y \<in> set es. entry_key y \<in> fst ` set km1"
  proof
    fix y assume y: "y \<in> set es"
    then have "entry_key y \<noteq> key" using Cons.prems(1) x by (force simp: entry_key_def)
    moreover have "entry_key y \<in> fst ` set km" using Cons.prems(3) y by simp
    ultimately show "entry_key y \<in> fst ` set km1" unfolding s1 by force
  qed
  ultimately obtain km2 where rec:
      "r_error_loop e es km1 (log_call (Errored h e None) w) =
         Some (km2, log_calls (error_calls e es) (log_call (Errored h e None) w))"
    and s2: "set km2 = {y \<in> set km1. fst y \<notin> entry_key ` set es}"
    using Cons.IH [of km1 "log_call (Errored h e None) w"] Cons.prems(1) by auto
  have "set km2 = {y \<in> set km. fst y \<notin> entry_key ` set (x # es)}"
    using s1 s2 x by (auto simp: entry_key_def)
  moreover have "log_calls (error_calls e es) (log_call (Errored h e None) w) =
      log_calls (error_calls e (x # es)) w"
    by (simp add: log_calls_def log_call_def error_calls_def x)
  ultimately show ?case using rec km1 x by simp
qed

lemma r_CallAll_ok:
  assumes "r_maps_ok r"
  shows "r_CallAllErrorHandlers e r w =
     Some (r\<lparr>r_map := [], r_key_map := []\<rparr>, log_calls (error_calls e (r_map r)) w)"
proof -
  from assms have d: "distinct (map entry_key (r_map r))" "um_wf (r_key_map r)"
    and eq: "set (r_key_map r) = (\<lambda>e. (entry_key e, fst e)) ` set (r_map r)"
    and h: "r_handler r = None" by (auto simp: r_maps_ok_def)
  have "\<forall>x \<in> set (r_map r). entry_key x \<in> fst ` set (r_key_map r)" unfolding eq by force
  from r_error_loop_ok [OF d this, of e w] obtain km where
    km: "r_error_loop e (r_map r) (r_key_map r) w = Some (km, log_calls (error_calls e (r_map r)) w)"
    "set km = {x \<in> set (r_key_map r). fst x \<notin> entry_key ` set (r_map r)}" by blast
  have "set km = {}" unfolding km(2) eq by auto
  then have "km = []" by simp
  with km h show ?thesis by (simp add: r_CallAllErrorHandlers_def)
qed

lemma r_give_up_ok:
  "r_maps_ok r \<Longrightarrow> r_give_up st e r w =
     (Some st, r\<lparr>r_map := [], r_key_map := []\<rparr>, log_calls (error_calls e (r_map r)) w)"
  by (simp add: r_give_up_def r_CallAll_ok)

lemma r_maps_ok_cleared [simp]:
  "r_maps_ok r \<Longrightarrow> r_maps_ok (r\<lparr>r_map := [], r_key_map := []\<rparr>)"
  by (simp add: r_maps_ok_def)

lemma r_pending_cleared:
  "r_maps_ok r \<Longrightarrow>
    r_pending (r\<lparr>r_map := [], r_key_map := []\<rparr>) = {#} \<and>
    r_pending r = mset (map (\<lambda>e. fst (snd e)) (r_map r))"
  by (simp add: r_maps_ok_def r_pending_def)

lemma r_call_ok:
  assumes "r_maps_ok r"
  shows "r_call ack cmd r w =
     (case um_find ack (r_map r) of
        None \<Rightarrow> (None, r, w)
      | Some (h, key) \<Rightarrow>
          (None, r\<lparr>r_map := snd (um_erase ack (r_map r)), r_key_map := snd (um_erase key (r_key_map r)),
             r_value := (if os_code (cmd_status cmd) = PROTO_SUCCESS then None else r_value r)\<rparr>,
           log_call (r_answer h cmd (r_value r)) w))"
proof (cases "um_find ack (r_map r)")
  case None
  then show ?thesis by (simp add: r_call_def)
next
  case (Some a)
  obtain h key where a: "a = (h, key)" by (cases a)
  from r_maps_ok_entry(1) [OF assms Some [unfolded a]] have "um_find key (r_key_map r) = Some ack" .
  then obtain km where "um_erase key (r_key_map r) = (1, km)" by (simp add: um_erase_def)
  moreover have "r_handler r = None" using assms by (simp add: r_maps_ok_def)
  ultimately show ?thesis by (simp add: r_call_def Some a)
qed

lemma cb_handler_r_answer [simp]: "cb_handler (r_answer h cmd v) = h"
  by (simp add: r_answer_def)

lemma r_call_conserves:
  assumes "r_call ack cmd r w = (res, r', w')" and "r_maps_ok r"
  shows "res = None \<and> r_maps_ok r' \<and> r_pending r' + called w' = r_pending r + called w \<and>
     r_response r' = r_response r"
proof (cases "um_find ack (r_map r)")
  case None
  with assms show ?thesis by (simp add: r_call_ok)
next
  case (Some a)
  obtain h key where a: "a = (h, key)" by (cases a)
  note e = r_maps_ok_entry [OF assms(2) Some [unfolded a]]
  from assms e(2) show ?thesis
    by (auto simp: r_call_ok Some a r_pending_def e(3))
qed

section \<open>Receiving\<close>

lemma r_dispatch_conserves:
  assumes "r_dispatch cx r w = (res, r', w')" and "r_maps_ok r"
  shows "r_maps_ok r' \<and> r_pending r' + called w' = r_pending r + called w \<and> res \<noteq> Some kCrash \<and>
    res \<noteq> Some kIoWait \<and> (res \<noteq> None \<longrightarrow> r_pending r' = {#}) \<and> r_response r' = r_response r"
proof -
  have give: "r_give_up st e q w = (res, r', w') \<Longrightarrow> r_maps_ok q \<Longrightarrow> r_maps_ok r' \<and> res = Some st \<and>
      r_pending r' + called w' = r_pending q + called w \<and> r_pending r' = {#} \<and> r_response r' = r_response q"
    for st e q
    by (auto simp: r_give_up_ok r_pending_cleared)
  define r1 where "r1 = (\<lambda>cmd. case h_connectionid (cmd_header cmd) of
      Some c \<Rightarrow> r\<lparr>r_connection_id := c\<rparr> | None \<Rightarrow> r)"
  have r1: "r_maps_ok (r1 cmd) \<and> r_pending (r1 cmd) = r_pending r \<and> r_response (r1 cmd) = r_response r" for cmd
    using assms(2) by (simp add: r1_def split: option.splits)
  show ?thesis
    using assms unfolding r_dispatch_def r1_def [symmetric]
    by (auto simp: Let_def r1 split: if_splits option.splits dest!: give r_call_conserves)
qed

lemma r_turn_conserves:
  assumes "r_turn cx r w = (res, r', w')" and "r_maps_ok r" and "r_live r"
  shows "r_maps_ok r' \<and> r_pending r' + called w' = r_pending r + called w \<and> res \<noteq> Some kCrash \<and>
    (res \<noteq> Some kError \<longrightarrow> r_live r') \<and> (res = Some kIdle \<or> res = Some kError \<longrightarrow> r_pending r' = {#})"
proof (cases "r_next r")
  case None
  with assms show ?thesis
    by (auto simp: r_turn_def r_next_def r_pending_def r_maps_ok_def split: option.splits if_splits)
next
  case (Some pr)
  have wf: "pr_wf pr" "pr_state pr \<noteq> kFinished"
    using Some assms(3) by (auto simp: r_next_def r_live_def split: option.splits if_splits)
  obtain st pr' rd' m' v' where rd: "pr_Read (cx_parse_message cx) pr (w_rd w) (r_message r) (r_value r)
      = (st, pr', rd', m', v')"
    by (metis prod_cases5)
  have post: "st \<noteq> kAbort \<and> (st = kInProgress \<longrightarrow> pr_wf pr' \<and> pr_state pr' \<noteq> kFinished)"
    using pr_Read_post [OF rd wf(1)] wf(2) by auto
  let ?r = "r\<lparr>r_response := Some pr', r_message := m', r_value := v'\<rparr>" and ?w = "w\<lparr>w_rd := rd'\<rparr>"
  have ok: "r_maps_ok ?r" "r_maps_ok (?r\<lparr>r_response := None\<rparr>)" using assms(2) by simp_all
  show ?thesis
  proof (cases st)
    case kInProgress
    with assms Some rd post show ?thesis by (auto simp: r_turn_def r_live_def)
  next
    case kFailed
    then have "r_give_up kError read_error ?r ?w = (res, r', w')"
      using assms(1) Some rd by (simp add: r_turn_def Let_def)
    with ok(1) show ?thesis by (auto simp: r_give_up_ok r_pending_cleared)
  next
    case kDone
    then have "r_dispatch cx (?r\<lparr>r_response := None\<rparr>) ?w = (res, r', w')"
      using assms(1) Some rd by (simp add: r_turn_def Let_def)
    from r_dispatch_conserves [OF this ok(2)] show ?thesis by (auto simp: r_live_def)
  qed (use post in simp)
qed

text \<open>The loop rule of \<open>Receive\<close>.\<close>

lemma r_Receive_rule:
  assumes "r_Receive cx r w = (st, r', w')" and "I r w"
    and "\<And>r w r1 w1. r_turn cx r w = (None, r1, w1) \<Longrightarrow> I r w \<Longrightarrow> I r1 w1"
    and "\<And>r w st r1 w1. r_turn cx r w = (Some st, r1, w1) \<Longrightarrow> I r w \<Longrightarrow> Q st r1 w1"
  shows "Q st r' w'"
  using assms
proof (induction cx r w rule: r_Receive.induct)
  case (1 cx r w)
  obtain res r1 w1 where turn: "r_turn cx r w = (res, r1, w1)" by (metis prod_cases3)
  show ?case
  proof (cases res)
    case None
    with turn "1.prems"(1) have "r_Receive cx r1 w1 = (st, r', w')"
      by (simp add: r_Receive.simps [of cx r w])
    moreover have "I r1 w1" using turn None "1.prems"(2,3) by blast
    ultimately show ?thesis using "1.IH" [OF turn [symmetric] None refl] "1.prems"(3,4) by blast
  next
    case (Some x)
    with turn "1.prems"(1) have "r_turn cx r w = (Some st, r', w')"
      by (simp add: r_Receive.simps [of cx r w])
    with "1.prems"(2,4) show ?thesis by blast
  qed
qed

lemma r_Receive_conserves:
  assumes "r_Receive cx r w = (st, r', w')" and "r_maps_ok r" and "r_live r"
  shows "r_pending r' + called w' = r_pending r + called w \<and> st \<noteq> kCrash \<and> r_maps_ok r' \<and>
    (st \<noteq> kError \<longrightarrow> r_live r') \<and> (st \<noteq> kIoWait \<longrightarrow> r_pending r' = {#})"
proof (rule r_Receive_rule [where I = "\<lambda>r1 w1. r_pending r1 + called w1 = r_pending r + called w \<and>
        r_maps_ok r1 \<and> r_live r1", OF assms(1)])
  fix r1 w1 r2 w2
  assume "r_turn cx r1 w1 = (None, r2, w2)"
    and "r_pending r1 + called w1 = r_pending r + called w \<and> r_maps_ok r1 \<and> r_live r1"
  then show "r_pending r2 + called w2 = r_pending r + called w \<and> r_maps_ok r2 \<and> r_live r2"
    using r_turn_conserves [of cx r1 w1 None r2 w2] by auto
next
  fix r1 w1 st r2 w2
  assume "r_turn cx r1 w1 = (Some st, r2, w2)"
    and "r_pending r1 + called w1 = r_pending r + called w \<and> r_maps_ok r1 \<and> r_live r1"
  then show "r_pending r2 + called w2 = r_pending r + called w \<and> st \<noteq> kCrash \<and> r_maps_ok r2 \<and>
    (st \<noteq> kError \<longrightarrow> r_live r2) \<and> (st \<noteq> kIoWait \<longrightarrow> r_pending r2 = {#})"
    using r_turn_conserves [of cx r1 w1 "Some st" r2 w2] by (cases st) auto
qed (use assms in auto)

section \<open>Responses and their handlers\<close>

text \<open>
  The abstract view of receiving: responses are matched with the handlers that wait, in the order
  in which they arrive, until nobody waits any more. A response to an unknown sequence number is
  skipped.
\<close>

fun r_spec :: "'h wait_entry list \<Rightarrow> (command \<times> bytes) list \<Rightarrow> 'h callback list \<times> 'h wait_entry list" where
  "r_spec m [] = ([], m)"
| "r_spec m ((cmd, v) # rs) =
     (if m = [] then ([], []) else
      case um_find (int64_or_0 (h_acksequence (cmd_header cmd))) m of
        None \<Rightarrow> r_spec m rs
      | Some (h, key) \<Rightarrow>
          (case r_spec (snd (um_erase (int64_or_0 (h_acksequence (cmd_header cmd))) m)) rs of
             (cs, m') \<Rightarrow> (r_answer h cmd (Some v) # cs, m')))"

text \<open>
  The response that a packet carries, when it can be read, its HMAC (if any) is right and it says
  what it acknowledges.
\<close>

definition packet_response :: "codec \<Rightarrow> bytes \<Rightarrow> bytes \<Rightarrow> command option" where
  "packet_response cx key m =
     (case cx_parse_message cx m of
        None \<Rightarrow> None
      | Some M \<Rightarrow>
          if msg_hmacauth M \<noteq> None \<and> \<not> ValidateHmac (cx_hmac_sha1 cx) M key then None
          else (case cx_parse_command cx (msg_commandbytes M) of
              None \<Rightarrow> None
            | Some cmd \<Rightarrow>
                if msg_authtype M = UNSOLICITEDSTATUS
                then Some (cmd\<lparr>cmd_header := (cmd_header cmd)\<lparr>h_acksequence := Some (- 1)\<rparr>\<rparr>)
                else if h_acksequence (cmd_header cmd) = None then None else Some cmd))"

text \<open>A prompt script holds only data and interrupted calls: everything has already arrived.\<close>

fun rd_prompt_event :: "rd_event \<Rightarrow> bool" where
  "rd_prompt_event (Rd_bytes bs) \<longleftrightarrow> bs \<noteq> []"
| "rd_prompt_event (Rd_err e) \<longleftrightarrow> e = EINTR"

definition rd_prompt :: "rd_event list \<Rightarrow> bool" where
  "rd_prompt evs \<longleftrightarrow> list_all rd_prompt_event evs"

lemma rd_prompt_benign: "rd_prompt evs \<Longrightarrow> rd_benign evs"
  unfolding rd_prompt_def rd_benign_def by (erule list.pred_mono_strong) (auto elim: rd_prompt_event.elims)

lemma sys_read_prompt:
  "sys_read n evs = (res, evs') \<Longrightarrow> rd_prompt evs \<Longrightarrow>
     rd_prompt evs' \<and> (\<forall>e. res = Inl e \<longrightarrow> e = EINTR \<or> evs' = [])"
  by (induction n evs rule: sys_read.induct) (auto simp: rd_prompt_def split: if_splits)

lemma sr_read_prompt:
  "sr_read r evs = (st, r', evs') \<Longrightarrow> rd_prompt evs \<Longrightarrow> rd_prompt evs' \<and> (st = kInProgress \<longrightarrow> evs' = [])"
proof (induction rule: sr_read_runs)
  case (stop r evs res evs1)
  with sys_read_prompt [OF stop.hyps(2)] show ?case by auto
next
  case (retry r evs evs1 st r' evs')
  with sys_read_prompt [OF retry.hyps(2)] show ?case by simp
next
  case (bytes r evs bs evs1 st r' evs')
  with sys_read_prompt [OF bytes.hyps(2)] show ?case by simp
qed simp_all

lemma pr_transition_not_waiting:
  "pr_transition parse r resp = (Some st, r', resp') \<Longrightarrow> st \<noteq> kInProgress"
  by (auto simp: pr_transition_def pr_transition_defs split: packet_state.splits option.splits if_splits)

lemma pr_Read_prompt:
  "pr_Read parse r evs resp val = (st, r', evs', resp', val') \<Longrightarrow> rd_prompt evs \<Longrightarrow>
     rd_prompt evs' \<and> (st = kInProgress \<longrightarrow> evs' = [])"
  by (induction rule: pr_Read_runs) (auto dest!: sr_read_prompt pr_transition_not_waiting)

lemma pr_Read_whole:
  assumes "rd_prompt evs" and "rd_data evs = wire_packet m v @ rest" and "parse m = Some M"
    and "length m < 2 ^ 32" "length v < 2 ^ 32"
  shows "\<exists>r' evs'. pr_Read parse new_packet_reader evs resp val = (kDone, r', evs', M, Some v) \<and>
    rd_data evs' = rest \<and> rd_prompt evs'"
proof -
  obtain st r' evs' resp' val' where rd: "pr_Read parse new_packet_reader evs resp val = (st, r', evs', resp', val')"
    by (metis prod_cases5)
  note p = pr_Read_prompt [OF rd assms(1)]
  have ex: "pr_expects parse m v rest new_packet_reader evs"
    using assms(1,2) by (simp add: pr_expects_def rd_prompt_benign)
  have nf: "st \<noteq> kFailed" using pr_Read_expected [OF rd ex assms(3-5)] by simp
  note post = pr_Read_post [OF rd pr_wf_new, simplified]
  have "st \<noteq> kInProgress"
  proof
    assume st: "st = kInProgress"
    with p have "evs' = []" by simp
    then have eq: "pr_consumed r' = wire_packet m v @ rest" using post assms(2) by auto
    have "pr_wf r'" "pr_state r' \<noteq> kFinished" "length (sr_buf (pr_reader r')) < sr_size (pr_reader r')"
      using post st by auto
    from pr_waiting_has_more [OF this eq assms(4,5)] show False .
  qed
  with nf post have st: "st = kDone" by (cases st) auto
  obtain m' v' where w: "rd_data evs = wire_packet m' v' @ rd_data evs'" "parse m' = Some resp'"
      "val' = Some v'" "length m' < 2 ^ 32" "length v' < 2 ^ 32"
    by (rule pr_Read_fresh_done [OF rd [unfolded st]])
  have "wire_packet m' v' @ rd_data evs' = wire_packet m v @ rest" using w(1) assms(2) by simp
  from wire_packet_inject [OF this w(4,5) assms(4,5)] w assms(3) rd st p show ?thesis by auto
qed

lemma pr_Read_nothing:
  assumes "rd_prompt evs" and "rd_data evs = []"
  shows "\<exists>r' evs'. pr_Read parse new_packet_reader evs resp val = (kInProgress, r', evs', resp, val)"
proof -
  have "\<exists>sr. sr_read (new_string_reader (Suc 0)) evs = (kInProgress, sr, [])"
    using assms
  proof (induction evs)
    case Nil
    then show ?case by (simp add: sr_read.simps [of "new_string_reader (Suc 0)"])
  next
    case (Cons e evs)
    then have "e = Rd_err EINTR" by (cases e) (auto simp: rd_prompt_def)
    with Cons show ?case
      by (simp add: sr_read.simps [of "new_string_reader (Suc 0)" "Rd_err EINTR # evs"] rd_prompt_def)
  qed
  then obtain sr where "sr_read (pr_reader new_packet_reader) evs = (kInProgress, sr, [])"
    by (auto simp: new_packet_reader_def)
  then show ?thesis by (simp add: pr_Read.simps [of parse new_packet_reader])
qed

lemma r_dispatch_response:
  assumes "r_maps_ok r" and "cx_parse_message cx m = Some (r_message r)"
    and "packet_response cx (co_hmac_key (r_options r)) m = Some cmd"
  shows "\<exists>c. r_dispatch cx r w =
    r_call (int64_or_0 (h_acksequence (cmd_header cmd))) cmd (r\<lparr>r_connection_id := c\<rparr>) w"
proof -
  obtain raw where raw: "cx_parse_command cx (msg_commandbytes (r_message r)) = Some raw"
    using assms by (auto simp: packet_response_def split: if_splits option.splits)
  have "\<exists>c. (case h_connectionid (cmd_header raw) of None \<Rightarrow> r | Some c \<Rightarrow> r\<lparr>r_connection_id := c\<rparr>) =
      r\<lparr>r_connection_id := c\<rparr>"
    by (cases "h_connectionid (cmd_header raw)") (auto intro: exI [of _ "r_connection_id r"])
  then obtain c where c: "(case h_connectionid (cmd_header raw) of None \<Rightarrow> r
      | Some c \<Rightarrow> r\<lparr>r_connection_id := c\<rparr>) = r\<lparr>r_connection_id := c\<rparr>" ..
  from assms(2,3) raw show ?thesis
    by (intro exI [of _ c]) (auto simp: packet_response_def r_dispatch_def c Let_def split: if_splits)
qed

text \<open>One response that has arrived, with somebody waiting: a turn of \<open>Receive\<close>.\<close>

lemma r_Receive_response:
  assumes "r_maps_ok r" and "r_response r = None" and "r_map r \<noteq> []"
    and "rd_prompt (w_rd w)" and "rd_data (w_rd w) = wire_packet m v @ rest"
    and "length m < 2 ^ 32" "length v < 2 ^ 32"
    and "packet_response cx (co_hmac_key (r_options r)) m = Some cmd"
  shows "\<exists>r2 w2. r_Receive cx r w = r_Receive cx r2 w2 \<and> r_maps_ok r2 \<and> r_response r2 = None \<and>
    r_options r2 = r_options r \<and> rd_prompt (w_rd w2) \<and> rd_data (w_rd w2) = rest \<and>
    (case um_find (int64_or_0 (h_acksequence (cmd_header cmd))) (r_map r) of
       None \<Rightarrow> w_log w2 = w_log w \<and> r_map r2 = r_map r
     | Some (h, key) \<Rightarrow> w_log w2 = w_log w @ [r_answer h cmd (Some v)] \<and>
         r_map r2 = snd (um_erase (int64_or_0 (h_acksequence (cmd_header cmd))) (r_map r)))"
proof -
  let ?ack = "int64_or_0 (h_acksequence (cmd_header cmd))"
  obtain M where M: "cx_parse_message cx m = Some M"
    using assms(8) by (auto simp: packet_response_def split: option.splits)
  obtain pr' evs' where
    rd: "pr_Read (cx_parse_message cx) new_packet_reader (w_rd w) (r_message r) (r_value r) = (kDone, pr', evs', M, Some v)"
    and rest: "rd_data evs' = rest" "rd_prompt evs'"
    using pr_Read_whole [where m = m and v = v and parse = "cx_parse_message cx", OF assms(4,5) M assms(6,7)] by blast
  let ?r = "r\<lparr>r_message := M, r_value := Some v, r_response := None\<rparr>" and ?w = "w\<lparr>w_rd := evs'\<rparr>"
  have ok: "r_maps_ok ?r" using assms(1) by simp
  obtain c where "r_dispatch cx ?r ?w = r_call ?ack cmd (?r\<lparr>r_connection_id := c\<rparr>) ?w"
    using r_dispatch_response [OF ok, of cx m cmd ?w] M assms(8) by auto
  moreover have "r_turn cx r w = r_dispatch cx ?r ?w"
    using assms(2,3) rd by (simp add: r_turn_def r_next_def Let_def)
  moreover obtain res r2 w2 where call: "r_call ?ack cmd (?r\<lparr>r_connection_id := c\<rparr>) ?w = (res, r2, w2)"
    by (metis prod_cases3)
  ultimately have turn: "r_turn cx r w = (res, r2, w2)" by simp
  have okc: "r_maps_ok (?r\<lparr>r_connection_id := c\<rparr>)" using ok by simp
  from r_call_conserves [OF call okc] have "res = None" "r_maps_ok r2" "r_response r2 = None" by simp_all
  moreover have "r_options r2 = r_options r" "w_rd w2 = evs'"
    using call unfolding r_call_ok [OF okc] by (auto split: option.splits prod.splits)
  moreover have "(case um_find ?ack (r_map r) of
      None \<Rightarrow> w_log w2 = w_log w \<and> r_map r2 = r_map r
    | Some (h, key) \<Rightarrow> w_log w2 = w_log w @ [r_answer h cmd (Some v)] \<and> r_map r2 = snd (um_erase ?ack (r_map r)))"
    using call unfolding r_call_ok [OF okc] by (auto split: option.splits prod.splits)
  ultimately show ?thesis
    using turn rest by (intro exI [of _ r2] exI [of _ w2]) (simp add: r_Receive.simps [of cx r w])
qed

text \<open>Without waiting handlers, or without data, \<open>Receive\<close> returns at once.\<close>

lemma r_Receive_idle:
  "r_map r = [] \<Longrightarrow> r_response r = None \<Longrightarrow> r_Receive cx r w = (kIdle, r, w)"
  by (simp add: r_Receive.simps [of cx r w] r_turn_def r_next_def)

lemma r_Receive_nothing:
  assumes "r_map r \<noteq> []" and "r_response r = None" and "rd_prompt (w_rd w)" and "rd_data (w_rd w) = []"
  shows "\<exists>pr evs. r_Receive cx r w = (kIoWait, r\<lparr>r_response := Some pr\<rparr>, w\<lparr>w_rd := evs\<rparr>)"
proof -
  obtain pr evs where "pr_Read (cx_parse_message cx) new_packet_reader (w_rd w) (r_message r) (r_value r)
      = (kInProgress, pr, evs, r_message r, r_value r)"
    using pr_Read_nothing [OF assms(3,4), of "cx_parse_message cx" "r_message r" "r_value r"] by blast
  with assms(1,2) have "r_Receive cx r w = (kIoWait, r\<lparr>r_response := Some pr\<rparr>, w\<lparr>w_rd := evs\<rparr>)"
    by (simp add: r_Receive.simps [of cx r w] r_turn_def r_next_def)
  then show ?thesis by blast
qed

text \<open>
  C2: Every response reaches the handler of the request it acknowledges, with its own value, in
  the order in which the responses arrive. If the packets of a list of well-formed responses have
  arrived, one call of \<open>Receive\<close> makes exactly the callbacks that the matching of responses to
  waiting handlers prescribes and leaves exactly the unanswered handlers waiting; it returns idle
  when nobody waits and asks for more otherwise.
\<close>

theorem receive_refines_matching:
  assumes "r_maps_ok r" and "r_response r = None"
    and "rd_prompt (w_rd w)" and "rd_data (w_rd w) = concat (map (\<lambda>(m, v). wire_packet m v) ps)"
    and "list_all (\<lambda>(m, v). length m < 2 ^ 32 \<and> length v < 2 ^ 32) ps"
    and "map (\<lambda>(m, v). packet_response cx (co_hmac_key (r_options r)) m) ps = map Some cmds"
  shows "\<exists>r' w'. r_Receive cx r w = (if r_map r' = [] then kIdle else kIoWait, r', w') \<and>
     (w_log w', r_map r') =
       (case r_spec (r_map r) (zip cmds (map snd ps)) of (cs, m) \<Rightarrow> (w_log w @ cs, m))"
  using assms
proof (induction ps arbitrary: r w cmds)
  case Nil
  show ?case
  proof (cases "r_map r = []")
    case True
    with Nil r_Receive_idle [of r cx w] show ?thesis by simp
  next
    case False
    from r_Receive_nothing [OF this Nil.prems(2,3), of cx] Nil.prems(4) obtain pr evs where
      "r_Receive cx r w = (kIoWait, r\<lparr>r_response := Some pr\<rparr>, w\<lparr>w_rd := evs\<rparr>)" by auto
    with False Nil show ?thesis by simp
  qed
next
  case (Cons p ps)
  obtain m v where p: "p = (m, v)" by (cases p)
  with Cons.prems(6) obtain cmd cmds' where cmds: "cmds = cmd # cmds'"
    and resp: "packet_response cx (co_hmac_key (r_options r)) m = Some cmd"
    and resps: "map (\<lambda>(m, v). packet_response cx (co_hmac_key (r_options r)) m) ps = map Some cmds'"
    by (cases cmds) auto
  show ?case
  proof (cases "r_map r = []")
    case True
    with Cons.prems(2) r_Receive_idle [of r cx w] show ?thesis by (simp add: cmds p)
  next
    case False
    have arrived: "rd_data (w_rd w) = wire_packet m v @ concat (map (\<lambda>(m, v). wire_packet m v) ps)"
      and len: "length m < 2 ^ 32" "length v < 2 ^ 32" using Cons.prems(4,5) p by simp_all
    obtain r2 w2 where s: "r_Receive cx r w = r_Receive cx r2 w2" "r_maps_ok r2" "r_response r2 = None"
      "r_options r2 = r_options r" "rd_prompt (w_rd w2)"
      "rd_data (w_rd w2) = concat (map (\<lambda>(m, v). wire_packet m v) ps)"
      and step: "case um_find (int64_or_0 (h_acksequence (cmd_header cmd))) (r_map r) of
         None \<Rightarrow> w_log w2 = w_log w \<and> r_map r2 = r_map r
       | Some (h, key) \<Rightarrow> w_log w2 = w_log w @ [r_answer h cmd (Some v)] \<and>
           r_map r2 = snd (um_erase (int64_or_0 (h_acksequence (cmd_header cmd))) (r_map r))"
      using r_Receive_response [OF Cons.prems(1,2) False Cons.prems(3) arrived len resp] by blast
    obtain r' w' where "r_Receive cx r2 w2 = (if r_map r' = [] then kIdle else kIoWait, r', w')"
      "(w_log w', r_map r') = (case r_spec (r_map r2) (zip cmds' (map snd ps)) of (cs, m) \<Rightarrow> (w_log w2 @ cs, m))"
      using Cons.IH [OF s(2,3,5,6), of cmds'] Cons.prems(5) resps s(4) by auto
    with s(1) step False show ?thesis by (auto simp: cmds p split: option.splits prod.splits)
  qed
qed

definition example_receiver :: "char list receiver" where
  "example_receiver = snd (r_Enqueue ''a'' 4 1 (snd (r_Enqueue ''b'' 5 2
      (r_after_handshake (initial_receiver example_options)))))"

lemma example_receiver_ok:
  "r_maps_ok example_receiver" "r_live example_receiver" "r_response example_receiver = None"
  "r_map example_receiver = [(5, ''b'', 2), (4, ''a'', 1)]"
  "r_key_map example_receiver = [(2, 5), (1, 4)]"
  "r_options example_receiver = example_options"
  by (simp_all add: example_receiver_def r_maps_ok_def r_live_def r_Enqueue_def um_insert_def um_find_def
      um_wf_def entry_key_def r_after_handshake_def initial_receiver_def)

theorem receive_refines_matching_witness:
  "\<exists>r' w' ca cb. r_Receive example_codec example_receiver
       \<lparr>w_rd = [Rd_bytes [70, 0, 0, 0, 1, 0], Rd_err EINTR, Rd_bytes [0, 0, 1, 4, 99, 70],
               Rd_bytes [0, 0, 0, 1, 0, 0, 0, 0, 5]], w_wr = [], w_out = [], w_log = []\<rparr> = (kIdle, r', w') \<and>
     w_log w' = [Handled ''a'' ca (Some [99]), Handled ''b'' cb (Some [])] \<and> r_map r' = []"
proof -
  define cmd where "cmd = (\<lambda>b :: byte. empty_command\<lparr>
           cmd_header := empty_header\<lparr>h_acksequence := Some (ucast b)\<rparr>,
           cmd_status := \<lparr>os_code = PROTO_SUCCESS, os_statusmessage = ''''\<rparr>\<rparr>)"
  let ?w = "\<lparr>w_rd = [Rd_bytes [70, 0, 0, 0, 1, 0], Rd_err EINTR, Rd_bytes [0, 0, 1, 4, 99, 70],
               Rd_bytes [0, 0, 0, 1, 0, 0, 0, 0, 5]], w_wr = [], w_out = [], w_log = [] :: char list callback list\<rparr>"
  have "rd_prompt (w_rd ?w)" by (simp add: rd_prompt_def)
  moreover have "rd_data (w_rd ?w) = concat (map (\<lambda>(m, v). wire_packet m v) [([4], [99]), ([5], [])])"
    by (simp add: wire_packet_def magic_byte_def be32_def)
  moreover have "map (\<lambda>(m, v). packet_response example_codec (co_hmac_key (r_options example_receiver)) m)
      [([4], [99 :: byte]), ([5], [])] = map Some [cmd 4, cmd 5]"
    by (simp add: packet_response_def example_codec_def new_message_def cmd_def)
  ultimately obtain r' w' where
    "r_Receive example_codec example_receiver ?w = (if r_map r' = [] then kIdle else kIoWait, r', w')"
    "(w_log w', r_map r') = (case r_spec (r_map example_receiver)
        (zip [cmd 4, cmd 5] (map snd [([4 :: byte], [99 :: byte]), ([5], [])])) of (cs, m) \<Rightarrow> (w_log ?w @ cs, m))"
    using receive_refines_matching [of example_receiver ?w "[([4], [99]), ([5], [])]" example_codec "[cmd 4, cmd 5]"]
      example_receiver_ok by auto
  then show ?thesis
    by (auto simp: example_receiver_ok cmd_def um_find_def um_erase_def r_answer_def)
qed

section \<open>Enqueueing and removing handlers\<close>

text \<open>
  A handler is accepted exactly when neither its sequence number nor its key is in use; then
  it waits and the two maps still agree. Otherwise nothing changes: when only the key is in use,
  the entry already put into the first map is rolled back.
\<close>

lemma receiver_enqueue_correct:
  assumes "r_maps_ok r"
  shows "case r_Enqueue h seq key r of
     (ok, r') \<Rightarrow>
       ok = (seq \<notin> fst ` set (r_map r) \<and> key \<notin> entry_key ` set (r_map r)) \<and> r_maps_ok r' \<and>
       (if ok then r_map r' = r_map r @ [(seq, h, key)] \<and> r_pending r' = add_mset h (r_pending r)
        else r' = r)"
proof -
  obtain ok r' where e: "r_Enqueue h seq key r = (ok, r')" by (cases "r_Enqueue h seq key r")
  have iff: "ok = (seq \<notin> fst ` set (r_map r) \<and> key \<notin> entry_key ` set (r_map r))"
    using r_Enqueue_True_iff [OF assms, of h seq key] e by simp
  show ?thesis
  proof (cases ok)
    case True
    with r_Enqueue_accepts [OF assms, of h seq key r'] e iff show ?thesis by simp
  next
    case False
    with r_Enqueue_rejects [OF assms, of h seq key r'] e iff assms show ?thesis by simp
  qed
qed

lemma r_Remove_correct:
  assumes "r_maps_ok r"
  shows "\<exists>b r'. r_Remove key r = Some (b, r') \<and> b = (key \<in> entry_key ` set (r_map r)) \<and> r_maps_ok r' \<and>
     (if b then \<exists>seq h. um_find seq (r_map r) = Some (h, key) \<and>
            r_map r' = snd (um_erase seq (r_map r)) \<and> r_pending r = add_mset h (r_pending r')
      else r' = r)"
proof (cases "um_find key (r_key_map r)")
  case None
  then have "key \<notin> entry_key ` set (r_map r)"
    using assms by (auto simp: um_find_None_iff r_maps_ok_def image_image)
  with None assms show ?thesis by (auto simp: r_Remove_def)
next
  case (Some seq)
  from assms have wf: "um_wf (r_map r)" and eq: "set (r_key_map r) = (\<lambda>e. (entry_key e, fst e)) ` set (r_map r)"
    by (auto simp: r_maps_ok_def)
  from um_find_in_set [OF Some] obtain h where m: "(seq, h, key) \<in> set (r_map r)"
    unfolding eq by (auto simp: entry_key_def)
  then have f: "um_find seq (r_map r) = Some (h, key)" using wf by (simp add: um_find_Some_iff)
  note e = r_maps_ok_entry [OF assms f]
  have "key \<in> entry_key ` set (r_map r)" using m by (force simp: entry_key_def)
  moreover let ?r' = "r\<lparr>r_map := snd (um_erase seq (r_map r)), r_key_map := snd (um_erase key (r_key_map r))\<rparr>"
  have "r_Remove key r = Some (True, ?r')"
    by (simp add: r_Remove_def Some f)
  moreover have "r_pending r = add_mset h (r_pending ?r')"
    by (simp add: r_pending_def e(3))
  moreover have "r_map ?r' = snd (um_erase seq (r_map r))" by simp
  ultimately show ?thesis
    using e(2) f by (intro exI [of _ True] exI [of _ ?r'] conjI) (simp_all only: simp_thms if_True, blast)
qed

text \<open>
  Removing the key of a waiting handler takes exactly that handler out of both maps, without
  calling it, and answers true; any other key changes nothing and answers false. The two \<open>CHECK\<close>s
  of \<open>Remove\<close> never fail.
\<close>

lemma receiver_remove_correct:
  assumes "r_maps_ok r"
  shows "\<exists>b r'. r_Remove key r = Some (b, r') \<and> b = (key \<in> entry_key ` set (r_map r)) \<and> r_maps_ok r' \<and>
     (if b then \<exists>seq h. um_find seq (r_map r) = Some (h, key) \<and>
            r_map r' = snd (um_erase seq (r_map r)) \<and> r_pending r = add_mset h (r_pending r')
      else r' = r)"
  by (rule r_Remove_correct [OF assms])

text \<open>
  The destructor of the receiver calls the error handler of everyone who still waits, each
  exactly once, with a shutdown error.
\<close>

lemma receiver_destroy_calls_all:
  assumes "r_maps_ok r"
  shows "\<exists>w'. r_destroy r w = Some w' \<and>
     w_log w' = w_log w @ map (\<lambda>(seq, h, key). Errored h receiver_shutdown None) (r_map r)"
  using assms by (simp add: r_destroy_def r_CallAll_ok error_calls_def)

section \<open>The handshake\<close>

definition error_only :: "'h callback list \<Rightarrow> bool" where
  "error_only cs \<longleftrightarrow> list_all (\<lambda>c. \<not> is_Handled c) cs"

lemma error_only_error_calls [simp]: "error_only (error_calls e es)"
  by (induction es) (auto simp: error_only_def error_calls_def)

lemma r_dispatch_kError:
  "r_dispatch cx r w = (Some st, r', w') \<Longrightarrow> r_maps_ok r \<Longrightarrow> \<exists>cs. w_log w' = w_log w @ cs \<and> error_only cs"
proof -
  assume d: "r_dispatch cx r w = (Some st, r', w')" and ok: "r_maps_ok r"
  have give: "\<exists>cs. w_log w' = w_log w @ cs \<and> error_only cs"
    if "r_give_up st1 e q w = (Some st, r', w')" "r_maps_ok q" for st1 e q
    using that by (auto simp: r_give_up_ok)
  have call: "r_call ack cmd q w \<noteq> (Some st, r', w')" if "r_maps_ok q" for ack cmd q
    using r_call_conserves [of ack cmd q w "Some st" r' w'] that by auto
  show ?thesis
    using d ok unfolding r_dispatch_def Let_def
    by (auto split: if_splits option.splits intro: give simp: call)
qed

text \<open>
  While the constructor waits, its own handler is the only one; once that was called successfully
  the receiver is clean.
\<close>

definition hs_inv :: "hs_handler receiver \<Rightarrow> hs_handler world \<Rightarrow> bool" where
  "hs_inv r w \<longleftrightarrow> r_maps_ok r \<and> r_live r \<and> r_pending r + called w = {#Handshake#} \<and>
     (r_pending r = {#} \<longrightarrow> r_response r = None)"

lemma hs_turn_inv:
  assumes "r_turn cx r w = (None, r', w')" and "hs_inv r w"
  shows "hs_inv r' w'"
proof -
  from assms(2) have ok: "r_maps_ok r" "r_live r" and c: "r_pending r + called w = {#Handshake#}"
    by (auto simp: hs_inv_def)
  note t = r_turn_conserves [OF assms(1) ok]
  have "r_response r' = None"
  proof -
    obtain pr where n: "r_next r = Some pr" using assms(1) by (cases "r_next r") (auto simp: r_turn_def)
    obtain st pr' rd' m' v' where rd: "pr_Read (cx_parse_message cx) pr (w_rd w) (r_message r) (r_value r)
        = (st, pr', rd', m', v')" by (metis prod_cases5)
    have st: "st = kDone" using assms(1) n rd
      by (cases st) (auto simp: r_turn_def r_give_up_def Let_def split: option.splits)
    with assms(1) n rd have "r_dispatch cx (r\<lparr>r_message := m', r_value := v', r_response := None\<rparr>)
        (w\<lparr>w_rd := rd'\<rparr>) = (None, r', w')" by (simp add: r_turn_def)
    from r_dispatch_go_on [OF this] show ?thesis by simp
  qed
  with t c show ?thesis by (auto simp: hs_inv_def)
qed

lemma hs_turn_error:
  assumes "r_turn cx r w = (Some kError, r', w')" and "hs_inv r w"
  shows "error_only (w_log w')"
proof -
  from assms(2) have ok: "r_maps_ok r" and c: "r_pending r + called w = {#Handshake#}"
    and clean: "r_pending r = {#} \<longrightarrow> r_response r = None" by (auto simp: hs_inv_def)
  obtain pr where n: "r_next r = Some pr" using assms(1) by (cases "r_next r") (auto simp: r_turn_def)
  then have "r_map r \<noteq> [] \<or> r_response r \<noteq> None" by (auto simp: r_next_def split: option.splits)
  with clean have "r_pending r \<noteq> {#}" using ok by (auto simp: r_pending_def r_maps_ok_def)
  then have "called w = {#}" using c
    by (metis add_cancel_right_right add_eq_conv_ex add_mset_eq_single union_is_single)
  then have log: "w_log w = []" by (simp add: called_def)
  obtain st pr' rd' m' v' where rd: "pr_Read (cx_parse_message cx) pr (w_rd w) (r_message r) (r_value r)
      = (st, pr', rd', m', v')" by (metis prod_cases5)
  let ?r = "r\<lparr>r_message := m', r_value := v', r_response := None\<rparr>"
  let ?q = "r\<lparr>r_response := Some pr', r_message := m', r_value := v'\<rparr>" and ?w = "w\<lparr>w_rd := rd'\<rparr>"
  have oks: "r_maps_ok ?r" "r_maps_ok ?q" using ok by simp_all
  show ?thesis
  proof (cases st)
    case kDone
    with assms(1) n rd have "r_dispatch cx ?r ?w = (Some kError, r', w')" by (simp add: r_turn_def)
    from r_dispatch_kError [OF this oks(1)] log show ?thesis by auto
  next
    case kFailed
    with assms(1) n rd have "r_give_up kError read_error ?q ?w = (Some kError, r', w')"
      by (simp add: r_turn_def Let_def)
    with log show ?thesis by (auto simp: r_give_up_ok [OF oks(2)])
  qed (use assms(1) n rd in \<open>simp_all add: r_turn_def Let_def\<close>)
qed

lemma hs_inv_io [simp]: "hs_inv r (w\<lparr>w_rd := x\<rparr>) = hs_inv r w"
  by (simp add: hs_inv_def)

lemma hs_inv_initial: "hs_inv (initial_receiver opts) \<lparr>w_rd = a, w_wr = b, w_out = c, w_log = []\<rparr>"
  by (simp add: hs_inv_def r_live_def r_pending_def called_def initial_receiver_def r_maps_ok_def
      um_wf_def entry_key_def)

lemma hs_Receive:
  assumes "r_Receive cx r w = (st, r', w')" and "hs_inv r w"
  shows "st \<noteq> kCrash" and "r_maps_ok r'" and "r_pending r' + called w' = {#Handshake#}"
    and "hh_success w' \<Longrightarrow> r_live r'" and "st \<noteq> kError \<Longrightarrow> w_log w' = [] \<Longrightarrow> hs_inv r' w'"
proof -
  from assms(2) have ok: "r_maps_ok r" "r_live r" and c: "r_pending r + called w = {#Handshake#}"
    by (auto simp: hs_inv_def)
  note t = r_Receive_conserves [OF assms(1) ok]
  show "st \<noteq> kCrash" "r_maps_ok r'" "r_pending r' + called w' = {#Handshake#}" using t c by auto
  have "st = kError \<longrightarrow> error_only (w_log w')"
    by (rule r_Receive_rule [where I = hs_inv, OF assms(1,2)])
      (auto intro: hs_turn_inv hs_turn_error)
  then show "hh_success w' \<Longrightarrow> r_live r'"
    using t by (auto simp: hh_success_def error_only_def list_all_iff list_ex_iff)
  show "st \<noteq> kError \<Longrightarrow> w_log w' = [] \<Longrightarrow> hs_inv r' w'"
    using t c by (auto simp: hs_inv_def called_def)
qed

lemma hs_success_clean:
  assumes "hh_success w" and "r_pending r + called w = {#Handshake#}" and "r_maps_ok r"
  shows "r_map r = [] \<and> r_key_map r = [] \<and> r_handler r = None \<and> (\<exists>cmd v. w_log w = [Handled Handshake cmd v])"
proof -
  have "w_log w \<noteq> []" using assms(1) by (auto simp: hh_success_def)
  then have "called w \<noteq> {#}" by (simp add: called_def)
  with assms(2) have p: "r_pending r = {#}" and c: "called w = {#Handshake#}"
    by (auto simp: union_is_single)
  from arg_cong [OF c, of size] have "length (w_log w) = Suc 0" by (simp add: called_def)
  then obtain cb where "w_log w = [cb]" by (auto simp: length_Suc_conv)
  with assms(1) have "\<exists>cmd v. w_log w = [Handled Handshake cmd v]"
    by (cases cb) (auto simp: hh_success_def intro: hs_handler.exhaust)
  moreover from p assms(3) have "r_map r = []" "r_handler r = None" by (auto simp: r_pending_def r_maps_ok_def)
  moreover from this assms(3) have "r_key_map r = []" by (simp add: r_maps_ok_def)
  ultimately show ?thesis by simp
qed

lemma hs_loop_outcome:
  assumes "hs_inv r w" and "w_log w = []"
  shows "(case hs_loop cx start rounds r w of
       HS_crash \<Rightarrow> False
     | HS_ready r' w' \<Rightarrow> r_map r' = [] \<and> r_key_map r' = [] \<and> r_handler r' = None \<and> r_live r' \<and>
         (\<exists>cmd v. w_log w' = [Handled Handshake cmd v])
     | HS_exception s \<Rightarrow> s = ''Could not complete handshake.''
     | HS_waiting r' w' \<Rightarrow> list_all (\<lambda>(arrivals, now). now - start \<le> 30) rounds)"
  using assms
proof (induction rounds arbitrary: r w)
  case Nil
  then show ?case by simp
next
  case (Cons rd rounds)
  obtain arrivals now where rd: "rd = (arrivals, now)" by (cases rd)
  let ?w = "w\<lparr>w_rd := w_rd w @ arrivals\<rparr>"
  obtain st r1 w1 where run: "r_Receive cx r ?w = (st, r1, w1)" by (metis prod_cases3)
  have inv: "hs_inv r ?w" using Cons.prems(1) by simp
  note R = hs_Receive [OF run inv]
  have fin: "hs_finish r1 w1 = HS_exception ''Could not complete handshake.'' \<or>
      hs_finish r1 w1 = HS_ready r1 w1 \<and> r_map r1 = [] \<and> r_key_map r1 = [] \<and> r_handler r1 = None \<and>
      r_live r1 \<and> (\<exists>cmd v. w_log w1 = [Handled Handshake cmd v])"
    using R hs_success_clean [of w1 r1] by (auto simp: hs_finish_def)
  show ?case
  proof (cases "st = kError \<or> hh_done w1 \<or> now - start > 30")
    case True
    with rd run R(1) have "hs_loop cx start (rd # rounds) r w = hs_finish r1 w1" by auto
    with fin show ?thesis by auto
  next
    case False
    with run R(1) have e: "hs_loop cx start ((arrivals, now) # rounds) r w = hs_loop cx start rounds r1 w1"
      by auto
    from False have "w_log w1 = []" "st \<noteq> kError" "now - start \<le> 30" by (auto simp: hh_done_def)
    with Cons.IH [of r1 w1] R(5) show ?thesis
      unfolding rd e by (cases "hs_loop cx start rounds r1 w1") simp_all
  qed
qed

text \<open>
  C19: Constructing a receiver ends well or throws, and never with a failed \<open>CHECK\<close>. A receiver that
  comes out of the constructor has completed the handshake: its handler was called exactly once,
  with a success; nobody is left waiting, both maps are empty, and its reader is between two packets
  or in good order. The constructor keeps waiting only as long as thirty seconds have not passed.
\<close>

theorem handshake_outcome:
  "case NonblockingReceiver cx opts start rounds of
     HS_crash \<Rightarrow> False
   | HS_ready r w \<Rightarrow> r_map r = [] \<and> r_key_map r = [] \<and> r_handler r = None \<and> r_live r \<and>
       (\<exists>cmd v. w_log w = [Handled Handshake cmd v])
   | HS_exception s \<Rightarrow> s = ''Could not complete handshake.''
   | HS_waiting r w \<Rightarrow> list_all (\<lambda>(arrivals, now). now - start \<le> 30) rounds"
  unfolding NonblockingReceiver_def by (rule hs_loop_outcome [OF hs_inv_initial]) simp

text \<open>A concrete handshake: an unsolicited status message that arrives in two rounds.\<close>

lemma handshake_example:
  "case NonblockingReceiver
      (example_codec\<lparr>cx_parse_message := (\<lambda>bs. Some (new_message\<lparr>msg_authtype := UNSOLICITEDSTATUS,
         msg_commandbytes := bs\<rparr>))\<rparr>) example_options 0
      [([Rd_bytes [70, 0, 0, 0, 1, 0]], 1), ([Rd_bytes [0, 0, 0, 9]], 2)] of
     HS_ready r w \<Rightarrow> w_log w \<noteq> [] \<and> r_map r = [] | _ \<Rightarrow> False"
  by code_simp

end
