(* ===== verification/Service.thy ===== *)
theory Service
  imports Receiver
begin

text \<open>
  \<open>NonblockingPacketService\<close> (\<open>nonblocking_packet_service.cc\<close>): the sender and the receiver of a
  connection behind \<open>Submit\<close>, \<open>Run\<close> and \<open>Remove\<close>, and what holds of every sequence of them. The
  reachable states are an inductive relation that also counts, as ghost state, which handlers were
  submitted and which were removed.
\<close>

section \<open>State and operations\<close>

record 'h service =
  v_fd :: int
  v_sender :: "'h sender"
  v_receiver :: "'h receiver"
  v_failed :: bool
  v_next_key :: handler_key

definition new_service :: "int \<Rightarrow> 'h sender \<Rightarrow> 'h receiver \<Rightarrow> 'h service" where
  "new_service fd s r = \<lparr>v_fd = fd, v_sender = s, v_receiver = r, v_failed = False, v_next_key = 0\<rparr>"

definition v_CleanUp :: "'h service \<Rightarrow> 'h service" where
  "v_CleanUp v = v\<lparr>v_failed := True\<rparr>"

definition already_shut_down :: kinetic_status where
  "already_shut_down = KineticStatus0 CLIENT_SHUTDOWN ''Client already shut down''"

definition v_Submit ::
    "codec \<Rightarrow> message \<Rightarrow> command \<Rightarrow> bytes \<Rightarrow> 'h \<Rightarrow> 'h service \<Rightarrow> 'h world
     \<Rightarrow> handler_key \<times> 'h service \<times> 'h world" where
  "v_Submit cx m cmd value h v w =
     (let key = v_next_key v; v1 = v\<lparr>v_next_key := v_next_key v + 1\<rparr> in
      if v_failed v then (key, v1, log_call (Errored h already_shut_down None) w)
      else (key,
        v1\<lparr>v_sender := s_Enqueue cx (connection_id (v_receiver v)) m cmd value h key (v_sender v)\<rparr>, w))"

text \<open>
  \<open>Run\<close> returns false, or true with the descriptors to select on. The sets that the caller passes
  in are overwritten only when it returns true.
\<close>

datatype run_result =
    Run_false
  | Run_true (run_read: "int set") (run_write: "int set") (run_nfds: int)
  | Run_crash

definition v_Run :: "codec \<Rightarrow> 'h service \<Rightarrow> 'h world \<Rightarrow> run_result \<times> 'h service \<times> 'h world" where
  "v_Run cx v w =
     (if v_failed v then (Run_false, v, w)
      else
        (case s_Send cx r_Enqueue (v_sender v) (v_receiver v) w of
           (sender_status, s1, r1, w1) \<Rightarrow>
             let v1 = v\<lparr>v_sender := s1, v_receiver := r1\<rparr> in
             if sender_status = kCrash then (Run_crash, v1, w1)
             else if sender_status = kError then (Run_false, v_CleanUp v1, w1)
             else
               (case r_Receive cx r1 w1 of
                  (receiver_status, r2, w2) \<Rightarrow>
                    let v2 = v1\<lparr>v_receiver := r2\<rparr> in
                    if receiver_status = kCrash then (Run_crash, v2, w2)
                    else if receiver_status = kError then (Run_false, v_CleanUp v2, w2)
                    else
                      (Run_true (if receiver_status = kIoWait then {v_fd v} else {})
                                (if sender_status = kIoWait then {v_fd v} else {})
                                (if sender_status = kIoWait \<or> receiver_status = kIoWait
                                 then v_fd v + 1 else 0),
                       v2, w2))))"

definition v_Remove :: "handler_key \<Rightarrow> 'h service \<Rightarrow> (bool \<times> 'h service) option" where
  "v_Remove key v =
     (case s_Remove key (v_sender v) of
        (True, s) \<Rightarrow> Some (True, v\<lparr>v_sender := s\<rparr>)
      | (False, s) \<Rightarrow>
          (case r_Remove key (v_receiver v) of
             None \<Rightarrow> None
           | Some (b, r) \<Rightarrow> Some (b, v\<lparr>v_sender := s, v_receiver := r\<rparr>)))"

text \<open>
  The destructor cleans up; then the members are destroyed: the sender first, which holds the last
  reference to the receiver, then the receiver.
\<close>

definition v_destroy :: "'h service \<Rightarrow> 'h world \<Rightarrow> 'h world option" where
  "v_destroy v w = r_destroy (v_receiver (v_CleanUp v)) (s_destroy (v_sender v) w)"

section \<open>The invariant of a service\<close>

definition v_pending :: "'h service \<Rightarrow> 'h multiset" where
  "v_pending v = s_pending (v_sender v) + r_pending (v_receiver v)"

definition v_ok :: "'h service \<Rightarrow> bool" where
  "v_ok v \<longleftrightarrow> r_maps_ok (v_receiver v) \<and>
     (\<not> v_failed v \<longrightarrow> s_wf (v_sender v) \<and> r_live (v_receiver v))"

lemma v_Submit_ok:
  assumes "v_Submit cx m cmd value h v w = (key, v', w')" and "v_ok v"
  shows "v_ok v' \<and> v_pending v' + called w' = add_mset h (v_pending v + called w) \<and>
    v_failed v' = v_failed v \<and> (\<not> v_failed v \<longrightarrow> w' = w)"
  using assms by (auto simp: v_Submit_def v_ok_def v_pending_def Let_def split: if_splits)

lemma r_Enqueue_live: "r_Enqueue h seq key r = (b, r') \<Longrightarrow> r_live r' = r_live r"
  by (auto simp: r_Enqueue_def r_live_def split: prod.splits bool.splits)

lemma s_Send_live:
  assumes "s_Send cx r_Enqueue s r w = (st, s', r', w')" and "r_live r"
  shows "r_live r'"
proof (rule s_Send_rule [where I = "\<lambda>s r w. r_live r", OF assms])
  show "s_turn cx r_Enqueue s r w = (None, s1, r1, w1) \<Longrightarrow> r_live r \<Longrightarrow> r_live r1" for s r w s1 r1 w1
    by (auto simp: s_turn_def Let_def s_fail_def split: option.splits prod.splits if_splits
        dest: r_Enqueue_live [THEN iffD2, rotated])
  show "s_turn cx r_Enqueue s r w = (Some st, s1, r1, w1) \<Longrightarrow> r_live r \<Longrightarrow> r_live r1" for s r w st s1 r1 w1
    by (auto simp: s_turn_def Let_def s_fail_def split: option.splits prod.splits if_splits)
qed

lemma v_Run_ok:
  assumes "v_Run cx v w = (res, v', w')" and "v_ok v"
  shows "v_ok v' \<and> v_pending v' + called w' = v_pending v + called w \<and> res \<noteq> Run_crash"
proof (cases "v_failed v")
  case True
  with assms show ?thesis by (simp add: v_Run_def)
next
  case False
  with assms(2) have s: "s_wf (v_sender v)" and r: "r_maps_ok (v_receiver v)" "r_live (v_receiver v)"
    by (simp_all add: v_ok_def)
  obtain st s1 r1 w1 where S: "s_Send cx r_Enqueue (v_sender v) (v_receiver v) w = (st, s1, r1, w1)"
    by (metis prod_cases4)
  obtain rt r2 w2 where R: "r_Receive cx r1 w1 = (rt, r2, w2)" by (metis prod_cases3)
  note cs = recv.Send_conserves [OF S s r(1), unfolded owners_def] and live = s_Send_live [OF S r(2)]
  have cr: "r_pending r2 + called w2 = r_pending r1 + called w1 \<and> rt \<noteq> kCrash \<and> r_maps_ok r2 \<and>
      (rt \<noteq> kError \<longrightarrow> r_live r2)"
    using r_Receive_conserves [OF R _ live] cs by auto
  have eq: "s_pending s1 + r_pending r2 + called w2 = s_pending s1 + r_pending r1 + called w1"
    using cr by (simp add: add.assoc)
  show ?thesis
    using assms(1) False cs cr eq live
    by (auto simp: v_Run_def S R v_ok_def v_pending_def v_CleanUp_def Let_def split: if_splits)
qed

lemma r_Remove_live: "r_Remove key r = Some (b, r') \<Longrightarrow> r_live r' = r_live r"
  by (auto simp: r_Remove_def r_live_def Let_def split: option.splits if_splits)

lemma v_Remove_ok:
  assumes "v_ok v"
  shows "\<exists>b v'. v_Remove key v = Some (b, v') \<and> v_ok v' \<and> v_failed v' = v_failed v \<and>
    v_next_key v' = v_next_key v \<and>
    (if b then \<exists>h. v_pending v = add_mset h (v_pending v') else v' = v)"
proof -
  have ok: "r_maps_ok (v_receiver v)" using assms by (simp add: v_ok_def)
  obtain b s where S: "s_Remove key (v_sender v) = (b, s)" by (cases "s_Remove key (v_sender v)")
  note sr = s_Remove_correct [of key "v_sender v", unfolded S]
  have wf: "s_wf s = s_wf (v_sender v)" by (rule s_Remove_wf [OF S])
  show ?thesis
  proof (cases b)
    case True
    with sr have "\<exists>h. s_pending (v_sender v) = add_mset h (s_pending s)" by simp blast
    then obtain h where "s_pending (v_sender v) = add_mset h (s_pending s)" ..
    then have "v_pending v = add_mset h (v_pending (v\<lparr>v_sender := s\<rparr>))"
      by (simp add: v_pending_def)
    moreover have "v_Remove key v = Some (True, v\<lparr>v_sender := s\<rparr>)" using S True by (simp add: v_Remove_def)
    ultimately show ?thesis using assms wf by (auto simp: v_ok_def)
  next
    case False
    with sr have s: "s = v_sender v" by simp
    obtain c r where R: "r_Remove key (v_receiver v) = Some (c, r)" "r_maps_ok r"
      and d: "if c then \<exists>h. r_pending (v_receiver v) = add_mset h (r_pending r) else r = v_receiver v"
      using r_Remove_correct [OF ok, of key] by (metis (full_types))
    have live: "r_live r = r_live (v_receiver v)" by (rule r_Remove_live [OF R(1)])
    have rem: "v_Remove key v = Some (c, v\<lparr>v_receiver := r\<rparr>)" using S False s R by (simp add: v_Remove_def)
    have ok': "v_ok (v\<lparr>v_receiver := r\<rparr>)" using assms R live by (simp add: v_ok_def)
    show ?thesis
    proof (cases c)
      case True
      with d obtain h where "v_pending v = add_mset h (v_pending (v\<lparr>v_receiver := r\<rparr>))"
        by (auto simp: v_pending_def)
      with True rem ok' show ?thesis by auto
    next
      case c: False
      with d have "v\<lparr>v_receiver := r\<rparr> = v" by simp
      with c rem ok' show ?thesis by (intro exI [of _ False] exI [of _ v]) simp
    qed
  qed
qed

section \<open>Keys and sequence numbers\<close>

text \<open>
  As long as the service has not failed, the key of a request is also its sequence number: both
  counters are advanced by \<open>Submit\<close> only. So every owner of a handler has a key of its own below
  the next key, and the receiver never refuses a handler.
\<close>

definition rq_sequence :: "'h request \<Rightarrow> int64" where
  "rq_sequence rq = int64_or_0 (h_sequence (cmd_header (rq_command rq)))"

definition s_keys :: "'h sender \<Rightarrow> handler_key list" where
  "s_keys s = (case s_handler s of None \<Rightarrow> [] | Some h \<Rightarrow> [s_handler_key s]) @ map rq_key (s_request_queue s)"

definition v_key_list :: "'h sender \<Rightarrow> 'h receiver \<Rightarrow> handler_key list" where
  "v_key_list s r = s_keys s @ map entry_key (r_map r)"

definition s_sequences :: "'h sender \<Rightarrow> int64 list" where
  "s_sequences s = (case s_handler s of None \<Rightarrow> [] | Some h \<Rightarrow> [s_message_sequence s]) @ map rq_sequence (s_request_queue s)"

definition v_sequence_list :: "'h sender \<Rightarrow> 'h receiver \<Rightarrow> int64 list" where
  "v_sequence_list s r = s_sequences s @ map fst (r_map r)"

definition keys_ok :: "nat \<Rightarrow> 'h sender \<Rightarrow> 'h receiver \<Rightarrow> bool" where
  "keys_ok n s r \<longleftrightarrow> distinct (v_key_list s r) \<and> (\<forall>k \<in> set (v_key_list s r). unat k < n) \<and>
     (\<forall>rq \<in> set (s_request_queue s). rq_sequence rq = rq_key rq) \<and>
     (s_handler s \<noteq> None \<longrightarrow> s_message_sequence s = s_handler_key s) \<and>
     (\<forall>e \<in> set (r_map r). fst e = entry_key e)"

text \<open>So the sequence numbers are the keys, in the same places.\<close>

lemma keys_ok_sequences: "keys_ok n s r \<Longrightarrow> v_sequence_list s r = v_key_list s r"
  by (auto simp: keys_ok_def v_sequence_list_def v_key_list_def s_sequences_def s_keys_def split: option.splits)

lemma keys_ok_Enqueue:
  assumes "keys_ok n s r" and "s_sequence_number s = key" and "unat key = n"
  shows "keys_ok (Suc n) (s_Enqueue cx conn m cmd v h key s) r"
proof -
  have new: "key \<notin> set (v_key_list s r)" using assms(1,3) by (auto simp: keys_ok_def)
  let ?s = "s_Enqueue cx conn m cmd v h key s"
  have k: "set (v_key_list ?s r) = insert key (set (v_key_list s r))"
      "distinct (v_key_list ?s r) = (distinct (v_key_list s r) \<and> key \<notin> set (v_key_list s r))"
    by (cases "s_handler s"; auto simp: s_Enqueue_def v_key_list_def s_keys_def Let_def)+
  have "\<forall>rq \<in> set (s_request_queue ?s). rq \<in> set (s_request_queue s) \<or> rq_sequence rq = rq_key rq"
    using assms(2) by (simp add: s_Enqueue_def Let_def rq_sequence_def finish_command_def)
  moreover have "s_handler ?s = s_handler s" "s_message_sequence ?s = s_message_sequence s"
      "s_handler_key ?s = s_handler_key s" by (simp_all add: s_Enqueue_def Let_def)
  ultimately show ?thesis using assms new by (auto simp: keys_ok_def k less_Suc_eq)
qed

lemma s_next_keys:
  assumes "s_next s = Some (s1, pw)" and "s_wf s" and "keys_ok n s r"
  shows "keys_ok n s1 r"
proof -
  have "v_key_list s1 r = v_key_list s r"
    using assms(1,2) by (auto simp: s_next_def v_key_list_def s_keys_def s_wf_def Let_def
      split: option.splits list.splits)
  with assms show ?thesis
    by (auto simp: s_next_def keys_ok_def Let_def rq_sequence_def split: option.splits list.splits)
qed

lemma s_turn_keys:
  assumes "s_turn cx r_Enqueue s r w = (res, s', r', w')" and "s_wf s" and "r_maps_ok r" and "keys_ok n s r"
  shows "keys_ok n s' r' \<and> (\<forall>c \<in> set (w_log w'). c \<in> set (w_log w) \<or> (\<exists>h. c = Errored h write_error None))"
proof (cases "s_next s")
  case None
  with assms show ?thesis by (auto simp: s_turn_def)
next
  case (Some a)
  obtain s1 pw where a: "a = (s1, pw)" by (cases a)
  note k1 = s_next_keys [OF Some [unfolded a] assms(2,4)]
  from s_next_pending [OF assms(2) Some [unfolded a]] obtain h where h: "s_handler s1 = Some h" by blast
  obtain st pw' wr' out' where wr: "pw_Write (cx_ser_message cx) pw (w_wr w) (w_out w) = (st, pw', wr', out')"
    by (metis prod_cases4)
  obtain ok r1 where e: "r_Enqueue h (s_message_sequence s1) (s_handler_key s1) r = (ok, r1)"
    by (cases "r_Enqueue h (s_message_sequence s1) (s_handler_key s1) r")
  have seq: "s_message_sequence s1 = s_handler_key s1" using k1 h by (auto simp: keys_ok_def)
  have "s_handler_key s1 \<notin> entry_key ` set (r_map r)"
    using k1 h by (auto simp: keys_ok_def v_key_list_def s_keys_def)
  moreover from this have "s_handler_key s1 \<notin> fst ` set (r_map r)" using k1 by (auto simp: keys_ok_def image_iff)
  ultimately have "ok" using r_Enqueue_True_iff [OF assms(3), of h "s_message_sequence s1" "s_handler_key s1"] e seq
    by simp
  with r_Enqueue_accepts [OF assms(3), of h _ _ r1] e
  have m: "r_map r1 = r_map r @ [(s_message_sequence s1, h, s_handler_key s1)]" by auto
  have done': "keys_ok n (s1\<lparr>s_current_writer := x, s_handler := None\<rparr>) r1" for x
    using k1 h seq by (auto simp: keys_ok_def v_key_list_def s_keys_def m entry_key_def)
  have fail': "keys_ok n (s1\<lparr>s_current_writer := x, s_handler := None, s_request_queue := []\<rparr>) r" for x
    using k1 by (auto simp: keys_ok_def v_key_list_def s_keys_def)
  have wait': "keys_ok n (s1\<lparr>s_current_writer := x\<rparr>) r" for x
    using k1 by (cases "s_handler s1") (auto simp: keys_ok_def v_key_list_def s_keys_def)
  show ?thesis
    using assms(1) Some a wr h e \<open>ok\<close> done' fail' wait'
    by (cases st) (auto simp: s_turn_def s_fail_def Let_def)
qed

definition only_write_errors :: "'h callback list \<Rightarrow> 'h callback list \<Rightarrow> bool" where
  "only_write_errors cs cs' \<longleftrightarrow> (\<forall>c \<in> set cs'. c \<in> set cs \<or> (\<exists>h. c = Errored h write_error None))"

lemma s_Send_keys:
  assumes "s_Send cx r_Enqueue s r w = (st, s', r', w')" and "s_wf s" and "r_maps_ok r" and "keys_ok n s r"
  shows "keys_ok n s' r' \<and> only_write_errors (w_log w) (w_log w')"
proof (rule s_Send_rule [where I = "\<lambda>s1 r1 w1. s_wf s1 \<and> r_maps_ok r1 \<and> keys_ok n s1 r1 \<and>
      only_write_errors (w_log w) (w_log w1)", OF assms(1)])
  show "s_wf s \<and> r_maps_ok r \<and> keys_ok n s r \<and> only_write_errors (w_log w) (w_log w)"
    using assms by (simp add: only_write_errors_def)
next
  fix s1 r1 w1 s2 r2 w2
  assume t: "s_turn cx r_Enqueue s1 r1 w1 = (None, s2, r2, w2)"
    and I: "s_wf s1 \<and> r_maps_ok r1 \<and> keys_ok n s1 r1 \<and> only_write_errors (w_log w) (w_log w1)"
  from I have "s_wf s1" "r_maps_ok r1" by simp_all
  from recv.turn_conserves [OF t this] s_turn_keys [OF t this, of n] I
  show "s_wf s2 \<and> r_maps_ok r2 \<and> keys_ok n s2 r2 \<and> only_write_errors (w_log w) (w_log w2)"
    unfolding only_write_errors_def by blast
next
  fix s1 r1 w1 st s2 r2 w2
  assume t: "s_turn cx r_Enqueue s1 r1 w1 = (Some st, s2, r2, w2)"
    and I: "s_wf s1 \<and> r_maps_ok r1 \<and> keys_ok n s1 r1 \<and> only_write_errors (w_log w) (w_log w1)"
  from s_turn_keys [OF t, of n] I show "keys_ok n s2 r2 \<and> only_write_errors (w_log w) (w_log w2)"
    unfolding only_write_errors_def by blast
qed

text \<open>
  A clean log: success calls come with SUCCESS responses only, no error call reports the code OK,
  and nobody is told that the receiver refused a handler.
\<close>

definition clean_error :: "kinetic_status \<Rightarrow> bool" where
  "clean_error e \<longleftrightarrow> e \<noteq> enqueue_error \<and> \<not> ks_ok e"

fun clean_call :: "'h callback \<Rightarrow> bool" where
  "clean_call (Handled h r v) = (os_code (cmd_status r) = PROTO_SUCCESS)"
| "clean_call (Errored h e x) = clean_error e"

definition log_clean :: "'h callback list \<Rightarrow> bool" where
  "log_clean cs \<longleftrightarrow> (\<forall>c \<in> set cs. clean_call c)"

text \<open>Receiving only takes entries out of the map, and leaves a clean log clean.\<close>

definition map_shrinks :: "'h receiver \<Rightarrow> 'h receiver \<Rightarrow> bool" where
  "map_shrinks r r' \<longleftrightarrow> (\<exists>P. r_map r' = filter P (r_map r))"

lemma map_shrinks_refl: "map_shrinks r r"
  unfolding map_shrinks_def by (rule exI [of _ "\<lambda>_. True"]) simp

lemma map_shrinks_trans: "map_shrinks r r1 \<Longrightarrow> map_shrinks r1 r2 \<Longrightarrow> map_shrinks r r2"
  unfolding map_shrinks_def by (metis filter_filter)

lemma keys_ok_shrinks:
  assumes "keys_ok n s r" and "map_shrinks r r'"
  shows "keys_ok n s r'"
proof -
  obtain P where P: "r_map r' = filter P (r_map r)" using assms(2) by (auto simp: map_shrinks_def)
  show ?thesis using assms(1) by (auto simp: keys_ok_def v_key_list_def P distinct_map_filter)
qed

lemma GetKineticStatus_message_clean: "ks_message (GetKineticStatus c v) \<noteq> ks_message enqueue_error"
  by (cases c) (simp_all add: enqueue_error_def KineticStatus_def)

lemma r_answer_clean [simp]: "clean_call (r_answer h cmd v)"
  using GetKineticStatus_message_clean [of "ConvertFromProtoStatus (os_code (cmd_status cmd))"
      "int64_or_0 (h_clusterversion (cmd_header cmd))"]
  by (auto simp: r_answer_def clean_error_def)

lemma log_clean_append [simp]:
  "log_clean []" "log_clean (c # cs) = (clean_call c \<and> log_clean cs)"
  "log_clean (cs @ ds) = (log_clean cs \<and> log_clean ds)"
  by (auto simp: log_clean_def)

lemma log_clean_error_calls: "clean_error e \<Longrightarrow> log_clean (error_calls e es)"
  by (auto simp: log_clean_def error_calls_def)

lemma receive_errors_clean [simp]:
  "clean_error read_error" "clean_error hmac_error" "clean_error parse_error" "clean_error no_ack_error"
  "clean_error write_error" "clean_error already_shut_down"
  by (simp_all add: clean_error_def read_error_def hmac_error_def parse_error_def no_ack_error_def
      write_error_def already_shut_down_def enqueue_error_def KineticStatus_def ks_ok_def)

lemma r_dispatch_shrinks:
  assumes "r_dispatch cx r w = (res, r', w')" and "r_maps_ok r" and "log_clean (w_log w)"
  shows "map_shrinks r r' \<and> log_clean (w_log w')"
proof -
  have give: "r_give_up st e q w = (res, r', w') \<Longrightarrow> r_maps_ok q \<Longrightarrow> clean_error e \<Longrightarrow>
      map_shrinks r r' \<and> log_clean (w_log w')" for st e q
    using assms(3) by (auto simp: r_give_up_ok map_shrinks_def log_clean_error_calls intro: exI [of _ "\<lambda>_. False"])
  have call: "map_shrinks r r' \<and> log_clean (w_log w')"
    if c: "r_call ack cmd q w = (res, r', w')" and q: "r_maps_ok q" "r_map q = r_map r" for ack cmd q
  proof (cases "um_find ack (r_map q)")
    case None
    with c q assms(3) show ?thesis by (auto simp: r_call_ok map_shrinks_def intro: exI [of _ "\<lambda>_. True"])
  next
    case (Some a)
    obtain h key where a: "a = (h, key)" by (cases a)
    from c have "r_map r' = snd (um_erase ack (r_map r))" "w_log w' = w_log w @ [r_answer h cmd (r_value q)]"
      using q(2) Some a by (auto simp: r_call_ok [OF q(1)])
    then show ?thesis using assms(3) by (auto simp: map_shrinks_def um_erase_def)
  qed
  define r1 where "r1 = (\<lambda>cmd. case h_connectionid (cmd_header cmd) of
      Some c \<Rightarrow> r\<lparr>r_connection_id := c\<rparr> | None \<Rightarrow> r)"
  have r1: "r_maps_ok (r1 cmd) \<and> r_map (r1 cmd) = r_map r" for cmd
    using assms(2) by (simp add: r1_def split: option.splits)
  show ?thesis
    using assms(1,2) unfolding r_dispatch_def r1_def [symmetric]
    by (auto simp: Let_def r1 receive_errors_clean split: if_splits option.splits dest!: give call)
qed

lemma r_turn_shrinks:
  assumes "r_turn cx r w = (res, r', w')" and "r_maps_ok r" and "log_clean (w_log w)"
  shows "map_shrinks r r' \<and> log_clean (w_log w')"
proof (cases "r_next r")
  case None
  with assms show ?thesis by (auto simp: r_turn_def map_shrinks_refl)
next
  case (Some pr)
  obtain st pr' rd' m' v' where rd: "pr_Read (cx_parse_message cx) pr (w_rd w) (r_message r) (r_value r)
      = (st, pr', rd', m', v')" by (metis prod_cases5)
  let ?r = "r\<lparr>r_message := m', r_value := v', r_response := None\<rparr>"
  let ?q = "r\<lparr>r_response := Some pr', r_message := m', r_value := v'\<rparr>" and ?w = "w\<lparr>w_rd := rd'\<rparr>"
  have oks: "r_maps_ok ?r" "r_maps_ok ?q" using assms(2) by simp_all
  have refl: "map_shrinks r ?q" by (auto simp: map_shrinks_def intro: exI [of _ "\<lambda>_. True"])
  show ?thesis
  proof (cases st)
    case kDone
    with assms(1) Some rd have "r_dispatch cx ?r ?w = (res, r', w')" by (simp add: r_turn_def)
    from r_dispatch_shrinks [OF this oks(1)] assms(3) show ?thesis by (simp add: map_shrinks_def)
  next
    case kFailed
    with assms(1) Some rd have "r_give_up kError read_error ?q ?w = (res, r', w')"
      by (simp add: r_turn_def Let_def)
    with assms(3) show ?thesis
      by (auto simp: r_give_up_ok [OF oks(2)] map_shrinks_def log_clean_error_calls receive_errors_clean
          intro: exI [of _ "\<lambda>_. False"])
  qed (use assms(1,3) Some rd refl in \<open>auto simp: r_turn_def Let_def\<close>)
qed

lemma r_Receive_shrinks:
  assumes "r_Receive cx r w = (st, r', w')" and "r_maps_ok r" and "r_live r" and "log_clean (w_log w)"
  shows "map_shrinks r r' \<and> log_clean (w_log w')"
proof (rule r_Receive_rule [where I = "\<lambda>r1 w1. r_maps_ok r1 \<and> r_live r1 \<and> map_shrinks r r1 \<and>
      log_clean (w_log w1)", OF assms(1)])
  fix r1 w1 r2 w2
  assume t: "r_turn cx r1 w1 = (None, r2, w2)"
    and I: "r_maps_ok r1 \<and> r_live r1 \<and> map_shrinks r r1 \<and> log_clean (w_log w1)"
  then show "r_maps_ok r2 \<and> r_live r2 \<and> map_shrinks r r2 \<and> log_clean (w_log w2)"
    using r_turn_conserves [OF t] r_turn_shrinks [OF t] map_shrinks_trans [of r r1 r2] by simp
next
  fix r1 w1 st r2 w2
  assume t: "r_turn cx r1 w1 = (Some st, r2, w2)"
    and I: "r_maps_ok r1 \<and> r_live r1 \<and> map_shrinks r r1 \<and> log_clean (w_log w1)"
  then show "map_shrinks r r2 \<and> log_clean (w_log w2)"
    using r_turn_shrinks [OF t] map_shrinks_trans [of r r1 r2] by simp
qed (use assms map_shrinks_refl in auto)

lemma log_clean_write_errors:
  "only_write_errors cs cs' \<Longrightarrow> log_clean cs \<Longrightarrow> log_clean cs'"
  unfolding only_write_errors_def log_clean_def by (metis clean_call.simps(2) receive_errors_clean(5))

section \<open>Every history of a service\<close>

text \<open>
  The states a service can reach: from a receiver that has completed its handshake, by submitting,
  by running with whatever the network then brings and takes, and by removing. \<open>S\<close> and \<open>R\<close> are the
  handlers submitted and removed so far.
\<close>

inductive v_reach ::
    "codec \<Rightarrow> 'h service \<Rightarrow> 'h world \<Rightarrow> 'h multiset \<Rightarrow> 'h multiset \<Rightarrow> bool" for cx where
  v_start: "r_map r = [] \<Longrightarrow> r_key_map r = [] \<Longrightarrow> r_handler r = None \<Longrightarrow> r_live r \<Longrightarrow> w_log w = [] \<Longrightarrow>
     v_reach cx (new_service fd (new_sender opts) r) w {#} {#}"
| v_submit: "v_reach cx v w S R \<Longrightarrow> v_Submit cx m cmd value h v w = (key, v', w') \<Longrightarrow>
     v_reach cx v' w' (add_mset h S) R"
| v_run: "v_reach cx v w S R \<Longrightarrow>
     v_Run cx v (w\<lparr>w_rd := w_rd w @ arrivals, w_wr := accepts\<rparr>) = (res, v', w') \<Longrightarrow>
     v_reach cx v' w' S R"
| v_remove: "v_reach cx v w S R \<Longrightarrow> v_Remove key v = Some (b, v') \<Longrightarrow>
     v_reach cx v' w S (R + (v_pending v - v_pending v'))"

inductive_cases v_reachE: "v_reach cx v w S R"

lemma v_reach_conserves:
  assumes "v_reach cx v w S R"
  shows "v_ok v \<and> v_pending v + called w + R = S"
  using assms
proof (induction rule: v_reach.induct)
  case (v_start r w fd opts)
  then show ?case
    by (simp add: v_ok_def v_pending_def new_service_def r_maps_ok_def r_pending_def called_def)
next
  case (v_submit v w S R m cmd val h key v' w')
  from v_Submit_ok [OF v_submit.hyps(2)] v_submit.IH show ?case by simp
next
  case (v_run v w S R arrivals accepts res v' w')
  from v_Run_ok [OF v_run.hyps(2)] v_run.IH show ?case by simp
next
  case (v_remove v w S R key b v')
  from v_Remove_ok [of v key] v_remove have ok: "v_ok v'"
    and d: "(\<exists>h. v_pending v = add_mset h (v_pending v')) \<or> v' = v" by (auto split: if_splits)
  from d have "v_pending v' + (v_pending v - v_pending v') = v_pending v" by auto
  then have "v_pending v' + called w + (R + (v_pending v - v_pending v')) = v_pending v + called w + R"
    by (metis add.assoc add.commute)
  with ok v_remove.IH show ?case by simp
qed

lemma s_next_sequence: "s_next s = Some (s1, pw) \<Longrightarrow> s_sequence_number s1 = s_sequence_number s"
  by (auto simp: s_next_def Let_def split: option.splits list.splits)

lemma s_turn_sequence:
  "s_turn cx enq s r w = (res, s1, r1, w1) \<Longrightarrow> s_sequence_number s1 = s_sequence_number s"
  by (auto simp: s_turn_def s_fail_def Let_def dest!: s_next_sequence
      split: option.splits prod.splits if_splits)

lemma s_Send_sequence:
  assumes "s_Send cx enq s r w = (st, s', r', w')"
  shows "s_sequence_number s' = s_sequence_number s"
  by (rule s_Send_rule [where I = "\<lambda>s1 r1 w1. s_sequence_number s1 = s_sequence_number s", OF assms refl])
     (auto dest: s_turn_sequence)

lemma keys_ok_mono: "keys_ok n s r \<Longrightarrow> n \<le> m \<Longrightarrow> keys_ok m s r"
  by (force simp: keys_ok_def)

lemma keys_ok_s_Remove:
  assumes "keys_ok n s r" and "s_Remove key s = (b, s')"
  shows "keys_ok n s' r \<and> s_sequence_number s' = s_sequence_number s"
proof -
  obtain rqs where q: "remove_request key (s_request_queue s) = (b, rqs)" "s' = s\<lparr>s_request_queue := rqs\<rparr>"
    using assms(2) by (auto simp: s_Remove_def split: prod.splits)
  from remove_request_spec [OF q(1)] show ?thesis
  proof (elim disjE conjE exE)
    assume "rqs = s_request_queue s"
    then show ?thesis using assms(1) q(2) by (simp add: keys_ok_def v_key_list_def s_keys_def)
  next
    fix xs rq ys
    assume s: "s_request_queue s = xs @ rq # ys" and "rqs = xs @ ys"
    moreover have hk: "s_handler_key (s\<lparr>s_request_queue := xs @ ys\<rparr>) = s_handler_key s" by simp
    ultimately show ?thesis using assms(1) q(2)
      by (cases "s_handler s") (auto simp: keys_ok_def v_key_list_def s_keys_def)
  qed
qed

lemma r_Remove_shrinks: "r_Remove key r = Some (b, r') \<Longrightarrow> map_shrinks r r'"
  by (auto simp: r_Remove_def map_shrinks_def um_erase_def Let_def split: option.splits if_splits
      intro: exI [of _ "\<lambda>_. True"]) (rule exI, rule refl)

lemma keys_ok_io: "keys_ok n s (r\<lparr>r_response := x\<rparr>) = keys_ok n s r"
  by (simp add: keys_ok_def v_key_list_def)

text \<open>\<open>Run\<close> and \<open>Remove\<close> keep the keys in order.\<close>

lemma v_Run_keys:
  assumes "v_Run cx v w = (res, v', w')" and "v_ok v"
    and "keys_ok n (v_sender v) (v_receiver v)" and "log_clean (w_log w)"
  shows "keys_ok n (v_sender v') (v_receiver v') \<and> log_clean (w_log w') \<and> v_next_key v' = v_next_key v \<and>
    (\<not> v_failed v' \<longrightarrow> \<not> v_failed v \<and> s_sequence_number (v_sender v') = s_sequence_number (v_sender v))"
proof (cases "v_failed v")
  case True
  with assms show ?thesis by (simp add: v_Run_def)
next
  case False
  with assms(2) have s: "s_wf (v_sender v)" and r: "r_maps_ok (v_receiver v)" "r_live (v_receiver v)"
    by (simp_all add: v_ok_def)
  obtain st s1 r1 w1 where Sd: "s_Send cx r_Enqueue (v_sender v) (v_receiver v) w = (st, s1, r1, w1)"
    by (metis prod_cases4)
  obtain rt r2 w2 where Rc: "r_Receive cx r1 w1 = (rt, r2, w2)" by (metis prod_cases3)
  from s_Send_keys [OF Sd s r(1) assms(3)] have k1: "keys_ok n s1 r1" and n1: "log_clean (w_log w1)"
    using log_clean_write_errors [of "w_log w"] assms(4) by auto
  have r1: "r_maps_ok r1" "r_live r1" using recv.Send_conserves [OF Sd s r(1)] s_Send_live [OF Sd r(2)] by auto
  from r_Receive_shrinks [OF Rc r1 n1] have n2: "log_clean (w_log w2)" and k2: "keys_ok n s1 r2"
    using keys_ok_shrinks [OF k1] by auto
  show ?thesis
    using assms(1) False n1 n2 k1 k2 s_Send_sequence [OF Sd]
    by (auto simp: v_Run_def Sd Rc v_CleanUp_def Let_def split: if_splits)
qed

lemma v_Remove_keys:
  assumes "v_Remove key v = Some (b, v')" and "keys_ok n (v_sender v) (v_receiver v)"
  shows "keys_ok n (v_sender v') (v_receiver v') \<and> v_next_key v' = v_next_key v \<and> v_failed v' = v_failed v \<and>
    s_sequence_number (v_sender v') = s_sequence_number (v_sender v)"
proof -
  obtain sb s where Sr: "s_Remove key (v_sender v) = (sb, s)" by (cases "s_Remove key (v_sender v)")
  note ks = keys_ok_s_Remove [OF assms(2) Sr]
  show ?thesis
  proof (cases sb)
    case True
    with assms(1) Sr have "v' = v\<lparr>v_sender := s\<rparr>" by (simp add: v_Remove_def)
    with ks show ?thesis by simp
  next
    case False
    with assms(1) Sr obtain r where r: "r_Remove key (v_receiver v) = Some (b, r)"
      "v' = v\<lparr>v_sender := s, v_receiver := r\<rparr>" by (auto simp: v_Remove_def split: option.splits)
    have "keys_ok n s r" using keys_ok_shrinks [OF _ r_Remove_shrinks [OF r(1)]] ks by blast
    with ks r show ?thesis by simp
  qed
qed

lemma v_reach_keys:
  assumes "v_reach cx v w S R" and "size S < 2 ^ 64"
  shows "unat (v_next_key v) = size S \<and>
    (\<not> v_failed v \<longrightarrow> s_sequence_number (v_sender v) = v_next_key v) \<and>
    keys_ok (size S) (v_sender v) (v_receiver v) \<and> log_clean (w_log w)"
  using assms
proof (induction rule: v_reach.induct)
  case (v_start r w fd opts)
  then show ?case
    by (simp add: new_service_def new_sender_def keys_ok_def v_key_list_def s_keys_def log_clean_def)
next
  case (v_submit v w S R m cmd val h key v' w')
  have k: "unat (v_next_key v) = size S" and kk: "keys_ok (size S) (v_sender v) (v_receiver v)"
    and seq: "\<not> v_failed v \<longrightarrow> s_sequence_number (v_sender v) = v_next_key v" and n: "log_clean (w_log w)"
    using v_submit by simp_all
  have n': "unat (v_next_key v + 1) = Suc (size S)"
    using k v_submit.prems by (simp add: unat_word_ariths)
  show ?case
  proof (cases "v_failed v")
    case True
    with v_submit.hyps(2) have v': "v' = v\<lparr>v_next_key := v_next_key v + 1\<rparr>"
      "w_log w' = w_log w @ [Errored h already_shut_down None]" by (auto simp: v_Submit_def Let_def)
    then show ?thesis using True n n' keys_ok_mono [OF kk, of "Suc (size S)"] by simp
  next
    case False
    with v_submit.hyps(2) have v': "v' = v\<lparr>v_next_key := v_next_key v + 1,
        v_sender := s_Enqueue cx (connection_id (v_receiver v)) m cmd val h (v_next_key v) (v_sender v)\<rparr>" "w' = w"
      by (auto simp: v_Submit_def Let_def)
    have "s_sequence_number (s_Enqueue cx (connection_id (v_receiver v)) m cmd val h (v_next_key v) (v_sender v)) =
        v_next_key v + 1" using seq False by (simp add: s_Enqueue_def Let_def)
    with keys_ok_Enqueue [OF kk _ k] seq False n n' v' show ?thesis by simp
  qed
next
  case (v_run v w S R accepts arrivals res v' w')
  have "v_ok v" using v_reach_conserves [OF v_run.hyps(1)] by simp
  from v_Run_keys [OF v_run.hyps(2) this, of "size S"] v_run.IH [OF v_run.prems] show ?case by simp
next
  case (v_remove v w S R key b v')
  from v_Remove_keys [OF v_remove.hyps(2), of "size S"] v_remove.IH [OF v_remove.prems] show ?case by simp
qed

section \<open>What a service promises\<close>

lemma v_destroy_conserves:
  assumes "v_reach cx v w S R"
  shows "\<exists>w'. v_destroy v w = Some w' \<and> called w' + opt_mset (s_handler (v_sender v)) + R = S"
proof -
  from v_reach_conserves [OF assms] have ok: "v_ok v" and c: "v_pending v + called w + R = S" by auto
  then have m: "r_maps_ok (v_receiver v)" by (simp add: v_ok_def)
  have "v_destroy v w = Some (log_calls (error_calls receiver_shutdown (r_map (v_receiver v)))
      (s_destroy (v_sender v) w))"
    using m by (simp add: v_destroy_def r_destroy_def r_CallAll_ok v_CleanUp_def)
  moreover have "r_pending (v_receiver v) = image_mset (\<lambda>e. fst (snd e)) (mset (r_map (v_receiver v)))"
    using m by (simp add: r_pending_def r_maps_ok_def)
  then have "called (log_calls (error_calls receiver_shutdown (r_map (v_receiver v))) (s_destroy (v_sender v) w)) +
      opt_mset (s_handler (v_sender v)) + R = S"
    using c by (simp add: v_pending_def s_pending_def s_destroy_def comp_def ac_simps)
  ultimately show ?thesis by blast
qed

text \<open>
  C1: Exactly one callback per request, over the whole life of a connection. In every state that
  any history of submissions, runs and removals can reach, each submitted handler is in exactly one
  place: it still waits, it has been called once, or it was removed. After the destructor each has
  been called once, was removed, or is the one whose request was being written at that moment.
  No operation of such a history crashes.
\<close>

theorem every_handler_once:
  assumes "v_reach cx v w S R"
  shows "v_pending v + called w + R = S \<and>
    (\<exists>w'. v_destroy v w = Some w' \<and> called w' + opt_mset (s_handler (v_sender v)) + R = S) \<and>
    (\<forall>w1. fst (v_Run cx v w1) \<noteq> Run_crash) \<and> (\<forall>key. v_Remove key v \<noteq> None)"
proof -
  from v_reach_conserves [OF assms] have ok: "v_ok v" and c: "v_pending v + called w + R = S" by auto
  moreover have "fst (v_Run cx v w1) \<noteq> Run_crash" for w1
    using v_Run_ok [OF _ ok, of cx w1] by (cases "v_Run cx v w1") auto
  moreover have "v_Remove key v \<noteq> None" for key using v_Remove_ok [OF ok, of key] by auto
  ultimately show ?thesis using v_destroy_conserves [OF assms] by blast
qed

definition example_service :: "char list service" where
  "example_service = new_service 9 (new_sender example_options) (r_after_handshake (initial_receiver example_options))"

lemma example_reach:
  "v_reach example_codec example_service \<lparr>w_rd = [], w_wr = [], w_out = [], w_log = []\<rparr> {#} {#}"
  unfolding example_service_def by (rule v_start) (simp_all add: r_after_handshake_def r_live_def initial_receiver_def)

lemma example_reach_submitted:
  "\<exists>v w. v_reach example_codec v w {#''b'', ''a''#} {#} \<and> v_failed v = False \<and> w_log w = [] \<and>
     s_request_queue (v_sender v) \<noteq> []"
proof -
  obtain key v w where s1: "v_Submit example_codec new_message empty_command [4] ''a'' example_service
      \<lparr>w_rd = [], w_wr = [], w_out = [], w_log = []\<rparr> = (key, v, w)" by (metis prod_cases3)
  obtain key2 v2 w2 where s2: "v_Submit example_codec new_message empty_command [5] ''b'' v w = (key2, v2, w2)"
    by (metis prod_cases3)
  have f: "v_failed v = False" "w_log w = []" using s1
    by (auto simp: v_Submit_def example_service_def new_service_def Let_def)
  have "v_failed v2 = False" "w_log w2 = []" "s_request_queue (v_sender v2) \<noteq> []"
    using s2 f by (auto simp: v_Submit_def Let_def s_Enqueue_def)
  with v_submit [OF v_submit [OF example_reach s1] s2] show ?thesis by auto
qed

theorem every_handler_once_witness:
  "\<exists>v w w'. v_reach example_codec v w {#''b'', ''a''#} {#} \<and> v_destroy v w = Some w' \<and>
     called w' + opt_mset (s_handler (v_sender v)) = {#''b'', ''a''#}"
proof -
  obtain v w where r: "v_reach example_codec v w {#''b'', ''a''#} {#}" using example_reach_submitted by blast
  from every_handler_once [OF r] r show ?thesis by auto
qed

text \<open>
  C18: Keys identify requests. As long as fewer than \<open>2 ^ 64\<close> requests were submitted (before the
  counter wraps), no two requests that are queued, being written or waiting for a response share a
  key or a sequence number, the key that \<open>Submit\<close> gives out next is none of theirs, and so the
  receiver never refuses a handler: nobody was ever told \<open>Could not enqueue handler\<close>.
\<close>

theorem keys_identify_requests:
  assumes "v_reach cx v w S R" and "size S < 2 ^ 64"
  shows "distinct (v_key_list (v_sender v) (v_receiver v)) \<and>
    distinct (v_sequence_list (v_sender v) (v_receiver v)) \<and>
    v_next_key v \<notin> set (v_key_list (v_sender v) (v_receiver v)) \<and>
    unat (v_next_key v) = size S \<and>
    (\<forall>h x. Errored h (KineticStatus0 CLIENT_INTERNAL_ERROR ''Could not enqueue handler'') x \<notin> set (w_log w))"
proof -
  note k = v_reach_keys [OF assms]
  then have "distinct (v_sequence_list (v_sender v) (v_receiver v))"
    using keys_ok_sequences [of "size S" "v_sender v" "v_receiver v"] unfolding keys_ok_def by simp
  with k show ?thesis by (auto simp: keys_ok_def log_clean_def clean_error_def enqueue_error_def)
qed

theorem keys_identify_requests_witness:
  "\<exists>v w. v_reach example_codec v w {#''b'', ''a''#} {#} \<and> unat (v_next_key v) = 2 \<and>
     distinct (v_key_list (v_sender v) (v_receiver v)) \<and> distinct (v_sequence_list (v_sender v) (v_receiver v))"
proof -
  obtain v w where r: "v_reach example_codec v w {#''b'', ''a''#} {#}" using example_reach_submitted by blast
  from keys_identify_requests [OF r] r show ?thesis by auto
qed

lemma s_Send_status:
  assumes "s_Send cx enq s r w = (st, s', r', w')"
  shows "(st = kIoWait \<longrightarrow> s_current_writer s' \<noteq> None) \<and>
    (st = kIdle \<longrightarrow> s_current_writer s' = None \<and> s_request_queue s' = [])"
proof (rule s_Send_rule [where I = "\<lambda>s r w. True" and Q = "\<lambda>st s' r' w'. (st = kIoWait \<longrightarrow> s_current_writer s' \<noteq> None) \<and>
    (st = kIdle \<longrightarrow> s_current_writer s' = None \<and> s_request_queue s' = [])", OF assms])
  fix s1 r1 w1 st s2 r2 w2
  assume t: "s_turn cx enq s1 r1 w1 = (Some st, s2, r2, w2)"
  show "(st = kIoWait \<longrightarrow> s_current_writer s2 \<noteq> None) \<and>
    (st = kIdle \<longrightarrow> s_current_writer s2 = None \<and> s_request_queue s2 = [])"
  proof (cases "s_next s1")
    case None
    with t show ?thesis by (auto simp: s_turn_def) (simp_all add: s_next_None)
  qed (use t in \<open>auto simp: s_turn_def s_fail_def Let_def split: option.splits prod.splits if_splits\<close>)
qed simp_all

lemma r_Receive_status:
  assumes "r_Receive cx r w = (st, r', w')" and "r_maps_ok r" and "r_live r"
  shows "(st = kIoWait \<longrightarrow> r_response r' \<noteq> None) \<and> (st = kIdle \<longrightarrow> r_response r' = None \<and> r_map r' = [])"
proof (rule r_Receive_rule [where I = "\<lambda>r w. r_maps_ok r \<and> r_live r" and
    Q = "\<lambda>st r' w'. (st = kIoWait \<longrightarrow> r_response r' \<noteq> None) \<and> (st = kIdle \<longrightarrow> r_response r' = None \<and> r_map r' = [])",
    OF assms(1)])
  fix r1 w1 r2 w2
  assume "r_turn cx r1 w1 = (None, r2, w2)" and "r_maps_ok r1 \<and> r_live r1"
  then show "r_maps_ok r2 \<and> r_live r2" using r_turn_conserves [of cx r1 w1 None r2 w2] by simp
next
  fix r1 w1 st r2 w2
  assume t: "r_turn cx r1 w1 = (Some st, r2, w2)" and I: "r_maps_ok r1 \<and> r_live r1"
  from r_turn_conserves [OF t] I have p: "st = kIdle \<longrightarrow> r_pending r2 = {#}" and ok: "r_maps_ok r2" by auto
  then have m: "st = kIdle \<longrightarrow> r_map r2 = []" by (auto simp: r_pending_def r_maps_ok_def)
  have d: "r_dispatch cx q w = (Some st, r2, w2) \<Longrightarrow> r_maps_ok q \<Longrightarrow>
      st \<noteq> kIoWait \<and> r_response r2 = r_response q" for q w
    using r_dispatch_conserves [of cx q w "Some st" r2 w2] by auto
  show "(st = kIoWait \<longrightarrow> r_response r2 \<noteq> None) \<and> (st = kIdle \<longrightarrow> r_response r2 = None \<and> r_map r2 = [])"
  proof (cases "r_next r1")
    case None
    with t m show ?thesis by (auto simp: r_turn_def r_next_def split: option.splits if_splits)
  next
    case (Some pr)
    obtain st1 pr' rd' m' v' where rd: "pr_Read (cx_parse_message cx) pr (w_rd w1) (r_message r1) (r_value r1)
        = (st1, pr', rd', m', v')" by (metis prod_cases5)
    let ?q = "r1\<lparr>r_response := Some pr', r_message := m', r_value := v'\<rparr>" and ?w = "w1\<lparr>w_rd := rd'\<rparr>"
    have okq: "r_maps_ok ?q" "r_maps_ok (?q\<lparr>r_response := None\<rparr>)" using I by simp_all
    show ?thesis
    proof (cases st1)
      case kDone
      with t Some rd have "r_dispatch cx (?q\<lparr>r_response := None\<rparr>) ?w = (Some st, r2, w2)"
        by (simp add: r_turn_def Let_def)
      from d [OF this okq(2)] m show ?thesis by simp
    next
      case kFailed
      with t Some rd have "r_give_up kError read_error ?q ?w = (Some st, r2, w2)"
        by (simp add: r_turn_def Let_def)
      then show ?thesis by (auto simp: r_give_up_ok [OF okq(1)])
    qed (use t Some rd in \<open>auto simp: r_turn_def Let_def\<close>)
  qed
qed (use assms in simp_all)

lemma v_Run_waits:
  assumes "v_Run cx v w = (Run_true reads writes nfds, v', w')" and "v_ok v"
  shows "writes = (if s_current_writer (v_sender v') = None then {} else {v_fd v}) \<and>
    reads = (if r_response (v_receiver v') = None then {} else {v_fd v}) \<and>
    nfds = (if reads = {} \<and> writes = {} then 0 else v_fd v + 1) \<and>
    (writes = {} \<longrightarrow> s_request_queue (v_sender v') = []) \<and>
    (reads = {} \<longrightarrow> r_map (v_receiver v') = []) \<and> \<not> v_failed v'"
proof -
  have f: "\<not> v_failed v" using assms(1) by (auto simp: v_Run_def)
  with assms(2) have s: "s_wf (v_sender v)" and r: "r_maps_ok (v_receiver v)" "r_live (v_receiver v)"
    by (simp_all add: v_ok_def)
  obtain st s1 r1 w1 where S: "s_Send cx r_Enqueue (v_sender v) (v_receiver v) w = (st, s1, r1, w1)"
    by (metis prod_cases4)
  obtain rt r2 w2 where R: "r_Receive cx r1 w1 = (rt, r2, w2)" by (metis prod_cases3)
  have r1: "r_maps_ok r1" "r_live r1" using recv.Send_conserves [OF S s r(1)] s_Send_live [OF S r(2)] by auto
  have st: "st = kIdle \<or> st = kIoWait" "rt = kIdle \<or> rt = kIoWait"
    using assms(1) f by (auto simp: v_Run_def S R Let_def split: if_splits intro: service_status.exhaust)
  from assms(1) f st have run:
    "reads = (if rt = kIoWait then {v_fd v} else {})" "writes = (if st = kIoWait then {v_fd v} else {})"
    "nfds = (if st = kIoWait \<or> rt = kIoWait then v_fd v + 1 else 0)"
    "v_sender v' = s1" "v_receiver v' = r2" "v_failed v' = False"
    by (auto simp: v_Run_def S R Let_def)
  note ss = s_Send_status [OF S] and rr = r_Receive_status [OF R r1]
  show ?thesis unfolding run by (rule disjE [OF st(1)]; rule disjE [OF st(2)]) (use ss rr in simp_all)
qed

text \<open>
  C21: \<open>Run\<close> tells the caller exactly what to wait for. When it returns true, the socket is in the
  write set exactly when a packet is still being written, and in the read set exactly when a packet
  is still being read; with nothing to wait for, nothing is queued, nobody waits for a response and
  the descriptor bound is 0; otherwise the bound is the socket's descriptor plus one.
\<close>

theorem run_waits_for_pending_io:
  assumes "v_Run cx v w = (Run_true reads writes nfds, v', w')" and "v_ok v"
  shows "writes = (if s_current_writer (v_sender v') = None then {} else {v_fd v}) \<and>
    reads = (if r_response (v_receiver v') = None then {} else {v_fd v}) \<and>
    nfds = (if reads = {} \<and> writes = {} then 0 else v_fd v + 1) \<and>
    (writes = {} \<longrightarrow> s_request_queue (v_sender v') = []) \<and>
    (reads = {} \<longrightarrow> r_map (v_receiver v') = []) \<and> \<not> v_failed v'"
  using v_Run_waits [OF assms] .

theorem run_waits_for_pending_io_witness:
  "\<exists>(v :: char list service) w v' w' writes. v_Run example_codec v w = (Run_true {} writes 10, v', w') \<and> writes = {9} \<and>
     s_current_writer (v_sender v') \<noteq> None"
proof -
  let ?v = "example_service\<lparr>v_sender := example_sender\<rparr>"
  let ?w = "\<lparr>w_rd = [], w_wr = [Wr_accept 1], w_out = [], w_log = []\<rparr>"
  let ?r = "r_after_handshake (initial_receiver example_options)"
  have sent: "case s_Send example_codec r_Enqueue example_sender ?r ?w of
      (st, s', r', w') \<Rightarrow> st = kIoWait \<and> s_current_writer s' \<noteq> None \<and> r_response r' = None \<and> r_map r' = []"
    by code_simp
  obtain st s' r' w' where S: "s_Send example_codec r_Enqueue example_sender ?r ?w = (st, s', r', w')"
    by (metis prod_cases4)
  have R: "r_Receive example_codec r' w' = (kIdle, r', w')"
    using sent S by (simp add: r_Receive.simps [of _ r'] r_turn_def r_next_def)
  have v: "v_failed ?v = False" "v_sender ?v = example_sender" "v_receiver ?v = ?r" "v_fd ?v = 9"
    by (simp_all add: example_service_def new_service_def)
  have run: "v_Run example_codec ?v ?w =
      (Run_true {} {9} 10, ?v\<lparr>v_sender := s', v_receiver := r'\<rparr>, w')"
    using sent S R by (simp add: v_Run_def v)
  have "v_ok ?v"
    by (simp add: v_ok_def example_service_def new_service_def example_sender_def r_live_def
        r_after_handshake_def initial_receiver_def r_maps_ok_def)
  from run_waits_for_pending_io [OF run this] sent S have
    "s_current_writer (v_sender (?v\<lparr>v_sender := s', v_receiver := r'\<rparr>)) \<noteq> None" by simp
  with run show ?thesis
    by (intro exI [of _ ?v] exI [of _ ?w] exI [of _ "?v\<lparr>v_sender := s', v_receiver := r'\<rparr>"]
        exI [of _ w'] exI [of _ "{9}"]) simp
qed

text \<open>
  A service that has failed stays failed and does no I/O: \<open>Run\<close> returns false without touching
  the socket, and a new request is answered at once with a shutdown error and never queued.
\<close>

lemma failed_service_is_inert:
  assumes "v_failed v"
  shows "v_Run cx v w = (Run_false, v, w) \<and>
    (case v_Submit cx m cmd val h v w of
       (key, v', w') \<Rightarrow> key = v_next_key v \<and> v_failed v' \<and> v_sender v' = v_sender v \<and>
         v_receiver v' = v_receiver v \<and> w_out w' = w_out w \<and>
         w_log w' = w_log w @ [Errored h (KineticStatus0 CLIENT_SHUTDOWN ''Client already shut down'') None])"
  using assms by (simp add: v_Run_def v_Submit_def Let_def already_shut_down_def)

end
