(* ===== verification/Handlers.thy ===== *)
theory Handlers
  imports Service
begin

text \<open>
  The handlers of the connection (\<open>nonblocking_kinetic_connection.cc\<close>): what each makes of a
  response or an error before it calls the application. An application's callback object is a value
  of any type \<open>'c\<close>; a call of one of its methods is a value of \<open>app_call\<close>.

  The name of a message type, which \<open>GetLogHandler\<close> reports, comes from generated code and is the
  parameter \<open>type_name\<close>.
\<close>

section \<open>Handlers and application callbacks\<close>

datatype 'c handler =
    GetHandler (handler_callback: 'c)
  | GetVersionHandler (handler_callback: 'c)
  | GetKeyRangeHandler (handler_callback: 'c)
  | MediaScanHandler (handler_callback: 'c)
  | MediaOptimizeHandler (handler_callback: 'c)
  | PutHandler (handler_callback: 'c)
  | SimpleHandler (handler_callback: 'c)
  | GetLogHandler (handler_callback: 'c)
  | P2PPushHandler (handler_callback: 'c)

datatype 'c app_call =
    Get_Success (app_callback: 'c) bytes kinetic_record
  | GetVersion_Success (app_callback: 'c) bytes
  | GetKeyRange_Success (app_callback: 'c) "bytes list"
  | MediaScan_Success (app_callback: 'c) "bytes list" bytes
  | MediaOptimize_Success (app_callback: 'c) bytes
  | Put_Success (app_callback: 'c)
  | Simple_Success (app_callback: 'c)
  | GetLog_Success (app_callback: 'c) drive_log
  | P2PPush_Success (app_callback: 'c) "kinetic_status list" command
  | App_Failure (app_callback: 'c) kinetic_status
  | P2PPush_Failure (app_callback: 'c) kinetic_status "command option"

definition GetHandler_Handle :: "'c \<Rightarrow> command \<Rightarrow> bytes option \<Rightarrow> 'c app_call" where
  "GetHandler_Handle c response value =
     (let kv = get_keyvalue response in
      Get_Success c (bytes_or_empty (kv_key kv))
        \<lparr>kr_value = value,
         kr_version = Some (bytes_or_empty (kv_dbversion kv)),
         kr_tag = Some (bytes_or_empty (kv_tag kv)),
         kr_algorithm = kv_algorithm kv\<rparr>)"

definition GetVersionHandler_Handle :: "'c \<Rightarrow> command \<Rightarrow> 'c app_call" where
  "GetVersionHandler_Handle c response =
     GetVersion_Success c (bytes_or_empty (kv_dbversion (get_keyvalue response)))"

text \<open>The loop that copies the keys of a range, index by index.\<close>

fun copy_keys :: "key_range \<Rightarrow> nat \<Rightarrow> bytes list" where
  "copy_keys rg 0 = []"
| "copy_keys rg (Suc n) = copy_keys rg n @ [rg_keys rg ! n]"

lemma copy_keys_take: "n \<le> length (rg_keys rg) \<Longrightarrow> copy_keys rg n = take n (rg_keys rg)"
  by (induction n) (simp_all add: take_Suc_conv_app_nth)

lemma copy_keys_all [simp]: "copy_keys rg (length (rg_keys rg)) = rg_keys rg"
  by (simp add: copy_keys_take)

definition GetKeyRangeHandler_Handle :: "'c \<Rightarrow> command \<Rightarrow> 'c app_call" where
  "GetKeyRangeHandler_Handle c response =
     (let rg = get_range response in GetKeyRange_Success c (copy_keys rg (length (rg_keys rg))))"

definition MediaScanHandler_Handle :: "'c \<Rightarrow> command \<Rightarrow> 'c app_call" where
  "MediaScanHandler_Handle c response =
     (let rg = get_range response in
      MediaScan_Success c (copy_keys rg (length (rg_keys rg))) (bytes_or_empty (rg_endkey rg)))"

definition MediaOptimizeHandler_Handle :: "'c \<Rightarrow> command \<Rightarrow> 'c app_call" where
  "MediaOptimizeHandler_Handle c response =
     MediaOptimize_Success c (bytes_or_empty (rg_endkey (get_range response)))"

definition log_configuration :: "proto_configuration \<Rightarrow> configuration" where
  "log_configuration p =
     \<lparr>cf_vendor = pcf_vendor p, cf_model = pcf_model p, cf_serial_number = pcf_serialnumber p,
      cf_version = pcf_version p, cf_port = pcf_port p, cf_tls_port = pcf_tlsport p,
      cf_compilation_date = pcf_compilationdate p, cf_source_hash = pcf_sourcehash p\<rparr>"

definition log_capacity :: "proto_capacity \<Rightarrow> capacity" where
  "log_capacity p =
     \<lparr>cp_nominal_capacity_in_bytes = pcp_nominalcapacityinbytes p, cp_portion_full = pcp_portionfull p\<rparr>"

definition log_limits :: "proto_limits \<Rightarrow> limits" where
  "log_limits p =
     \<lparr>lm_max_key_size = plm_maxkeysize p, lm_max_value_size = plm_maxvaluesize p,
      lm_max_version_size = plm_maxversionsize p, lm_max_tag_size = plm_maxtagsize p,
      lm_max_connections = plm_maxconnections p,
      lm_max_outstanding_read_requests = plm_maxoutstandingreadrequests p,
      lm_max_outstanding_write_requests = plm_maxoutstandingwriterequests p,
      lm_max_message_size = plm_maxmessagesize p\<rparr>"

definition log_statistic :: "(message_type \<Rightarrow> bytes) \<Rightarrow> proto_statistics \<Rightarrow> operation_statistic" where
  "log_statistic type_name p =
     \<lparr>st_name = type_name (pst_messagetype p), st_count = pst_count p, st_bytes = pst_bytes p\<rparr>"

definition log_utilization :: "proto_utilization \<Rightarrow> utilization" where
  "log_utilization p = \<lparr>ut_name = put_name p, ut_percent = put_value p\<rparr>"

definition log_temperature :: "proto_temperature \<Rightarrow> temperature" where
  "log_temperature p =
     \<lparr>tp_name = ptp_name p, tp_current_degc = ptp_current p, tp_min_degc = ptp_minimum p,
      tp_max_degc = ptp_maximum p, tp_target_degc = ptp_target p\<rparr>"

definition GetLogHandler_Handle :: "(message_type \<Rightarrow> bytes) \<Rightarrow> 'c \<Rightarrow> command \<Rightarrow> 'c app_call" where
  "GetLogHandler_Handle type_name c response =
     (let gl = get_getlog response in
      GetLog_Success c
        \<lparr>dl_configuration = log_configuration (gl_configuration gl),
         dl_capacity = log_capacity (gl_capacity gl),
         dl_operation_statistics = map (log_statistic type_name) (gl_statistics gl),
         dl_utilizations = map log_utilization (gl_utilizations gl),
         dl_temperatures = map log_temperature (gl_temperatures gl),
         dl_limits = log_limits (gl_limits gl),
         dl_messages = gl_messages gl\<rparr>)"

definition P2PPushHandler_Handle :: "'c \<Rightarrow> command \<Rightarrow> 'c app_call" where
  "P2PPushHandler_Handle c response =
     P2PPush_Success c
       (map (\<lambda>op. KineticStatus0 (ConvertFromProtoStatus (os_code (p2pop_status op)))
                     (os_statusmessage (p2pop_status op)))
          (p2p_operations (get_p2poperation response)))
       response"

fun handler_Handle ::
    "(message_type \<Rightarrow> bytes) \<Rightarrow> 'c handler \<Rightarrow> command \<Rightarrow> bytes option \<Rightarrow> 'c app_call" where
  "handler_Handle tn (GetHandler c) response value = GetHandler_Handle c response value"
| "handler_Handle tn (GetVersionHandler c) response value = GetVersionHandler_Handle c response"
| "handler_Handle tn (GetKeyRangeHandler c) response value = GetKeyRangeHandler_Handle c response"
| "handler_Handle tn (MediaScanHandler c) response value = MediaScanHandler_Handle c response"
| "handler_Handle tn (MediaOptimizeHandler c) response value = MediaOptimizeHandler_Handle c response"
| "handler_Handle tn (PutHandler c) response value = Put_Success c"
| "handler_Handle tn (SimpleHandler c) response value = Simple_Success c"
| "handler_Handle tn (GetLogHandler c) response value = GetLogHandler_Handle tn c response"
| "handler_Handle tn (P2PPushHandler c) response value = P2PPushHandler_Handle c response"

fun handler_Error :: "'c handler \<Rightarrow> kinetic_status \<Rightarrow> command option \<Rightarrow> 'c app_call" where
  "handler_Error (P2PPushHandler c) error response = P2PPush_Failure c error response"
| "handler_Error h error response = App_Failure (handler_callback h) error"

text \<open>What a call of a handler does to the application.\<close>

fun deliver :: "(message_type \<Rightarrow> bytes) \<Rightarrow> 'c handler callback \<Rightarrow> 'c app_call" where
  "deliver tn (Handled h response value) = handler_Handle tn h response value"
| "deliver tn (Errored h error response) = handler_Error h error response"

lemma deliver_callback [simp]: "app_callback (deliver tn cb) = handler_callback (cb_handler cb)"
proof (cases cb)
  case (Handled h response v)
  then show ?thesis
    by (cases h) (simp_all add: GetHandler_Handle_def GetVersionHandler_Handle_def
        GetKeyRangeHandler_Handle_def MediaScanHandler_Handle_def MediaOptimizeHandler_Handle_def
        GetLogHandler_Handle_def P2PPushHandler_Handle_def Let_def)
next
  case (Errored h e response)
  then show ?thesis by (cases h) simp_all
qed

section \<open>From a response to the application\<close>

text \<open>
  The kinds of result that a handler's interface allows: a handler can only make calls of its own
  callback interface.
\<close>

definition answers :: "'c handler \<Rightarrow> 'c app_call \<Rightarrow> bool" where
  "answers h a \<longleftrightarrow> app_callback a = handler_callback h \<and>
     (case h of
        GetHandler _ \<Rightarrow> is_Get_Success a
      | GetVersionHandler _ \<Rightarrow> is_GetVersion_Success a
      | GetKeyRangeHandler _ \<Rightarrow> is_GetKeyRange_Success a
      | MediaScanHandler _ \<Rightarrow> is_MediaScan_Success a
      | MediaOptimizeHandler _ \<Rightarrow> is_MediaOptimize_Success a
      | PutHandler _ \<Rightarrow> is_Put_Success a
      | SimpleHandler _ \<Rightarrow> is_Simple_Success a
      | GetLogHandler _ \<Rightarrow> is_GetLog_Success a
      | P2PPushHandler _ \<Rightarrow> is_P2PPush_Success a)"

definition app_error_code :: "'c handler \<Rightarrow> 'c app_call \<Rightarrow> status_code option" where
  "app_error_code h a =
     (case a of
        App_Failure _ e \<Rightarrow> if is_P2PPushHandler h then None else Some (ks_code e)
      | P2PPush_Failure _ e _ \<Rightarrow> if is_P2PPushHandler h then Some (ks_code e) else None
      | _ \<Rightarrow> None)"

definition is_failure :: "'c handler \<Rightarrow> status_code \<Rightarrow> 'c app_call \<Rightarrow> bool" where
  "is_failure h code a \<longleftrightarrow> app_callback a = handler_callback h \<and> app_error_code h a = Some code"

text \<open>
  C27: A response is reported as what it is. A response with status SUCCESS makes the one success
  call of the handler's own callback interface; a response with any other status makes the failure
  call, with the code the protocol's status converts to; and both go to the callback object of the
  request.
\<close>

theorem response_reported_truthfully:
  "if os_code (cmd_status response) = PROTO_SUCCESS
   then answers h (deliver tn (r_answer h response v))
   else is_failure h (ConvertFromProtoStatus (os_code (cmd_status response))) (deliver tn (r_answer h response v))"
  by (cases h) (simp_all add: r_answer_def answers_def is_failure_def app_error_code_def
      GetHandler_Handle_def GetVersionHandler_Handle_def
      GetKeyRangeHandler_Handle_def MediaScanHandler_Handle_def MediaOptimizeHandler_Handle_def
      GetLogHandler_Handle_def P2PPushHandler_Handle_def Let_def)

text \<open>
  C26: A failure reaches the application without loss. Whatever response other than a success the drive
  sends, the failure call of the handler has a status from which the client's own conversion back to the
  protocol gives the drive's status again; only statuses that the client has no name for (and
  INVALID_STATUS_CODE) all become other errors. The drive's cluster version is passed on exactly for a
  cluster version mismatch, and the message is never empty.
\<close>

theorem response_status_recoverable:
  assumes "os_code (cmd_status response) = p" and "p \<noteq> PROTO_SUCCESS"
  shows "\<exists>e. deliver tn (r_answer h response v) =
      (case h of P2PPushHandler c \<Rightarrow> P2PPush_Failure c e (Some response) | _ \<Rightarrow> App_Failure (handler_callback h) e) \<and>
    (ConvertToProtoStatus (ks_code e) = p \<longleftrightarrow> p \<noteq> PROTO_INVALID_STATUS_CODE \<and> (\<nexists>n. p = PROTO_UNLISTED n)) \<and>
    (\<forall>n. p = PROTO_UNLISTED n \<longrightarrow> ks_code e = REMOTE_OTHER_ERROR) \<and>
    (ks_expected_cluster_version e \<noteq> 0 \<longrightarrow> p = PROTO_VERSION_FAILURE) \<and>
    (p = PROTO_VERSION_FAILURE \<longrightarrow> h_clusterversion (cmd_header response) = Some u \<longrightarrow> ks_expected_cluster_version e = u) \<and>
    ks_message e \<noteq> ''''"
proof -
  let ?e = "GetKineticStatus (ConvertFromProtoStatus p) (int64_or_0 (h_clusterversion (cmd_header response)))"
  have d: "deliver tn (r_answer h response v) =
      (case h of P2PPushHandler c \<Rightarrow> P2PPush_Failure c ?e (Some response) | _ \<Rightarrow> App_Failure (handler_callback h) ?e)"
    using assms by (cases h) (simp_all add: r_answer_def)
  have c: "\<forall>n. p = PROTO_UNLISTED n \<longrightarrow> ks_code ?e = REMOTE_OTHER_ERROR" by auto
  have m: "ks_message ?e \<noteq> ''''" "ks_expected_cluster_version ?e \<noteq> 0 \<longrightarrow> p = PROTO_VERSION_FAILURE"
    "p = PROTO_VERSION_FAILURE \<longrightarrow> h_clusterversion (cmd_header response) = Some u \<longrightarrow> ks_expected_cluster_version ?e = u"
    by (cases p; simp)+
  show ?thesis using d c m status_code_roundtrip [of p] by (intro exI [of _ ?e]) simp
qed

theorem response_status_recoverable_witness:
  "\<exists>e. deliver (\<lambda>_. []) (r_answer (GetHandler ''cb'')
      (empty_command\<lparr>cmd_header := (cmd_header empty_command)\<lparr>h_clusterversion := Some 7\<rparr>,
        cmd_status := \<lparr>os_code = PROTO_VERSION_FAILURE, os_statusmessage = ''''\<rparr>\<rparr>) None) =
    App_Failure ''cb'' e \<and> ConvertToProtoStatus (ks_code e) = PROTO_VERSION_FAILURE \<and> ks_expected_cluster_version e = 7"
  using response_status_recoverable [of "empty_command\<lparr>cmd_header := (cmd_header empty_command)\<lparr>h_clusterversion := Some 7\<rparr>,
    cmd_status := \<lparr>os_code = PROTO_VERSION_FAILURE, os_statusmessage = ''''\<rparr>\<rparr>"
    PROTO_VERSION_FAILURE "\<lambda>_. []" "GetHandler ''cb''" None 7] by auto

end
