(* ===== verification/Connection.thy ===== *)
theory Connection
  imports Handlers
begin

text \<open>
  \<open>NonblockingKineticConnection\<close> (\<open>nonblocking_kinetic_connection.cc\<close>): every operation of the API
  builds a message and a command and submits them to the packet service. The overloads for
  \<open>std::string\<close> and \<open>std::shared_ptr<const std::string>\<close> only differ in how the caller owns the
  string and are one definition here. A string pointer that the source tests for null is an option.
\<close>

section \<open>State\<close>

record 'c connection =
  n_service :: "'c handler service"
  n_cluster_version :: int64

type_synonym 'c hworld = "'c handler world"

definition empty_str :: bytes where
  "empty_str = []"

definition NonblockingKineticConnection :: "'c handler service \<Rightarrow> 'c connection" where
  "NonblockingKineticConnection service = \<lparr>n_service = service, n_cluster_version = 0\<rparr>"

definition n_destroy :: "'c connection \<Rightarrow> 'c hworld \<Rightarrow> 'c hworld option" where
  "n_destroy n w = v_destroy (n_service n) w"

definition n_Run :: "codec \<Rightarrow> 'c connection \<Rightarrow> 'c hworld \<Rightarrow> run_result \<times> 'c connection \<times> 'c hworld" where
  "n_Run cx n w =
     (case v_Run cx (n_service n) w of (res, v, w') \<Rightarrow> (res, n\<lparr>n_service := v\<rparr>, w'))"

definition SetClientClusterVersion :: "int64 \<Rightarrow> 'c connection \<Rightarrow> 'c connection" where
  "SetClientClusterVersion version n = n\<lparr>n_cluster_version := version\<rparr>"

definition RemoveHandler :: "handler_key \<Rightarrow> 'c connection \<Rightarrow> (bool \<times> 'c connection) option" where
  "RemoveHandler key n =
     map_option (\<lambda>(b, v). (b, n\<lparr>n_service := v\<rparr>)) (v_Remove key (n_service n))"

definition n_Submit ::
    "codec \<Rightarrow> message \<Rightarrow> command \<Rightarrow> bytes \<Rightarrow> 'c handler \<Rightarrow> 'c connection \<Rightarrow> 'c hworld
     \<Rightarrow> handler_key \<times> 'c connection \<times> 'c hworld" where
  "n_Submit cx msg request val handler n w =
     (case v_Submit cx msg request val handler (n_service n) w of
        (key, v, w') \<Rightarrow> (key, n\<lparr>n_service := v\<rparr>, w'))"

section \<open>Building messages\<close>

definition hmac_message :: message where
  "hmac_message = new_message\<lparr>msg_authtype := HMACAUTH\<rparr>"

definition pin_message :: "bytes option \<Rightarrow> message" where
  "pin_message pin = new_message\<lparr>msg_authtype := PINAUTH, msg_pin := pin\<rparr>"

definition NewCommand :: "message_type \<Rightarrow> 'c connection \<Rightarrow> command" where
  "NewCommand mt n =
     empty_command\<lparr>cmd_header := empty_header\<lparr>h_messagetype := Some mt,
                                             h_clusterversion := Some (n_cluster_version n)\<rparr>\<rparr>"

text \<open>\<open>mutable_body()->mutable_x()\<close>: the submessage comes into being with its first field.\<close>

definition with_keyvalue :: "(keyvalue \<Rightarrow> keyvalue) \<Rightarrow> command \<Rightarrow> command" where
  "with_keyvalue f c = c\<lparr>cmd_body := (cmd_body c)\<lparr>b_keyvalue := Some (f (get_keyvalue c))\<rparr>\<rparr>"

definition with_range :: "(key_range \<Rightarrow> key_range) \<Rightarrow> command \<Rightarrow> command" where
  "with_range f c = c\<lparr>cmd_body := (cmd_body c)\<lparr>b_range := Some (f (get_range c))\<rparr>\<rparr>"

definition with_setup :: "(setup_body \<Rightarrow> setup_body) \<Rightarrow> command \<Rightarrow> command" where
  "with_setup f c = c\<lparr>cmd_body := (cmd_body c)\<lparr>b_setup :=
     Some (f (case b_setup (cmd_body c) of Some su \<Rightarrow> su | None \<Rightarrow> empty_setup))\<rparr>\<rparr>"

definition with_security :: "(security \<Rightarrow> security) \<Rightarrow> command \<Rightarrow> command" where
  "with_security f c = c\<lparr>cmd_body := (cmd_body c)\<lparr>b_security :=
     Some (f (case b_security (cmd_body c) of Some se \<Rightarrow> se | None \<Rightarrow> empty_security))\<rparr>\<rparr>"

definition with_getlog :: "(getlog \<Rightarrow> getlog) \<Rightarrow> command \<Rightarrow> command" where
  "with_getlog f c = c\<lparr>cmd_body := (cmd_body c)\<lparr>b_getlog := Some (f (get_getlog c))\<rparr>\<rparr>"

definition with_pinop :: "pin_op_type \<Rightarrow> command \<Rightarrow> command" where
  "with_pinop op c = c\<lparr>cmd_body := (cmd_body c)\<lparr>b_pinop := Some op\<rparr>\<rparr>"

definition with_priority :: "priority \<Rightarrow> command \<Rightarrow> command" where
  "with_priority p c = c\<lparr>cmd_header := (cmd_header c)\<lparr>h_priority := Some p\<rparr>\<rparr>"

fun GetSynchronizationForPersistMode :: "persist_mode \<Rightarrow> synchronization" where
  "GetSynchronizationForPersistMode WRITE_BACK = SYNC_WRITEBACK"
| "GetSynchronizationForPersistMode WRITE_THROUGH = SYNC_WRITETHROUGH"
| "GetSynchronizationForPersistMode FLUSH = SYNC_FLUSH"

type_synonym 'c api = "'c connection \<Rightarrow> 'c hworld \<Rightarrow> handler_key \<times> 'c connection \<times> 'c hworld"

section \<open>Operations on keys\<close>

definition NoOp :: "codec \<Rightarrow> 'c \<Rightarrow> 'c api" where
  "NoOp cx c n = n_Submit cx hmac_message (NewCommand MT_NOOP n) empty_str (SimpleHandler c) n"

definition GenericGet :: "codec \<Rightarrow> bytes \<Rightarrow> 'c \<Rightarrow> message_type \<Rightarrow> 'c api" where
  "GenericGet cx key c mt n =
     n_Submit cx hmac_message (with_keyvalue (\<lambda>kv. kv\<lparr>kv_key := Some key\<rparr>) (NewCommand mt n))
       empty_str (GetHandler c) n"

definition Get :: "codec \<Rightarrow> bytes \<Rightarrow> 'c \<Rightarrow> 'c api" where
  "Get cx key c = GenericGet cx key c MT_GET"

definition GetNext :: "codec \<Rightarrow> bytes \<Rightarrow> 'c \<Rightarrow> 'c api" where
  "GetNext cx key c = GenericGet cx key c MT_GETNEXT"

definition GetPrevious :: "codec \<Rightarrow> bytes \<Rightarrow> 'c \<Rightarrow> 'c api" where
  "GetPrevious cx key c = GenericGet cx key c MT_GETPREVIOUS"

definition GetVersion :: "codec \<Rightarrow> bytes \<Rightarrow> 'c \<Rightarrow> 'c api" where
  "GetVersion cx key c n =
     n_Submit cx hmac_message (with_keyvalue (\<lambda>kv. kv\<lparr>kv_key := Some key\<rparr>) (NewCommand MT_GETVERSION n))
       empty_str (GetVersionHandler c) n"

definition GetKeyRange ::
    "codec \<Rightarrow> bytes \<Rightarrow> bool \<Rightarrow> bytes \<Rightarrow> bool \<Rightarrow> bool \<Rightarrow> 32 word \<Rightarrow> 'c \<Rightarrow> 'c api" where
  "GetKeyRange cx start_key start_key_inclusive end_key end_key_inclusive reverse_results max_results c n =
     n_Submit cx hmac_message
       (with_range (\<lambda>r. r\<lparr>rg_startkey := Some start_key,
                          rg_startkeyinclusive := Some start_key_inclusive,
                          rg_endkey := Some end_key,
                          rg_endkeyinclusive := Some end_key_inclusive,
                          rg_reverse := Some reverse_results,
                          rg_maxreturned := Some max_results\<rparr>)
          (NewCommand MT_GETKEYRANGE n))
       empty_str (GetKeyRangeHandler c) n"

text \<open>
  \<open>Put\<close> dereferences the tag of the record, and the value when the request is written: a record
  without them has no defined behaviour, which is None. The version may be null.
\<close>

definition Put ::
    "codec \<Rightarrow> bytes \<Rightarrow> bytes \<Rightarrow> write_mode \<Rightarrow> kinetic_record \<Rightarrow> 'c \<Rightarrow> persist_mode
     \<Rightarrow> 'c connection \<Rightarrow> 'c hworld \<Rightarrow> (handler_key \<times> 'c connection \<times> 'c hworld) option" where
  "Put cx key current_version mode record c persistMode n w =
     (case (kr_tag record, kr_value record) of
        (Some tag, Some val) \<Rightarrow>
          let request = with_keyvalue (\<lambda>kv. kv\<lparr>kv_key := Some key, kv_dbversion := Some current_version,
                  kv_force := Some (mode = IGNORE_VERSION)\<rparr>) (NewCommand MT_PUT n);
              request1 = (case kr_version record of
                  Some v \<Rightarrow> with_keyvalue (\<lambda>kv. kv\<lparr>kv_newversion := Some v\<rparr>) request
                | None \<Rightarrow> request);
              request2 = with_keyvalue (\<lambda>kv. kv\<lparr>kv_tag := Some tag, kv_algorithm := kr_algorithm record,
                  kv_synchronization := Some (GetSynchronizationForPersistMode persistMode)\<rparr>) request1
          in Some (n_Submit cx hmac_message request2 val (PutHandler c) n w)
      | _ \<Rightarrow> None)"

definition Put_default ::
    "codec \<Rightarrow> bytes \<Rightarrow> bytes \<Rightarrow> write_mode \<Rightarrow> kinetic_record \<Rightarrow> 'c
     \<Rightarrow> 'c connection \<Rightarrow> 'c hworld \<Rightarrow> (handler_key \<times> 'c connection \<times> 'c hworld) option" where
  "Put_default cx key current_version mode record c =
     Put cx key current_version mode record c WRITE_BACK"

definition Delete ::
    "codec \<Rightarrow> bytes \<Rightarrow> bytes \<Rightarrow> write_mode \<Rightarrow> 'c \<Rightarrow> persist_mode \<Rightarrow> 'c api" where
  "Delete cx key version mode c persistMode n =
     n_Submit cx hmac_message
       (with_keyvalue (\<lambda>kv. kv\<lparr>kv_key := Some key, kv_dbversion := Some version,
            kv_force := Some (mode = IGNORE_VERSION),
            kv_synchronization := Some (GetSynchronizationForPersistMode persistMode)\<rparr>)
          (NewCommand MT_DELETE n))
       empty_str (SimpleHandler c) n"

definition Delete_default :: "codec \<Rightarrow> bytes \<Rightarrow> bytes \<Rightarrow> write_mode \<Rightarrow> 'c \<Rightarrow> 'c api" where
  "Delete_default cx key version mode c = Delete cx key version mode c WRITE_BACK"

section \<open>Operations on the device\<close>

definition SecureErase :: "codec \<Rightarrow> bytes option \<Rightarrow> 'c \<Rightarrow> 'c api" where
  "SecureErase cx pin c n =
     n_Submit cx (pin_message pin) (with_pinop SECURE_ERASE_PINOP (NewCommand MT_PINOP n))
       empty_str (SimpleHandler c) n"

definition InstantErase :: "codec \<Rightarrow> bytes option \<Rightarrow> 'c \<Rightarrow> 'c api" where
  "InstantErase cx pin c n =
     n_Submit cx (pin_message pin) (with_pinop ERASE_PINOP (NewCommand MT_PINOP n))
       empty_str (SimpleHandler c) n"

definition LockDevice :: "codec \<Rightarrow> bytes option \<Rightarrow> 'c \<Rightarrow> 'c api" where
  "LockDevice cx pin c n =
     n_Submit cx (pin_message pin) (with_pinop LOCK_PINOP (NewCommand MT_PINOP n))
       empty_str (SimpleHandler c) n"

definition UnlockDevice :: "codec \<Rightarrow> bytes option \<Rightarrow> 'c \<Rightarrow> 'c api" where
  "UnlockDevice cx pin c n =
     n_Submit cx (pin_message pin) (with_pinop UNLOCK_PINOP (NewCommand MT_PINOP n))
       empty_str (SimpleHandler c) n"

definition Flush :: "codec \<Rightarrow> 'c \<Rightarrow> 'c api" where
  "Flush cx c n =
     n_Submit cx hmac_message (NewCommand MT_FLUSHALLDATA n) empty_str (SimpleHandler c) n"

definition SetClusterVersion :: "codec \<Rightarrow> int64 \<Rightarrow> 'c \<Rightarrow> 'c api" where
  "SetClusterVersion cx new_cluster_version c n =
     n_Submit cx hmac_message
       (with_setup (\<lambda>su. su\<lparr>su_newclusterversion := Some new_cluster_version\<rparr>) (NewCommand MT_SETUP n))
       empty_str (SimpleHandler c) n"

fun add_types :: "getlog_type list \<Rightarrow> command \<Rightarrow> command" where
  "add_types [] request = request"
| "add_types (t # ts) request =
     add_types ts (with_getlog (\<lambda>g. g\<lparr>gl_types := gl_types g @ [t]\<rparr>) request)"

definition GetLog :: "codec \<Rightarrow> getlog_type list \<Rightarrow> 'c \<Rightarrow> 'c api" where
  "GetLog cx types c n =
     n_Submit cx hmac_message (add_types types (NewCommand MT_GETLOG n)) empty_str (GetLogHandler c) n"

definition GetLog_all :: "codec \<Rightarrow> 'c \<Rightarrow> 'c api" where
  "GetLog_all cx c =
     GetLog cx [LOG_UTILIZATIONS, LOG_TEMPERATURES, LOG_CAPACITIES, LOG_CONFIGURATION, LOG_STATISTICS,
                LOG_MESSAGES, LOG_LIMITS] c"

definition UpdateFirmware :: "codec \<Rightarrow> bytes \<Rightarrow> 'c \<Rightarrow> 'c api" where
  "UpdateFirmware cx new_firmware c n =
     n_Submit cx hmac_message
       (with_setup (\<lambda>su. su\<lparr>su_firmwaredownload := Some True\<rparr>) (NewCommand MT_SETUP n))
       new_firmware (SimpleHandler c) n"
section \<open>Security\<close>

fun permission_to_proto :: "permission \<Rightarrow> proto_permission" where
  "permission_to_proto PERM_READ = PROTO_PERM_READ"
| "permission_to_proto PERM_WRITE = PROTO_PERM_WRITE"
| "permission_to_proto PERM_DELETE = PROTO_PERM_DELETE"
| "permission_to_proto PERM_RANGE = PROTO_PERM_RANGE"
| "permission_to_proto PERM_SETUP = PROTO_PERM_SETUP"
| "permission_to_proto PERM_P2POP = PROTO_PERM_P2POP"
| "permission_to_proto PERM_GETLOG = PROTO_PERM_GETLOG"
| "permission_to_proto PERM_SECURITY = PROTO_PERM_SECURITY"

definition scope_to_proto :: "scope \<Rightarrow> proto_scope" where
  "scope_to_proto sc =
     \<lparr>ps_offset = sc_offset sc, ps_value = sc_value sc,
      ps_permission = map permission_to_proto (sc_permissions sc)\<rparr>"

definition acl_to_proto :: "acl \<Rightarrow> proto_acl" where
  "acl_to_proto a =
     \<lparr>pa_identity = acl_identity a, pa_key = acl_hmac_key a, pa_hmacalgorithm = HmacSHA1,
      pa_scope = map scope_to_proto (acl_scopes a)\<rparr>"

fun add_acls :: "acl list \<Rightarrow> command \<Rightarrow> command" where
  "add_acls [] request = request"
| "add_acls (a # as) request =
     add_acls as (with_security (\<lambda>se. se\<lparr>se_acl := se_acl se @ [acl_to_proto a]\<rparr>) request)"

definition SetACLs :: "codec \<Rightarrow> acl list \<Rightarrow> 'c \<Rightarrow> 'c api" where
  "SetACLs cx acls c n =
     n_Submit cx hmac_message (add_acls acls (NewCommand MT_SECURITY n)) empty_str (SimpleHandler c) n"

text \<open>A null PIN leaves its field unset.\<close>

definition set_if_given :: "bytes option \<Rightarrow> (bytes \<Rightarrow> security \<Rightarrow> security) \<Rightarrow> command \<Rightarrow> command" where
  "set_if_given pin setter request =
     (case pin of Some p \<Rightarrow> with_security (setter p) request | None \<Rightarrow> request)"

definition SetLockPIN :: "codec \<Rightarrow> bytes option \<Rightarrow> bytes option \<Rightarrow> 'c \<Rightarrow> 'c api" where
  "SetLockPIN cx new_pin current_pin c n =
     n_Submit cx hmac_message
       (set_if_given new_pin (\<lambda>p se. se\<lparr>se_newlockpin := Some p\<rparr>)
         (set_if_given current_pin (\<lambda>p se. se\<lparr>se_oldlockpin := Some p\<rparr>) (NewCommand MT_SECURITY n)))
       empty_str (SimpleHandler c) n"

definition SetErasePIN :: "codec \<Rightarrow> bytes option \<Rightarrow> bytes option \<Rightarrow> 'c \<Rightarrow> 'c api" where
  "SetErasePIN cx new_pin current_pin c n =
     n_Submit cx hmac_message
       (set_if_given new_pin (\<lambda>p se. se\<lparr>se_newerasepin := Some p\<rparr>)
         (set_if_given current_pin (\<lambda>p se. se\<lparr>se_olderasepin := Some p\<rparr>) (NewCommand MT_SECURITY n)))
       empty_str (SimpleHandler c) n"

section \<open>Peer-to-peer push\<close>

definition unset_status :: proto_operation_status where
  "unset_status = \<lparr>os_code = PROTO_INVALID_STATUS_CODE, os_statusmessage = ''''\<rparr>"

primrec PopulateP2PMessage :: "p2p_push_request \<Rightarrow> p2p_message"
and PopulateP2POperation :: "p2p_push_operation \<Rightarrow> p2p_operation" where
  "PopulateP2PMessage (P2PPushRequest host port ops) =
     P2P_message host port (map PopulateP2POperation ops)"
| "PopulateP2POperation (P2PPushOperation key version newKey force request) =
     P2P_operation key version
       (if newKey \<noteq> [] \<and> newKey \<noteq> key then Some newKey else None)
       force (map_option PopulateP2PMessage request) unset_status"

definition P2PPush :: "codec \<Rightarrow> p2p_push_request \<Rightarrow> 'c \<Rightarrow> 'c api" where
  "P2PPush cx push_request c n =
     (let request = NewCommand MT_PEER2PEERPUSH n in
      n_Submit cx hmac_message
        (request\<lparr>cmd_body := (cmd_body request)\<lparr>b_p2poperation := Some (PopulateP2PMessage push_request)\<rparr>\<rparr>)
        empty_str (P2PPushHandler c) n)"

section \<open>Media maintenance\<close>

definition MediaScan :: "codec \<Rightarrow> bytes \<Rightarrow> bool \<Rightarrow> bytes \<Rightarrow> bool \<Rightarrow> 32 word \<Rightarrow> 'c \<Rightarrow> 'c api" where
  "MediaScan cx start_key start_key_inclusive end_key end_key_inclusive max_results c n =
     n_Submit cx hmac_message
       (with_range (\<lambda>r. r\<lparr>rg_startkey := Some start_key,
                          rg_startkeyinclusive := Some start_key_inclusive,
                          rg_endkey := Some end_key,
                          rg_endkeyinclusive := Some end_key_inclusive,
                          rg_maxreturned := Some max_results\<rparr>)
          (with_priority PRIORITY_LOWER (NewCommand MT_MEDIASCAN n)))
       empty_str (MediaScanHandler c) n"

definition MediaOptimize :: "codec \<Rightarrow> bytes \<Rightarrow> bool \<Rightarrow> bytes \<Rightarrow> bool \<Rightarrow> 'c \<Rightarrow> 'c api" where
  "MediaOptimize cx start_key start_key_inclusive end_key end_key_inclusive c n =
     n_Submit cx hmac_message
       (with_range (\<lambda>r. r\<lparr>rg_startkey := Some start_key,
                          rg_startkeyinclusive := Some start_key_inclusive,
                          rg_endkey := Some end_key,
                          rg_endkeyinclusive := Some end_key_inclusive\<rparr>)
          (with_priority PRIORITY_LOWER (NewCommand MT_MEDIAOPTIMIZE n)))
       empty_str (MediaOptimizeHandler c) n"

section \<open>The interface as a whole\<close>

text \<open>
  The calls of \<open>NonblockingKineticConnectionInterface\<close> that submit a request, and their dispatch.
  The optional arguments are the overloads without a persist mode or log types.
\<close>

datatype 'c nb_call =
    Call_NoOp 'c
  | Call_Get bytes 'c
  | Call_GetNext bytes 'c
  | Call_GetPrevious bytes 'c
  | Call_GetVersion bytes 'c
  | Call_GetKeyRange bytes bool bytes bool bool "32 word" 'c
  | Call_MediaScan bytes bool bytes bool "32 word" 'c
  | Call_MediaOptimize bytes bool bytes bool 'c
  | Call_Put bytes bytes write_mode kinetic_record 'c "persist_mode option"
  | Call_Delete bytes bytes write_mode 'c "persist_mode option"
  | Call_P2PPush p2p_push_request 'c
  | Call_GetLog "getlog_type list option" 'c
  | Call_Flush 'c
  | Call_UpdateFirmware bytes 'c
  | Call_SetClusterVersion int64 'c
  | Call_SetACLs "acl list" 'c
  | Call_SetErasePIN "bytes option" "bytes option" 'c
  | Call_SetLockPIN "bytes option" "bytes option" 'c
  | Call_InstantErase "bytes option" 'c
  | Call_SecureErase "bytes option" 'c
  | Call_LockDevice "bytes option" 'c
  | Call_UnlockDevice "bytes option" 'c

fun nb_exec ::
    "codec \<Rightarrow> 'c nb_call \<Rightarrow> 'c connection \<Rightarrow> 'c hworld \<Rightarrow> (handler_key \<times> 'c connection \<times> 'c hworld) option" where
  "nb_exec cx (Call_NoOp c) n w = Some (NoOp cx c n w)"
| "nb_exec cx (Call_Get k c) n w = Some (Get cx k c n w)"
| "nb_exec cx (Call_GetNext k c) n w = Some (GetNext cx k c n w)"
| "nb_exec cx (Call_GetPrevious k c) n w = Some (GetPrevious cx k c n w)"
| "nb_exec cx (Call_GetVersion k c) n w = Some (GetVersion cx k c n w)"
| "nb_exec cx (Call_GetKeyRange s si e ei rv m c) n w = Some (GetKeyRange cx s si e ei rv m c n w)"
| "nb_exec cx (Call_MediaScan s si e ei m c) n w = Some (MediaScan cx s si e ei m c n w)"
| "nb_exec cx (Call_MediaOptimize s si e ei c) n w = Some (MediaOptimize cx s si e ei c n w)"
| "nb_exec cx (Call_Put k v mode r c None) n w = Put_default cx k v mode r c n w"
| "nb_exec cx (Call_Put k v mode r c (Some p)) n w = Put cx k v mode r c p n w"
| "nb_exec cx (Call_Delete k v mode c None) n w = Some (Delete_default cx k v mode c n w)"
| "nb_exec cx (Call_Delete k v mode c (Some p)) n w = Some (Delete cx k v mode c p n w)"
| "nb_exec cx (Call_P2PPush r c) n w = Some (P2PPush cx r c n w)"
| "nb_exec cx (Call_GetLog None c) n w = Some (GetLog_all cx c n w)"
| "nb_exec cx (Call_GetLog (Some ts) c) n w = Some (GetLog cx ts c n w)"
| "nb_exec cx (Call_Flush c) n w = Some (Flush cx c n w)"
| "nb_exec cx (Call_UpdateFirmware f c) n w = Some (UpdateFirmware cx f c n w)"
| "nb_exec cx (Call_SetClusterVersion v c) n w = Some (SetClusterVersion cx v c n w)"
| "nb_exec cx (Call_SetACLs as c) n w = Some (SetACLs cx as c n w)"
| "nb_exec cx (Call_SetErasePIN new cur c) n w = Some (SetErasePIN cx new cur c n w)"
| "nb_exec cx (Call_SetLockPIN new cur c) n w = Some (SetLockPIN cx new cur c n w)"
| "nb_exec cx (Call_InstantErase pin c) n w = Some (InstantErase cx pin c n w)"
| "nb_exec cx (Call_SecureErase pin c) n w = Some (SecureErase cx pin c n w)"
| "nb_exec cx (Call_LockDevice pin c) n w = Some (LockDevice cx pin c n w)"
| "nb_exec cx (Call_UnlockDevice pin c) n w = Some (UnlockDevice cx pin c n w)"

section \<open>What a call is expected to submit\<close>

text \<open>The protocol's table: the type of message and the kind of handler that belong to each call.\<close>

fun call_type :: "'c nb_call \<Rightarrow> message_type" where
  "call_type (Call_NoOp _) = MT_NOOP"
| "call_type (Call_Get _ _) = MT_GET"
| "call_type (Call_GetNext _ _) = MT_GETNEXT"
| "call_type (Call_GetPrevious _ _) = MT_GETPREVIOUS"
| "call_type (Call_GetVersion _ _) = MT_GETVERSION"
| "call_type (Call_GetKeyRange _ _ _ _ _ _ _) = MT_GETKEYRANGE"
| "call_type (Call_MediaScan _ _ _ _ _ _) = MT_MEDIASCAN"
| "call_type (Call_MediaOptimize _ _ _ _ _) = MT_MEDIAOPTIMIZE"
| "call_type (Call_Put _ _ _ _ _ _) = MT_PUT"
| "call_type (Call_Delete _ _ _ _ _) = MT_DELETE"
| "call_type (Call_P2PPush _ _) = MT_PEER2PEERPUSH"
| "call_type (Call_GetLog _ _) = MT_GETLOG"
| "call_type (Call_Flush _) = MT_FLUSHALLDATA"
| "call_type (Call_UpdateFirmware _ _) = MT_SETUP"
| "call_type (Call_SetClusterVersion _ _) = MT_SETUP"
| "call_type (Call_SetACLs _ _) = MT_SECURITY"
| "call_type (Call_SetErasePIN _ _ _) = MT_SECURITY"
| "call_type (Call_SetLockPIN _ _ _) = MT_SECURITY"
| "call_type (Call_InstantErase _ _) = MT_PINOP"
| "call_type (Call_SecureErase _ _) = MT_PINOP"
| "call_type (Call_LockDevice _ _) = MT_PINOP"
| "call_type (Call_UnlockDevice _ _) = MT_PINOP"

fun call_handler :: "'c nb_call \<Rightarrow> 'c handler" where
  "call_handler (Call_NoOp c) = SimpleHandler c"
| "call_handler (Call_Get _ c) = GetHandler c"
| "call_handler (Call_GetNext _ c) = GetHandler c"
| "call_handler (Call_GetPrevious _ c) = GetHandler c"
| "call_handler (Call_GetVersion _ c) = GetVersionHandler c"
| "call_handler (Call_GetKeyRange _ _ _ _ _ _ c) = GetKeyRangeHandler c"
| "call_handler (Call_MediaScan _ _ _ _ _ c) = MediaScanHandler c"
| "call_handler (Call_MediaOptimize _ _ _ _ c) = MediaOptimizeHandler c"
| "call_handler (Call_Put _ _ _ _ c _) = PutHandler c"
| "call_handler (Call_P2PPush _ c) = P2PPushHandler c"
| "call_handler (Call_GetLog _ c) = GetLogHandler c"
| "call_handler (Call_Delete _ _ _ c _) = SimpleHandler c"
| "call_handler (Call_Flush c) = SimpleHandler c"
| "call_handler (Call_UpdateFirmware _ c) = SimpleHandler c"
| "call_handler (Call_SetClusterVersion _ c) = SimpleHandler c"
| "call_handler (Call_SetACLs _ c) = SimpleHandler c"
| "call_handler (Call_SetErasePIN _ _ c) = SimpleHandler c"
| "call_handler (Call_SetLockPIN _ _ c) = SimpleHandler c"
| "call_handler (Call_InstantErase _ c) = SimpleHandler c"
| "call_handler (Call_SecureErase _ c) = SimpleHandler c"
| "call_handler (Call_LockDevice _ c) = SimpleHandler c"
| "call_handler (Call_UnlockDevice _ c) = SimpleHandler c"

definition call_authtype :: "'c nb_call \<Rightarrow> auth_type" where
  "call_authtype call = (if call_type call = MT_PINOP then PINAUTH else HMACAUTH)"

section \<open>What a call submits\<close>

lemma with_header [simp]:
  "cmd_header (with_keyvalue f c) = cmd_header c" "cmd_header (with_range g c) = cmd_header c"
  "cmd_header (with_setup h c) = cmd_header c" "cmd_header (with_security i c) = cmd_header c"
  "cmd_header (with_getlog j c) = cmd_header c" "cmd_header (with_pinop op c) = cmd_header c"
  "cmd_header (set_if_given pin k c) = cmd_header c"
  "cmd_header (add_types ts c) = cmd_header c" "cmd_header (add_acls as c) = cmd_header c"
proof -
  show g: "cmd_header (with_getlog j c) = cmd_header c" for j c by (simp add: with_getlog_def)
  show s: "cmd_header (with_security i c) = cmd_header c" for i c by (simp add: with_security_def)
  show "cmd_header (add_types ts c) = cmd_header c" by (induction ts arbitrary: c) (simp_all add: g)
  show "cmd_header (add_acls as c) = cmd_header c" by (induction as arbitrary: c) (simp_all add: s)
  show "cmd_header (set_if_given pin k c) = cmd_header c" by (cases pin) (simp_all add: set_if_given_def s)
qed (simp_all add: with_keyvalue_def with_range_def with_setup_def with_pinop_def)

lemma NewCommand_header [simp]:
  "h_messagetype (cmd_header (NewCommand mt n)) = Some mt"
  "h_clusterversion (cmd_header (NewCommand mt n)) = Some (n_cluster_version n)"
  "h_messagetype (cmd_header (with_priority p c)) = h_messagetype (cmd_header c)"
  "h_clusterversion (cmd_header (with_priority p c)) = h_clusterversion (cmd_header c)"
  by (simp_all add: NewCommand_def with_priority_def)

lemma message_authtype [simp]:
  "msg_authtype hmac_message = HMACAUTH" "msg_authtype (pin_message pin) = PINAUTH"
  by (simp_all add: hmac_message_def pin_message_def)

lemmas key_calls =
  NoOp_def GenericGet_def Get_def GetNext_def GetPrevious_def GetVersion_def GetKeyRange_def
  Delete_def Delete_default_def MediaScan_def MediaOptimize_def

lemmas device_calls =
  SecureErase_def InstantErase_def LockDevice_def UnlockDevice_def Flush_def SetClusterVersion_def
  GetLog_def GetLog_all_def UpdateFirmware_def SetACLs_def SetLockPIN_def SetErasePIN_def

definition submits :: "codec \<Rightarrow> 'c nb_call \<Rightarrow> 'c connection \<Rightarrow> 'c hworld
    \<Rightarrow> handler_key \<times> 'c connection \<times> 'c hworld \<Rightarrow> bool" where
  "submits cx call n w res \<longleftrightarrow> (\<exists>m cmd val.
     res = n_Submit cx m cmd val (call_handler call) n w \<and> msg_authtype m = call_authtype call \<and>
     h_messagetype (cmd_header cmd) = Some (call_type call) \<and>
     h_clusterversion (cmd_header cmd) = Some (n_cluster_version n))"

lemma submitsI:
  "msg_authtype m = call_authtype call \<Longrightarrow> h_messagetype (cmd_header cmd) = Some (call_type call) \<Longrightarrow>
     h_clusterversion (cmd_header cmd) = Some (n_cluster_version n) \<Longrightarrow> h = call_handler call \<Longrightarrow>
     submits cx call n w (n_Submit cx m cmd val h n w)"
  by (auto simp: submits_def)

lemma nb_exec_submits: "nb_exec cx call n w = Some res \<Longrightarrow> submits cx call n w res"
proof (induction cx call n w rule: nb_exec.induct)
  case (9 cx k v mode r c n w)
  then show ?case
    by (auto simp: Put_default_def Put_def Let_def call_authtype_def split: option.splits intro!: submitsI)
next
  case (10 cx k v mode r c p n w)
  then show ?case
    by (auto simp: Put_def Let_def call_authtype_def split: option.splits intro!: submitsI)
next
  case (13 cx r c n w)
  then show ?case by (auto simp: P2PPush_def Let_def call_authtype_def intro!: submitsI)
qed (auto simp: key_calls device_calls call_authtype_def intro!: submitsI)

text \<open>
  C12: Every call of the API submits exactly one request, of the right type. On a service that has not
  failed, the request goes to the end of the queue under the key that the call returns; its command
  has the message type of the call, the client's cluster version and the next sequence number; it is
  authenticated by HMAC, except the four PIN operations; its handler is of the kind that belongs to
  the call and holds the caller's callback. Nothing else of the connection changes and nobody is
  called.
\<close>

theorem call_submits_one_request:
  assumes "nb_exec cx call n w = Some (key, n', w')" and "\<not> v_failed (n_service n)"
  shows "\<exists>rq. s_request_queue (v_sender (n_service n')) = s_request_queue (v_sender (n_service n)) @ [rq] \<and>
     rq_handler rq = call_handler call \<and> rq_key rq = key \<and> key = v_next_key (n_service n) \<and>
     h_messagetype (cmd_header (rq_command rq)) = Some (call_type call) \<and>
     h_clusterversion (cmd_header (rq_command rq)) = Some (n_cluster_version n) \<and>
     h_sequence (cmd_header (rq_command rq)) = Some (s_sequence_number (v_sender (n_service n))) \<and>
     msg_authtype (rq_message rq) = (if call_type call = MT_PINOP then PINAUTH else HMACAUTH) \<and>
     (call_type call \<noteq> MT_PINOP \<longrightarrow> ValidateHmac (cx_hmac_sha1 cx) (rq_message rq)
        (co_hmac_key (s_options (v_sender (n_service n))))) \<and>
     w' = w \<and> n_cluster_version n' = n_cluster_version n \<and>
     v_receiver (n_service n') = v_receiver (n_service n)"
proof -
  from nb_exec_submits [OF assms(1)] obtain m cmd val where
    s: "(key, n', w') = n_Submit cx m cmd val (call_handler call) n w"
    and m: "msg_authtype m = call_authtype call"
    and c: "h_messagetype (cmd_header cmd) = Some (call_type call)"
      "h_clusterversion (cmd_header cmd) = Some (n_cluster_version n)"
    by (auto simp: submits_def)
  let ?cmd = "finish_command (connection_id (v_receiver (n_service n)))
      (s_sequence_number (v_sender (n_service n))) cmd"
  let ?m = "sign_message cx (s_options (v_sender (n_service n))) (cx_ser_command cx ?cmd) m"
  have auth: "msg_authtype ?m = call_authtype call" using m by (simp add: sign_message_def Let_def)
  have valid: "msg_authtype m = HMACAUTH \<Longrightarrow>
      ValidateHmac (cx_hmac_sha1 cx) ?m (co_hmac_key (s_options (v_sender (n_service n))))"
    by (simp add: sign_message_def Let_def ValidateHmac_iff ComputeHmac_def)
  from s assms(2) have n': "key = v_next_key (n_service n)" "w' = w"
    "n' = n\<lparr>n_service := (n_service n)\<lparr>v_next_key := v_next_key (n_service n) + 1,
       v_sender := s_Enqueue cx (connection_id (v_receiver (n_service n))) m cmd val (call_handler call)
         (v_next_key (n_service n)) (v_sender (n_service n))\<rparr>\<rparr>"
    by (auto simp: n_Submit_def v_Submit_def Let_def)
  show ?thesis
    using auth valid c m n' by (simp add: s_Enqueue_def Let_def finish_command_def call_authtype_def)
qed

definition example_connection :: "char list connection" where
  "example_connection =
     NonblockingKineticConnection (new_service 9 (new_sender example_options)
       (r_after_handshake (initial_receiver example_options)))"

lemma example_connection_ok: "\<not> v_failed (n_service example_connection)"
  by (simp add: example_connection_def NonblockingKineticConnection_def new_service_def)

theorem call_submits_one_request_witness:
  "\<exists>n' rq. nb_exec example_codec (Call_LockDevice (Some [1]) ''cb'') example_connection
        \<lparr>w_rd = [], w_wr = [], w_out = [], w_log = []\<rparr> =
      Some (0, n', \<lparr>w_rd = [], w_wr = [], w_out = [], w_log = []\<rparr>) \<and>
     s_request_queue (v_sender (n_service n')) = [rq] \<and> rq_handler rq = SimpleHandler ''cb''"
proof -
  let ?w = "\<lparr>w_rd = [], w_wr = [], w_out = [], w_log = []\<rparr> :: char list hworld"
  obtain key n' w' where run: "nb_exec example_codec (Call_LockDevice (Some [1]) ''cb'') example_connection ?w =
      Some (key, n', w')" by (auto intro: prod_cases3)
  from call_submits_one_request [OF run example_connection_ok] run show ?thesis
    by (auto simp: example_connection_def NonblockingKineticConnection_def new_service_def new_sender_def)
qed

section \<open>The contents of requests\<close>

definition last_command :: "'c connection \<Rightarrow> command" where
  "last_command n = rq_command (last (s_request_queue (v_sender (n_service n))))"

definition last_value :: "'c connection \<Rightarrow> bytes" where
  "last_value n = rq_value (last (s_request_queue (v_sender (n_service n))))"

lemma n_Submit_last:
  assumes "n_Submit cx m cmd val h n w = (key, n', w')" and "\<not> v_failed (n_service n)"
  shows "cmd_body (last_command n') = cmd_body cmd \<and> last_value n' = val"
  using assms
  by (auto simp: n_Submit_def v_Submit_def s_Enqueue_def last_command_def last_value_def Let_def finish_command_def)

lemma get_NewCommand [simp]:
  "get_keyvalue (NewCommand mt n) = empty_keyvalue" "get_range (NewCommand mt n) = empty_key_range"
  "b_security (cmd_body (NewCommand mt n)) = None" "get_getlog (NewCommand mt n) = empty_getlog"
  "b_getlog (cmd_body (NewCommand mt n)) = None" "b_keyvalue (cmd_body (NewCommand mt n)) = None"
  by (simp_all add: NewCommand_def empty_command_def empty_body_def get_keyvalue_def get_range_def get_getlog_def)

lemma get_with [simp]:
  "get_keyvalue (with_keyvalue f c) = f (get_keyvalue c)" "get_range (with_range g c) = g (get_range c)"
  "b_keyvalue (cmd_body (with_keyvalue f c)) = Some (f (get_keyvalue c))"
  "b_range (cmd_body (with_range g c)) = Some (g (get_range c))"
  by (simp_all add: with_keyvalue_def with_range_def get_keyvalue_def get_range_def)

lemma Put_last:
  assumes "Put cx key version mode record c persist n w = Some (k, n', w')" and "\<not> v_failed (n_service n)"
  shows "b_keyvalue (cmd_body (last_command n')) = Some
      \<lparr>kv_key = Some key, kv_dbversion = Some version, kv_newversion = kr_version record,
       kv_tag = kr_tag record, kv_algorithm = kr_algorithm record,
       kv_force = Some (mode = IGNORE_VERSION),
       kv_synchronization = Some (GetSynchronizationForPersistMode persist)\<rparr> \<and>
    kr_value record = Some (last_value n') \<and> kr_tag record \<noteq> None"
proof -
  obtain tag val where t: "kr_tag record = Some tag" "kr_value record = Some val"
    using assms(1) by (auto simp: Put_def split: option.splits)
  obtain cmd where s: "n_Submit cx hmac_message cmd val (PutHandler c) n w = (k, n', w')"
    and c: "b_keyvalue (cmd_body cmd) = Some
      \<lparr>kv_key = Some key, kv_dbversion = Some version, kv_newversion = kr_version record,
       kv_tag = Some tag, kv_algorithm = kr_algorithm record,
       kv_force = Some (mode = IGNORE_VERSION),
       kv_synchronization = Some (GetSynchronizationForPersistMode persist)\<rparr>"
    using assms(1) t
    by (cases "kr_version record") (auto simp: Put_def Let_def empty_keyvalue_def)
  from n_Submit_last [OF s assms(2)] c t show ?thesis by simp
qed

text \<open>
  C29: What is put is what was given. The request of a put carries the key, the expected and the new
  version, the tag and its algorithm, the force flag exactly when versions are to be ignored and the
  synchronization that belongs to the persist mode, and the value travels behind it unchanged. A
  record without a version leaves the new version unset.
\<close>

theorem put_request_contents:
  assumes "Put cx key version mode record c persist n w = Some (k, n', w')" and "\<not> v_failed (n_service n)"
  shows "b_keyvalue (cmd_body (last_command n')) = Some
      \<lparr>kv_key = Some key, kv_dbversion = Some version, kv_newversion = kr_version record,
       kv_tag = kr_tag record, kv_algorithm = kr_algorithm record,
       kv_force = Some (mode = IGNORE_VERSION),
       kv_synchronization = Some (case persist of WRITE_THROUGH \<Rightarrow> SYNC_WRITETHROUGH
         | WRITE_BACK \<Rightarrow> SYNC_WRITEBACK | FLUSH \<Rightarrow> SYNC_FLUSH)\<rparr> \<and>
    kr_value record = Some (last_value n')"
  using Put_last [OF assms] by (cases persist) simp_all

theorem put_request_contents_witness:
  "\<exists>n' w'. Put example_codec [1] [2] REQUIRE_SAME_VERSION
       \<lparr>kr_value = Some [9, 9], kr_version = Some [3], kr_tag = Some [4], kr_algorithm = Algorithm 1\<rparr> ''cb''
       WRITE_THROUGH example_connection \<lparr>w_rd = [], w_wr = [], w_out = [], w_log = []\<rparr> = Some (0, n', w') \<and>
     last_value n' = [9, 9] \<and> map_option kv_newversion (b_keyvalue (cmd_body (last_command n'))) = Some (Some [3])"
proof -
  let ?put = "Put example_codec [1] [2] REQUIRE_SAME_VERSION
       \<lparr>kr_value = Some [9, 9], kr_version = Some [3], kr_tag = Some [4], kr_algorithm = Algorithm 1\<rparr> ''cb''
       WRITE_THROUGH example_connection \<lparr>w_rd = [], w_wr = [], w_out = [], w_log = []\<rparr>"
  have "?put \<noteq> None" by (simp add: Put_def Let_def)
  then obtain k n' w' where run: "?put = Some (k, n', w')" by auto
  moreover have "k = 0" using run
    by (auto simp: Put_def Let_def n_Submit_def v_Submit_def example_connection_def
        NonblockingKineticConnection_def new_service_def)
  ultimately show ?thesis
    using put_request_contents [OF run example_connection_ok] by auto
qed

text \<open>
  What a drive that has carried out a put answers to a get of its key: the new version of the request is
  the entry's version now, tag and algorithm are those of the request, and a field that was not
  set stays unset.
\<close>

definition stored_entry :: "command \<Rightarrow> keyvalue" where
  "stored_entry request =
     empty_keyvalue\<lparr>kv_key := kv_key (get_keyvalue request), kv_dbversion := kv_newversion (get_keyvalue request),
       kv_tag := kv_tag (get_keyvalue request), kv_algorithm := kv_algorithm (get_keyvalue request)\<rparr>"

text \<open>
  C28: What was put is what a get gives back. If the drive answers a later get, of whichever connection,
  with the entry and the value that the put request described, the get's callback receives the key and
  the same record: value, tag and algorithm as they were put, and the version that was put; a record
  put without a version comes back with an empty one.
\<close>

theorem put_get_roundtrip:
  assumes "Put cx key version mode record c persist n w = Some (k, n', w')" and "\<not> v_failed (n_service n)"
    and "os_code (cmd_status response) = PROTO_SUCCESS"
    and "b_keyvalue (cmd_body response) = Some (stored_entry (last_command n'))"
  shows "deliver tn (r_answer (GetHandler d) response (Some (last_value n'))) =
    Get_Success d key (record\<lparr>kr_version := Some (bytes_or_empty (kr_version record))\<rparr>)"
proof -
  note p = Put_last [OF assms(1,2)]
  have "get_keyvalue (last_command n') = the (b_keyvalue (cmd_body (last_command n')))"
    and g: "get_keyvalue response = stored_entry (last_command n')"
    using p assms(4) by (simp_all add: get_keyvalue_def)
  with p have "stored_entry (last_command n') = empty_keyvalue\<lparr>kv_key := Some key, kv_dbversion := kr_version record,
      kv_tag := kr_tag record, kv_algorithm := kr_algorithm record\<rparr>"
    by (simp add: stored_entry_def)
  with g p assms(3) show ?thesis
    by (cases "record") (auto simp: r_answer_def GetHandler_Handle_def)
qed

theorem put_get_roundtrip_witness:
  "\<exists>n' w'. Put example_codec [1] [2] REQUIRE_SAME_VERSION
       \<lparr>kr_value = Some [9, 9], kr_version = Some [3], kr_tag = Some [4], kr_algorithm = Algorithm 1\<rparr> ''cb''
       WRITE_BACK example_connection \<lparr>w_rd = [], w_wr = [], w_out = [], w_log = []\<rparr> = Some (0, n', w') \<and>
     deliver (\<lambda>_. []) (r_answer (GetHandler ''get'')
       (with_keyvalue (\<lambda>kv. stored_entry (last_command n'))
         (empty_command\<lparr>cmd_status := unset_status\<lparr>os_code := PROTO_SUCCESS\<rparr>\<rparr>)) (Some (last_value n'))) =
     Get_Success ''get'' [1]
       \<lparr>kr_value = Some [9, 9], kr_version = Some [3], kr_tag = Some [4], kr_algorithm = Algorithm 1\<rparr>"
proof -
  let ?put = "Put example_codec [1] [2] REQUIRE_SAME_VERSION
       \<lparr>kr_value = Some [9, 9], kr_version = Some [3], kr_tag = Some [4], kr_algorithm = Algorithm 1\<rparr> ''cb''
       WRITE_BACK example_connection \<lparr>w_rd = [], w_wr = [], w_out = [], w_log = []\<rparr>"
  have "?put \<noteq> None" by (simp add: Put_def Let_def)
  then obtain k n' w' where run: "?put = Some (k, n', w')" by auto
  moreover have "k = 0" using run
    by (auto simp: Put_def Let_def n_Submit_def v_Submit_def example_connection_def
        NonblockingKineticConnection_def new_service_def)
  ultimately show ?thesis
    using put_get_roundtrip [OF run example_connection_ok, of "with_keyvalue (\<lambda>kv. stored_entry (last_command n'))
        (empty_command\<lparr>cmd_status := unset_status\<lparr>os_code := PROTO_SUCCESS\<rparr>\<rparr>)" "\<lambda>_. []" "''get''"]
    by (simp add: with_keyvalue_def)
qed

lemma add_acls_body:
  "(case b_security (cmd_body (add_acls as cmd)) of Some se \<Rightarrow> se_acl se | None \<Rightarrow> []) =
   (case b_security (cmd_body cmd) of Some se \<Rightarrow> se_acl se | None \<Rightarrow> []) @ map acl_to_proto as"
  by (induction as arbitrary: cmd) (simp_all add: with_security_def empty_security_def split: option.splits)

lemma add_types_body:
  "gl_types (get_getlog (add_types ts cmd)) = gl_types (get_getlog cmd) @ ts"
  by (induction ts arbitrary: cmd) (simp_all add: with_getlog_def get_getlog_def)

text \<open>
  An ACL update sends every access control entry in order, each with all its scopes and all their
  permissions, one protocol permission for each; and no two permissions are sent as the same one.
\<close>

lemma acls_sent_completely:
  assumes "SetACLs cx acls c n w = (k, n', w')" and "\<not> v_failed (n_service n)"
  shows "(case b_security (cmd_body (last_command n')) of Some se \<Rightarrow> se_acl se | None \<Rightarrow> []) =
      map (\<lambda>a. \<lparr>pa_identity = acl_identity a, pa_key = acl_hmac_key a, pa_hmacalgorithm = HmacSHA1,
        pa_scope = map (\<lambda>sc. \<lparr>ps_offset = sc_offset sc, ps_value = sc_value sc,
          ps_permission = map permission_to_proto (sc_permissions sc)\<rparr>) (acl_scopes a)\<rparr>) acls \<and>
    inj permission_to_proto"
proof -
  have "inj permission_to_proto"
  proof (rule injI)
    fix p q assume "permission_to_proto p = permission_to_proto q"
    then show "p = q" by (cases p; cases q) simp_all
  qed
  moreover have "(case b_security (cmd_body (last_command n')) of Some se \<Rightarrow> se_acl se | None \<Rightarrow> []) =
      map acl_to_proto acls"
    using n_Submit_last [OF assms(1) [unfolded SetACLs_def] assms(2)] add_acls_body [of acls "NewCommand MT_SECURITY n"]
    by simp
  ultimately show ?thesis by (simp add: acl_to_proto_def [abs_def] scope_to_proto_def [abs_def])
qed

section \<open>Peer-to-peer requests read back\<close>

text \<open>
  The request that a peer-to-peer message stands for, as a drive reads it: an operation without a
  new key copies to the same key.
\<close>

primrec p2p_read_message :: "p2p_message \<Rightarrow> p2p_push_request"
  and p2p_read_operation :: "p2p_operation \<Rightarrow> p2p_push_operation" where
  "p2p_read_message (P2P_message host port ops) = P2PPushRequest host port (map p2p_read_operation ops)"
| "p2p_read_operation (P2P_operation key version newkey force nested st) =
     P2PPushOperation key version (case newkey of Some k \<Rightarrow> k | None \<Rightarrow> key) force
       (map_option p2p_read_message nested)"

text \<open>A request in which the target key of every operation is written out.\<close>

primrec p2p_explicit :: "p2p_push_request \<Rightarrow> p2p_push_request"
  and p2p_explicit_operation :: "p2p_push_operation \<Rightarrow> p2p_push_operation" where
  "p2p_explicit (P2PPushRequest host port ops) = P2PPushRequest host port (map p2p_explicit_operation ops)"
| "p2p_explicit_operation (P2PPushOperation key version newKey force request) =
     P2PPushOperation key version (if newKey = [] then key else newKey) force (map_option p2p_explicit request)"

text \<open>
  C30: A peer-to-peer push arrives as it was asked for, whatever the nesting: reading the message back
  gives the request with every target key written out, an empty one being the key itself. So host,
  port, keys, versions, force flags, order and the whole pipeline of nested pushes survive.
\<close>

theorem p2p_push_roundtrip:
  "p2p_read_message (PopulateP2PMessage r) = p2p_explicit r"
proof -
  have "p2p_read_message (PopulateP2PMessage r) = p2p_explicit r"
    and "p2p_read_operation (PopulateP2POperation op) = p2p_explicit_operation op" for op
  proof (induction r and op)
    case (P2PPushRequest host port ops)
    then show ?case by simp
  next
    case (P2PPushOperation key version newKey force request)
    then show ?case by (cases request) auto
  qed
  then show ?thesis by simp
qed

section \<open>Every history of a connection\<close>

text \<open>
  What an application can do with a connection, in any order: call the API, run, remove a request,
  change the client's cluster version. \<open>S\<close> and \<open>R\<close> count the callbacks passed in and removed.
\<close>

definition waiting :: "'c connection \<Rightarrow> 'c multiset" where
  "waiting n = image_mset handler_callback (v_pending (n_service n))"

definition told :: "(message_type \<Rightarrow> bytes) \<Rightarrow> 'c hworld \<Rightarrow> 'c multiset" where
  "told tn w = mset (map (\<lambda>cb. app_callback (deliver tn cb)) (w_log w))"

inductive n_reach ::
    "codec \<Rightarrow> 'c connection \<Rightarrow> 'c hworld \<Rightarrow> 'c multiset \<Rightarrow> 'c multiset \<Rightarrow> bool" for cx where
  n_start: "r_map r = [] \<Longrightarrow> r_key_map r = [] \<Longrightarrow> r_handler r = None \<Longrightarrow> r_live r \<Longrightarrow> w_log w = [] \<Longrightarrow>
     n_reach cx (NonblockingKineticConnection (new_service fd (new_sender opts) r)) w {#} {#}"
| n_call: "n_reach cx n w S R \<Longrightarrow> nb_exec cx call n w = Some (key, n', w') \<Longrightarrow>
     n_reach cx n' w' (add_mset (handler_callback (call_handler call)) S) R"
| n_run: "n_reach cx n w S R \<Longrightarrow>
     n_Run cx n (w\<lparr>w_rd := w_rd w @ arrivals, w_wr := accepts\<rparr>) = (res, n', w') \<Longrightarrow>
     n_reach cx n' w' S R"
| n_remove: "n_reach cx n w S R \<Longrightarrow> RemoveHandler key n = Some (b, n') \<Longrightarrow>
     n_reach cx n' w S (R + (waiting n - waiting n'))"
| n_version: "n_reach cx n w S R \<Longrightarrow> n_reach cx (SetClientClusterVersion v n) w S R"

text \<open>A call is one \<open>Submit\<close> of its handler, with its callback inside.\<close>

lemma nb_exec_v_Submit:
  assumes "nb_exec cx call n w = Some (key, n', w')"
  obtains m cmd val v where "v_Submit cx m cmd val (call_handler call) (n_service n) w = (key, v, w')"
    and "n' = n\<lparr>n_service := v\<rparr>"
proof -
  from nb_exec_submits [OF assms] obtain m cmd val where
    "n_Submit cx m cmd val (call_handler call) n w = (key, n', w')" by (auto simp: submits_def)
  then show ?thesis by (auto simp: n_Submit_def split: prod.splits intro: that)
qed

lemma n_Run_v_Run:
  assumes "n_Run cx n w = (res, n', w')"
  obtains v where "v_Run cx (n_service n) w = (res, v, w')" and "n' = n\<lparr>n_service := v\<rparr>"
  using assms by (auto simp: n_Run_def split: prod.splits intro: that)

text \<open>Every history of a connection is a history of its service.\<close>

lemma n_reach_service:
  assumes "n_reach cx n w S R"
  shows "\<exists>S0 R0. v_reach cx (n_service n) w S0 R0 \<and>
    S = image_mset handler_callback S0 \<and> R = image_mset handler_callback R0"
  using assms
proof (induction rule: n_reach.induct)
  case (n_start r w fd opts)
  then have "v_reach cx (new_service fd (new_sender opts) r) w {#} {#}" by (rule v_start)
  then show ?case by (auto simp: NonblockingKineticConnection_def)
next
  case (n_call n w S R call key n' w')
  then obtain S0 R0 where r: "v_reach cx (n_service n) w S0 R0"
    "S = image_mset handler_callback S0" "R = image_mset handler_callback R0" by blast
  from n_call.hyps(2) obtain m cmd val v where
    "v_Submit cx m cmd val (call_handler call) (n_service n) w = (key, v, w')"
    "n' = n\<lparr>n_service := v\<rparr>" by (rule nb_exec_v_Submit)
  with v_submit [OF r(1)] r(2,3) show ?case
    by (intro exI [of _ "add_mset (call_handler call) S0"] exI [of _ R0]) auto
next
  case (n_run n w S R accepts arrivals res n' w')
  then obtain S0 R0 where r: "v_reach cx (n_service n) w S0 R0"
    "S = image_mset handler_callback S0" "R = image_mset handler_callback R0" by blast
  from n_run.hyps(2) obtain v where
    v: "v_Run cx (n_service n) (w\<lparr>w_rd := w_rd w @ arrivals, w_wr := accepts\<rparr>) = (res, v, w')"
    "n' = n\<lparr>n_service := v\<rparr>" by (rule n_Run_v_Run)
  from v_run [OF r(1) v(1)] r(2,3) v(2) show ?case by (intro exI [of _ S0] exI [of _ R0]) simp
next
  case (n_remove n w S R key b n')
  then obtain S0 R0 where r: "v_reach cx (n_service n) w S0 R0"
    "S = image_mset handler_callback S0" "R = image_mset handler_callback R0" by blast
  from n_remove.hyps(2) obtain v where v: "v_Remove key (n_service n) = Some (b, v)"
    "n' = n\<lparr>n_service := v\<rparr>" by (auto simp: RemoveHandler_def)
  have "v_ok (n_service n)" using v_reach_conserves [OF r(1)] by simp
  from v_Remove_ok [OF this, of key] v(1) have
    "(\<exists>h. v_pending (n_service n) = add_mset h (v_pending v)) \<or> v = n_service n" by (auto split: if_splits)
  then have "waiting n - waiting n' = image_mset handler_callback (v_pending (n_service n) - v_pending v)"
    using v(2) by (auto simp: waiting_def)
  with v_remove [OF r(1) v(1)] r(2,3) v(2) show ?case
    by (intro exI [of _ S0] exI [of _ "R0 + (v_pending (n_service n) - v_pending v)"]) simp
next
  case (n_version n w S R v)
  then show ?case by (simp add: SetClientClusterVersion_def)
qed

lemma told_called: "told tn w = image_mset handler_callback (called w)"
  by (simp add: told_def called_def multiset.map_comp comp_def)

text \<open>
  C3: Each callback that an application passes to the API is told the outcome exactly once. In every
  state that any history of calls, runs and removals can reach, the callbacks passed in are, with
  multiplicity, those that still wait, those that were told and those that were removed; and
  destroying the connection tells the rest, but for a request half written at that moment.
\<close>

theorem api_callback_once:
  assumes "n_reach cx n w S R"
  shows "waiting n + told tn w + R = S \<and>
    (\<exists>w'. n_destroy n w = Some w' \<and>
       told tn w' + image_mset handler_callback (opt_mset (s_handler (v_sender (n_service n)))) + R = S)"
proof -
  obtain S0 R0 where r: "v_reach cx (n_service n) w S0 R0"
    "S = image_mset handler_callback S0" "R = image_mset handler_callback R0"
    using n_reach_service [OF assms] by blast
  from v_reach_conserves [OF r(1)] have "v_pending (n_service n) + called w + R0 = S0" by simp
  moreover obtain w' where d: "v_destroy (n_service n) w = Some w'"
    "called w' + opt_mset (s_handler (v_sender (n_service n))) + R0 = S0"
    using v_destroy_conserves [OF r(1)] by blast
  ultimately show ?thesis
    unfolding waiting_def told_called r(2,3) n_destroy_def by (auto simp flip: image_mset_union)
qed

theorem api_callback_once_witness:
  "\<exists>n w. n_reach example_codec n w {#''cb''#} {#} \<and> waiting n + told (\<lambda>_. []) w = {#''cb''#}"
proof -
  let ?w = "\<lparr>w_rd = [], w_wr = [], w_out = [], w_log = []\<rparr> :: char list hworld"
  have "n_reach example_codec example_connection ?w {#} {#}"
    unfolding example_connection_def
    by (rule n_start) (simp_all add: r_after_handshake_def r_live_def initial_receiver_def)
  moreover obtain key n' w' where "nb_exec example_codec (Call_Get [1] ''cb'') example_connection ?w =
      Some (key, n', w')" by (auto intro: prod_cases3)
  ultimately have "n_reach example_codec n' w' {#''cb''#} {#}" using n_call by fastforce
  from this api_callback_once [OF this, of "\<lambda>_. []"] show ?thesis by auto
qed

end
