(* ===== verification/Threadsafe_Nonblocking.thy ===== *)
theory Threadsafe_Nonblocking
  imports Monitor Connection
begin

text \<open>
  \<open>ThreadsafeNonblockingKineticConnection\<close> (\<open>threadsafe_nonblocking_kinetic_connection.cc\<close>): the
  non-blocking connection for several threads. Every method takes the object's recursive mutex and
  forwards to the same method of the connection it owns. The overloads that take strings by value or
  through a pointer are the same method here.

  A callback that \<open>Run\<close> calls may call the connection again from the same thread; the mutex lets it
  in (\<open>relock\<close>). The model of a thread's steps has no such nested call: to a thread a callback's own
  calls are part of \<open>Run\<close>.
\<close>

section \<open>State\<close>

text \<open>A new object: its mutex is free, it owns the connection, and no thread is in a method.\<close>

definition ThreadsafeNonblockingKineticConnection ::
    "'c connection \<Rightarrow> 'c hworld \<Rightarrow> ('t, 'op, 'l, 'c connection \<times> 'c hworld, 'r) config" where
  "ThreadsafeNonblockingKineticConnection connection w = initial_config (connection, w)"

section \<open>The operations of the connection inside\<close>

text \<open>\<open>Run\<close> comes with what the network brings and takes during it.\<close>

datatype 'c n_op =
    N_Run "rd_event list" "wr_event list"
  | N_RemoveHandler handler_key
  | N_SetClientClusterVersion int64
  | N_Call "'c nb_call"

datatype n_result =
    NR_run run_result
  | NR_removed bool
  | NR_void
  | NR_key handler_key
  | NR_undefined

fun n_exec :: "codec \<Rightarrow> 'c n_op \<Rightarrow> 'c connection \<times> 'c hworld \<Rightarrow> n_result \<times> 'c connection \<times> 'c hworld" where
  "n_exec cx (N_Run arrivals accepts) (n, w) =
     (case n_Run cx n (w\<lparr>w_rd := w_rd w @ arrivals, w_wr := accepts\<rparr>) of (r, n', w') \<Rightarrow> (NR_run r, n', w'))"
| "n_exec cx (N_RemoveHandler handler_key) (n, w) =
     (case RemoveHandler handler_key n of
        None \<Rightarrow> (NR_undefined, n, w)
      | Some (r, n') \<Rightarrow> (NR_removed r, n', w))"
| "n_exec cx (N_SetClientClusterVersion cluster_version) (n, w) =
     (NR_void, SetClientClusterVersion cluster_version n, w)"
| "n_exec cx (N_Call call) (n, w) =
     (case nb_exec cx call n w of
        None \<Rightarrow> (NR_undefined, n, w)
      | Some (key, n', w') \<Rightarrow> (NR_key key, n', w'))"

section \<open>The methods\<close>

type_synonym 'c tn_program = "'c n_op instr list"

definition tn_Run :: "rd_event list \<Rightarrow> wr_event list \<Rightarrow> 'c tn_program" where
  "tn_Run arrivals accepts = guarded (N_Run arrivals accepts)"

definition tn_RemoveHandler :: "handler_key \<Rightarrow> 'c tn_program" where
  "tn_RemoveHandler handler_key = guarded (N_RemoveHandler handler_key)"

definition tn_SetClientClusterVersion :: "int64 \<Rightarrow> 'c tn_program" where
  "tn_SetClientClusterVersion cluster_version = guarded (N_SetClientClusterVersion cluster_version)"

definition tn_NoOp :: "'c \<Rightarrow> 'c tn_program" where
  "tn_NoOp c = guarded (N_Call (Call_NoOp c))"

definition tn_Get :: "bytes \<Rightarrow> 'c \<Rightarrow> 'c tn_program" where
  "tn_Get key c = guarded (N_Call (Call_Get key c))"

definition tn_GetNext :: "bytes \<Rightarrow> 'c \<Rightarrow> 'c tn_program" where
  "tn_GetNext key c = guarded (N_Call (Call_GetNext key c))"

definition tn_GetPrevious :: "bytes \<Rightarrow> 'c \<Rightarrow> 'c tn_program" where
  "tn_GetPrevious key c = guarded (N_Call (Call_GetPrevious key c))"

definition tn_GetVersion :: "bytes \<Rightarrow> 'c \<Rightarrow> 'c tn_program" where
  "tn_GetVersion key c = guarded (N_Call (Call_GetVersion key c))"

definition tn_GetKeyRange :: "bytes \<Rightarrow> bool \<Rightarrow> bytes \<Rightarrow> bool \<Rightarrow> bool \<Rightarrow> 32 word \<Rightarrow> 'c \<Rightarrow> 'c tn_program" where
  "tn_GetKeyRange start_key start_inc end_key end_inc reverse_results max_results c = guarded (N_Call (Call_GetKeyRange start_key start_inc end_key end_inc reverse_results max_results c))"

definition tn_Put_default :: "bytes \<Rightarrow> bytes \<Rightarrow> write_mode \<Rightarrow> kinetic_record \<Rightarrow> 'c \<Rightarrow> 'c tn_program" where
  "tn_Put_default key current_version mode record c = guarded (N_Call (Call_Put key current_version mode record c None))"

definition tn_Put :: "bytes \<Rightarrow> bytes \<Rightarrow> write_mode \<Rightarrow> kinetic_record \<Rightarrow> 'c \<Rightarrow> persist_mode \<Rightarrow> 'c tn_program" where
  "tn_Put key current_version mode record c persistMode = guarded (N_Call (Call_Put key current_version mode record c (Some persistMode)))"

definition tn_Delete :: "bytes \<Rightarrow> bytes \<Rightarrow> write_mode \<Rightarrow> 'c \<Rightarrow> persist_mode \<Rightarrow> 'c tn_program" where
  "tn_Delete key version mode c persistMode = guarded (N_Call (Call_Delete key version mode c (Some persistMode)))"

definition tn_Delete_default :: "bytes \<Rightarrow> bytes \<Rightarrow> write_mode \<Rightarrow> 'c \<Rightarrow> 'c tn_program" where
  "tn_Delete_default key version mode c = guarded (N_Call (Call_Delete key version mode c None))"

definition tn_InstantErase :: "bytes option \<Rightarrow> 'c \<Rightarrow> 'c tn_program" where
  "tn_InstantErase pin c = guarded (N_Call (Call_InstantErase pin c))"

definition tn_SecureErase :: "bytes option \<Rightarrow> 'c \<Rightarrow> 'c tn_program" where
  "tn_SecureErase pin c = guarded (N_Call (Call_SecureErase pin c))"

definition tn_SetClusterVersion :: "int64 \<Rightarrow> 'c \<Rightarrow> 'c tn_program" where
  "tn_SetClusterVersion new_cluster_version c = guarded (N_Call (Call_SetClusterVersion new_cluster_version c))"

definition tn_GetLog_all :: "'c \<Rightarrow> 'c tn_program" where
  "tn_GetLog_all c = guarded (N_Call (Call_GetLog None c))"

definition tn_GetLog :: "getlog_type list \<Rightarrow> 'c \<Rightarrow> 'c tn_program" where
  "tn_GetLog types c = guarded (N_Call (Call_GetLog (Some types) c))"

definition tn_Flush :: "'c \<Rightarrow> 'c tn_program" where
  "tn_Flush c = guarded (N_Call (Call_Flush c))"

definition tn_UpdateFirmware :: "bytes \<Rightarrow> 'c \<Rightarrow> 'c tn_program" where
  "tn_UpdateFirmware new_firmware c = guarded (N_Call (Call_UpdateFirmware new_firmware c))"

definition tn_SetACLs :: "acl list \<Rightarrow> 'c \<Rightarrow> 'c tn_program" where
  "tn_SetACLs acls c = guarded (N_Call (Call_SetACLs acls c))"

definition tn_SetErasePIN :: "bytes option \<Rightarrow> bytes option \<Rightarrow> 'c \<Rightarrow> 'c tn_program" where
  "tn_SetErasePIN new_pin current_pin c = guarded (N_Call (Call_SetErasePIN new_pin current_pin c))"

definition tn_LockDevice :: "bytes option \<Rightarrow> 'c \<Rightarrow> 'c tn_program" where
  "tn_LockDevice pin c = guarded (N_Call (Call_LockDevice pin c))"

definition tn_UnlockDevice :: "bytes option \<Rightarrow> 'c \<Rightarrow> 'c tn_program" where
  "tn_UnlockDevice pin c = guarded (N_Call (Call_UnlockDevice pin c))"

definition tn_SetLockPIN :: "bytes option \<Rightarrow> bytes option \<Rightarrow> 'c \<Rightarrow> 'c tn_program" where
  "tn_SetLockPIN new_pin current_pin c = guarded (N_Call (Call_SetLockPIN new_pin current_pin c))"

definition tn_P2PPush :: "p2p_push_request \<Rightarrow> 'c \<Rightarrow> 'c tn_program" where
  "tn_P2PPush push_request c = guarded (N_Call (Call_P2PPush push_request c))"

definition tn_MediaScan :: "bytes \<Rightarrow> bool \<Rightarrow> bytes \<Rightarrow> bool \<Rightarrow> 32 word \<Rightarrow> 'c \<Rightarrow> 'c tn_program" where
  "tn_MediaScan start_key start_inc end_key end_inc max_results c = guarded (N_Call (Call_MediaScan start_key start_inc end_key end_inc max_results c))"

definition tn_MediaOptimize :: "bytes \<Rightarrow> bool \<Rightarrow> bytes \<Rightarrow> bool \<Rightarrow> 'c \<Rightarrow> 'c tn_program" where
  "tn_MediaOptimize start_key start_inc end_key end_inc c = guarded (N_Call (Call_MediaOptimize start_key start_inc end_key end_inc c))"

text \<open>The methods of the class, each known by the operation of the interface that it overrides.\<close>

fun tn_dispatch :: "'c n_op \<Rightarrow> 'c tn_program" where
  "tn_dispatch (N_Run arrivals accepts) = tn_Run arrivals accepts"
| "tn_dispatch (N_RemoveHandler handler_key) = tn_RemoveHandler handler_key"
| "tn_dispatch (N_SetClientClusterVersion cluster_version) = tn_SetClientClusterVersion cluster_version"
| "tn_dispatch (N_Call (Call_NoOp c)) = tn_NoOp c"
| "tn_dispatch (N_Call (Call_Get key c)) = tn_Get key c"
| "tn_dispatch (N_Call (Call_GetNext key c)) = tn_GetNext key c"
| "tn_dispatch (N_Call (Call_GetPrevious key c)) = tn_GetPrevious key c"
| "tn_dispatch (N_Call (Call_GetVersion key c)) = tn_GetVersion key c"
| "tn_dispatch (N_Call (Call_GetKeyRange start_key start_inc end_key end_inc reverse_results max_results c)) = tn_GetKeyRange start_key start_inc end_key end_inc reverse_results max_results c"
| "tn_dispatch (N_Call (Call_Put key current_version mode record c None)) = tn_Put_default key current_version mode record c"
| "tn_dispatch (N_Call (Call_Put key current_version mode record c (Some persistMode))) = tn_Put key current_version mode record c persistMode"
| "tn_dispatch (N_Call (Call_Delete key version mode c (Some persistMode))) = tn_Delete key version mode c persistMode"
| "tn_dispatch (N_Call (Call_Delete key version mode c None)) = tn_Delete_default key version mode c"
| "tn_dispatch (N_Call (Call_InstantErase pin c)) = tn_InstantErase pin c"
| "tn_dispatch (N_Call (Call_SecureErase pin c)) = tn_SecureErase pin c"
| "tn_dispatch (N_Call (Call_SetClusterVersion new_cluster_version c)) = tn_SetClusterVersion new_cluster_version c"
| "tn_dispatch (N_Call (Call_GetLog None c)) = tn_GetLog_all c"
| "tn_dispatch (N_Call (Call_GetLog (Some types) c)) = tn_GetLog types c"
| "tn_dispatch (N_Call (Call_Flush c)) = tn_Flush c"
| "tn_dispatch (N_Call (Call_UpdateFirmware new_firmware c)) = tn_UpdateFirmware new_firmware c"
| "tn_dispatch (N_Call (Call_SetACLs acls c)) = tn_SetACLs acls c"
| "tn_dispatch (N_Call (Call_SetErasePIN new_pin current_pin c)) = tn_SetErasePIN new_pin current_pin c"
| "tn_dispatch (N_Call (Call_LockDevice pin c)) = tn_LockDevice pin c"
| "tn_dispatch (N_Call (Call_UnlockDevice pin c)) = tn_UnlockDevice pin c"
| "tn_dispatch (N_Call (Call_SetLockPIN new_pin current_pin c)) = tn_SetLockPIN new_pin current_pin c"
| "tn_dispatch (N_Call (Call_P2PPush push_request c)) = tn_P2PPush push_request c"
| "tn_dispatch (N_Call (Call_MediaScan start_key start_inc end_key end_inc max_results c)) = tn_MediaScan start_key start_inc end_key end_inc max_results c"
| "tn_dispatch (N_Call (Call_MediaOptimize start_key start_inc end_key end_inc c)) = tn_MediaOptimize start_key start_inc end_key end_inc c"

lemma tn_forwards: "tn_dispatch m = guarded m"
  by (cases m rule: tn_dispatch.cases)
    (simp_all add: tn_Run_def tn_RemoveHandler_def tn_SetClientClusterVersion_def tn_NoOp_def tn_Get_def tn_GetNext_def tn_GetPrevious_def tn_GetVersion_def tn_GetKeyRange_def
      tn_Put_default_def tn_Put_def tn_Delete_def tn_Delete_default_def tn_InstantErase_def
      tn_SecureErase_def tn_SetClusterVersion_def tn_GetLog_all_def tn_GetLog_def tn_Flush_def
      tn_UpdateFirmware_def tn_SetACLs_def tn_SetErasePIN_def tn_LockDevice_def tn_UnlockDevice_def
      tn_SetLockPIN_def tn_P2PPush_def tn_MediaScan_def tn_MediaOptimize_def)

interpretation tn: monitor tn_dispatch "\<lambda>m. m"
  by unfold_locales (rule tn_forwards)

section \<open>What threads do to the connection\<close>

text \<open>The callbacks that the calls of a history passed in, the keys they got, and what was removed.\<close>

fun passed :: "('t \<times> 'c n_op \<times> n_result) list \<Rightarrow> 'c multiset" where
  "passed [] = {#}"
| "passed ((_, N_Call call, NR_key _) # h) = add_mset (handler_callback (call_handler call)) (passed h)"
| "passed (_ # h) = passed h"

fun keys_given :: "('t \<times> 'c n_op \<times> n_result) list \<Rightarrow> handler_key list" where
  "keys_given [] = []"
| "keys_given ((_, _, NR_key key) # h) = key # keys_given h"
| "keys_given (_ # h) = keys_given h"

fun removals :: "('t \<times> 'c n_op \<times> n_result) list \<Rightarrow> nat" where
  "removals [] = 0"
| "removals ((_, _, NR_removed True) # h) = Suc (removals h)"
| "removals (_ # h) = removals h"

lemma v_Run_next_key: "v_Run cx v w = (res, v', w') \<Longrightarrow> v_next_key v' = v_next_key v"
  by (auto simp: v_Run_def v_CleanUp_def Let_def split: prod.splits if_splits)

lemma n_remove_size:
  assumes "n_reach cx n w S R" and "RemoveHandler key n = Some (b, n')"
  shows "size (waiting n - waiting n') = (if b then 1 else 0) \<and>
    v_next_key (n_service n') = v_next_key (n_service n)"
proof -
  obtain S0 R0 where "v_reach cx (n_service n) w S0 R0" using n_reach_service [OF assms(1)] by blast
  then have "v_ok (n_service n)" using v_reach_conserves by blast
  from v_Remove_ok [OF this, of key] assms(2) show ?thesis
    by (auto simp: RemoveHandler_def waiting_def split: if_splits)
qed

lemma n_exec_reach:
  assumes "n_reach cx n w S R" and "n_exec cx op (n, w) = (r, n', w')"
  shows "\<exists>R'. n_reach cx n' w' (S + passed [(t, op, r)]) R' \<and> size R' = size R + removals [(t, op, r)] \<and>
    v_next_key (n_service n') = v_next_key (n_service n) + of_nat (length (keys_given [(t, op, r)])) \<and>
    (\<forall>k \<in> set (keys_given [(t, op, r)]). k = v_next_key (n_service n))"
proof (cases op)
  case (N_Run arrivals accepts)
  with assms(2) obtain res where run: "r = NR_run res"
      "n_Run cx n (w\<lparr>w_rd := w_rd w @ arrivals, w_wr := accepts\<rparr>) = (res, n', w')"
    by (auto split: prod.splits)
  obtain v where "v_Run cx (n_service n) (w\<lparr>w_rd := w_rd w @ arrivals, w_wr := accepts\<rparr>) = (res, v, w')"
    "n' = n\<lparr>n_service := v\<rparr>" using run(2) by (rule n_Run_v_Run)
  with n_run [OF assms(1) run(2)] N_Run run(1) show ?thesis by (auto dest: v_Run_next_key)
next
  case (N_RemoveHandler key)
  show ?thesis
  proof (cases "RemoveHandler key n")
    case None
    with assms N_RemoveHandler show ?thesis by auto
  next
    case (Some p)
    with assms(2) N_RemoveHandler obtain b where rm: "RemoveHandler key n = Some (b, n')" "r = NR_removed b" "w' = w"
      by (auto split: prod.splits)
    with n_remove [OF assms(1) rm(1)] n_remove_size [OF assms(1) rm(1)] N_RemoveHandler show ?thesis
      by (cases b) (auto intro!: exI [of _ "R + (waiting n - waiting n')"])
  qed
next
  case (N_SetClientClusterVersion v)
  with assms n_version [OF assms(1), of v] show ?thesis by (auto simp: SetClientClusterVersion_def)
next
  case (N_Call call)
  show ?thesis
  proof (cases "nb_exec cx call n w")
    case None
    with assms N_Call show ?thesis by auto
  next
    case (Some p)
    with assms(2) N_Call obtain key where c: "nb_exec cx call n w = Some (key, n', w')" "r = NR_key key"
      by (auto split: prod.splits)
    from c(1) obtain m cmd val v where
      "v_Submit cx m cmd val (call_handler call) (n_service n) w = (key, v, w')" "n' = n\<lparr>n_service := v\<rparr>"
      by (rule nb_exec_v_Submit)
    then have "key = v_next_key (n_service n)" "v_next_key (n_service n') = v_next_key (n_service n) + 1"
      by (auto simp: v_Submit_def Let_def split: if_splits)
    with n_call [OF assms(1) c(1)] c(2) N_Call show ?thesis by auto
  qed
qed

text \<open>Histories are read one entry at a time.\<close>

lemma passed_Cons: "passed (x # h) = passed [x] + passed h"
  by (cases "[x]" rule: passed.cases) auto

lemma keys_given_Cons: "keys_given (x # h) = keys_given [x] @ keys_given h"
  by (cases "[x]" rule: keys_given.cases) auto

lemma removals_Cons: "removals (x # h) = removals [x] + removals h"
  by (cases "[x]" rule: removals.cases) auto

lemma keys_given_single: "length (keys_given [x]) \<le> 1"
  by (cases "[x]" rule: keys_given.cases) auto

text \<open>\<open>Submit\<close> gives out consecutive keys.\<close>

fun consecutive :: "handler_key \<Rightarrow> handler_key list \<Rightarrow> bool" where
  "consecutive k [] = True"
| "consecutive k (x # xs) = (x = k \<and> consecutive (k + 1) xs)"

lemma consecutive_distinct:
  "consecutive k ks \<Longrightarrow> length ks \<le> 2 ^ 64 \<Longrightarrow>
     distinct ks \<and> (\<forall>x \<in> set ks. \<exists>i < length ks. x = k + of_nat i)"
proof (induction k ks rule: consecutive.induct)
  case (2 k x xs)
  then have d: "distinct xs" and m: "\<forall>y \<in> set xs. \<exists>i < length xs. y = k + 1 + of_nat i" and x: "x = k" by auto
  have "k \<notin> set xs"
  proof
    assume "k \<in> set xs"
    with m obtain i where i: "i < length xs" "k = k + 1 + of_nat i" by blast
    then have "(of_nat (Suc i) :: handler_key) = 0" by simp
    then have "2 ^ 64 dvd Suc i" unfolding word_of_nat_eq_0_iff by simp
    then have "2 ^ 64 \<le> Suc i" by (rule dvd_imp_le) simp
    with i(1) 2(3) show False by simp
  qed
  moreover have "\<exists>i < length (x # xs). y = k + of_nat i" if y: "y \<in> set (x # xs)" for y
  proof (cases "y = x")
    case True
    with x show ?thesis by (intro exI [of _ 0]) simp
  next
    case False
    with y m obtain i where "i < length xs" "y = k + 1 + of_nat i" by auto
    then show ?thesis by (intro exI [of _ "Suc i"]) (simp add: algebra_simps)
  qed
  ultimately show ?case using d x by simp
qed simp

lemma replay_reach:
  "n_reach cx n w S R \<Longrightarrow> replay (n_exec cx) (n, w) h = Some (n', w') \<Longrightarrow>
     \<exists>R'. n_reach cx n' w' (S + passed h) R' \<and> size R' = size R + removals h \<and>
       consecutive (v_next_key (n_service n)) (keys_given h)"
proof (induction h arbitrary: n w S R)
  case (Cons x h)
  obtain t op r where x: "x = (t, op, r)" by (cases x)
  with Cons.prems(2) obtain n1 w1 where e: "n_exec cx op (n, w) = (r, n1, w1)"
    "replay (n_exec cx) (n1, w1) h = Some (n', w')" by (auto split: prod.splits if_splits)
  obtain R1 where r1: "n_reach cx n1 w1 (S + passed [x]) R1" "size R1 = size R + removals [x]"
    "v_next_key (n_service n1) = v_next_key (n_service n) + of_nat (length (keys_given [x]))"
    "\<forall>k \<in> set (keys_given [x]). k = v_next_key (n_service n)"
    using n_exec_reach [OF Cons.prems(1) e(1), of t] unfolding x by blast
  from Cons.IH [OF r1(1) e(2)] obtain R' where "n_reach cx n' w' (S + passed (x # h)) R'"
    "size R' = size R + removals (x # h)" "consecutive (v_next_key (n_service n1)) (keys_given h)"
    unfolding passed_Cons [of x h] removals_Cons [of x h] r1(2) by (auto simp: add.assoc)
  moreover have "consecutive (v_next_key (n_service n)) (keys_given (x # h))"
    using calculation(3) r1(3,4) keys_given_single [of x]
    unfolding keys_given_Cons [of x h] by (cases "keys_given [x]") auto
  ultimately show ?case by blast
qed auto

section \<open>What the class promises\<close>

text \<open>
  C17: However many threads use a connection, it behaves as if they took turns. Take any threads that
  call any methods, interleaved in any way and with an inner connection that works in any number of
  small steps. No two threads are ever inside the connection at the same time; the methods that have
  returned, in that order, run one after the other give each the result it returned and lead to the
  state of the connection, as soon as nobody is inside; and while a thread is inside a method or
  waits for the lock, some thread can go on.
\<close>

theorem nonblocking_calls_linearizable:
  assumes "mreach tn_dispatch init act s0 c" and "implements init act (n_exec cx)"
  shows "(\<forall>t u. cf_run c t \<noteq> None \<longrightarrow> cf_run c u \<noteq> None \<longrightarrow> t = u) \<and>
    (\<exists>s1. replay (n_exec cx) s0 (cf_history c) = Some s1 \<and>
      ((\<forall>t. cf_run c t = None) \<longrightarrow> cf_shared c = s1)) \<and>
    (\<forall>t. cf_code c t \<noteq> [] \<or> cf_run c t \<noteq> None \<longrightarrow> (\<exists>c'. mstep init act c c'))"
  using tn.linearizable [OF assms] tn.deadlock_free [OF assms] by blast

text \<open>
  C6: Threads never lose or share an outcome. Whatever the threads did from a new connection on, once
  nobody is inside: the callbacks that all of them passed in are, with multiplicity, those that still
  wait, those that were told and those that were removed, as many as there were calls of
  \<open>RemoveHandler\<close> that returned true; and no two calls, of whatever threads, got the same key, up to
  \<open>2 ^ 64\<close> calls.
\<close>

theorem concurrent_callbacks_once:
  assumes "mreach tn_dispatch init act (n0, w0) c" and "implements init act (n_exec cx)"
    and "n_reach cx n0 w0 {#} {#}" and "\<forall>t. cf_run c t = None" and "cf_shared c = (n, w)"
  shows "(\<exists>R. waiting n + told tn w + R = passed (cf_history c) \<and> size R = removals (cf_history c)) \<and>
    (length (keys_given (cf_history c)) \<le> 2 ^ 64 \<longrightarrow> distinct (keys_given (cf_history c)))"
proof -
  have "replay (n_exec cx) (n0, w0) (cf_history c) = Some (n, w)"
    using tn.linearizable [OF assms(1,2)] assms(4,5) by auto
  from replay_reach [OF assms(3) this] obtain R where r: "n_reach cx n w (passed (cf_history c)) R"
    "size R = removals (cf_history c)" "consecutive (v_next_key (n_service n0)) (keys_given (cf_history c))" by auto
  from api_callback_once [OF r(1), of tn] have "waiting n + told tn w + R = passed (cf_history c)" by simp
  with r(2) consecutive_distinct [OF r(3)] show ?thesis by blast
qed

text \<open>Two threads, one of which submits a request and the other one inspects the connection.\<close>

definition quiet_world :: "char list hworld" where
  "quiet_world = \<lparr>w_rd = [], w_wr = [], w_out = [], w_log = []\<rparr>"

lemma example_start: "n_reach example_codec example_connection quiet_world {#} {#}"
  unfolding example_connection_def quiet_world_def
  by (rule n_start) (simp_all add: r_after_handshake_def r_live_def initial_receiver_def)

lemma example_run:
  "\<exists>c n w. mreach tn_dispatch torn_init (torn_act (n_exec example_codec)) (example_connection, quiet_world) c \<and>
     (\<forall>t. cf_run c t = None) \<and> cf_shared c = (n, w) \<and>
     (\<exists>k0 k1. cf_history c = [(0 :: nat, N_Call (Call_NoOp ''a''), NR_key k0), (1, N_Call (Call_Flush ''b''), NR_key k1)])"
proof -
  let ?act = "torn_act (n_exec example_codec)" and ?s0 = "(example_connection, quiet_world)"
  have start: "mreach tn_dispatch torn_init ?act ?s0 (ThreadsafeNonblockingKineticConnection example_connection quiet_world)"
    unfolding ThreadsafeNonblockingKineticConnection_def by (rule mr_start)
  obtain k0 n1 w1 where e0: "nb_exec example_codec (Call_NoOp ''a'') example_connection quiet_world = Some (k0, n1, w1)"
    by (auto intro: prod_cases3)
  obtain k1 n2 w2 where e1: "nb_exec example_codec (Call_Flush ''b'') n1 w1 = Some (k1, n2, w2)"
    by (auto intro: prod_cases3)
  obtain c1 where c1: "mreach tn_dispatch torn_init ?act ?s0 c1" "cf_code c1 = (\<lambda>_. [])" "cf_run c1 = (\<lambda>_. None)"
    "cf_shared c1 = (n1, w1)" "mx_owner (cf_mutex c1) = None"
    "cf_history c1 = [(0 :: nat, N_Call (Call_NoOp ''a''), NR_key k0)]"
    using guarded_call [OF start _ _ _ tn_forwards, of 0 "N_Call (Call_NoOp ''a'')" "Some (NR_key k0, w1)" "(n1, quiet_world)"
        "NR_key k0" "(n1, w1)"] e0
    by (auto simp: ThreadsafeNonblockingKineticConnection_def initial_config_def mx_free_def torn_init_def)
  obtain c2 where "mreach tn_dispatch torn_init ?act ?s0 c2" "cf_run c2 = (\<lambda>_. None)" "cf_shared c2 = (n2, w2)"
    "cf_history c2 = [(0 :: nat, N_Call (Call_NoOp ''a''), NR_key k0), (1, N_Call (Call_Flush ''b''), NR_key k1)]"
    using guarded_call [OF c1(1,5) _ _ tn_forwards, of 1 "N_Call (Call_Flush ''b'')" "Some (NR_key k1, w2)" "(n2, w1)"
        "NR_key k1" "(n2, w2)"] c1 e1
    by (auto simp: torn_init_def)
  then show ?thesis by auto
qed

theorem nonblocking_calls_linearizable_witness:
  "\<exists>c. mreach tn_dispatch torn_init (torn_act (n_exec example_codec)) (example_connection, quiet_world) c \<and>
     map fst (cf_history c) = [0 :: nat, 1] \<and>
     replay (n_exec example_codec) (example_connection, quiet_world) (cf_history c) = Some (cf_shared c)"
proof -
  obtain c where c: "mreach tn_dispatch torn_init (torn_act (n_exec example_codec)) (example_connection, quiet_world) c"
    "\<forall>t. cf_run c t = None" "map fst (cf_history c) = [0 :: nat, 1]" using example_run by fastforce
  from nonblocking_calls_linearizable [OF c(1) torn_implements] c show ?thesis by auto
qed

theorem concurrent_callbacks_once_witness:
  "\<exists>c n w k0 k1. mreach tn_dispatch torn_init (torn_act (n_exec example_codec)) (example_connection, quiet_world) c \<and>
     cf_history c = [(0 :: nat, N_Call (Call_NoOp ''a''), NR_key k0), (1, N_Call (Call_Flush ''b''), NR_key k1)] \<and>
     waiting n + told (\<lambda>_. []) w = {#''a'', ''b''#} \<and> k0 \<noteq> k1"
proof -
  obtain c n w k0 k1 where c: "mreach tn_dispatch torn_init (torn_act (n_exec example_codec)) (example_connection, quiet_world) c"
    "\<forall>t. cf_run c t = None" "cf_shared c = (n, w)"
    "cf_history c = [(0 :: nat, N_Call (Call_NoOp ''a''), NR_key k0), (1, N_Call (Call_Flush ''b''), NR_key k1)]"
    using example_run by blast
  from concurrent_callbacks_once [OF c(1) torn_implements example_start c(2,3), of "\<lambda>_. []"]
  have "waiting n + told (\<lambda>_. []) w = {#''a'', ''b''#} \<and> k0 \<noteq> k1" unfolding c(4) by auto
  with c show ?thesis by blast
qed

end
