(* ===== verification/Pending.thy ===== *)
theory Pending
  imports Connection
begin

text \<open>
  Who waits under which key. Every handler of a connection waits under the key that \<open>Submit\<close> gave
  its request: in the queue, while its request is written, and until the response arrives. Running
  only takes handlers away, and \<open>Remove\<close> with a key leaves no handler under that key, but for the
  one whose request is half written. The blocking connection rests on this.
\<close>

section \<open>Handlers with their keys\<close>

definition s_entries :: "'h sender \<Rightarrow> (handler_key \<times> 'h) multiset" where
  "s_entries s = image_mset (\<lambda>h. (s_handler_key s, h)) (opt_mset (s_handler s)) +
     mset (map (\<lambda>rq. (rq_key rq, rq_handler rq)) (s_request_queue s))"

definition r_entries :: "'h receiver \<Rightarrow> (handler_key \<times> 'h) multiset" where
  "r_entries r = mset (map (\<lambda>e. (entry_key e, fst (snd e))) (r_map r))"

definition v_entries :: "'h service \<Rightarrow> (handler_key \<times> 'h) multiset" where
  "v_entries v = s_entries (v_sender v) + r_entries (v_receiver v)"

lemma v_entries_pending: "v_ok v \<Longrightarrow> image_mset snd (v_entries v) = v_pending v"
  by (simp add: v_entries_def v_pending_def s_entries_def s_pending_def r_entries_def r_pending_def
      v_ok_def r_maps_ok_def multiset.map_comp comp_def)

lemma s_Enqueue_entries [simp]:
  "s_entries (s_Enqueue cx conn m cmd val h key s) = add_mset (key, h) (s_entries s)"
  by (simp add: s_entries_def s_Enqueue_def Let_def)

lemma s_next_entries:
  assumes "s_next s = Some (s1, pw)" and "s_wf s"
  shows "s_entries s1 = s_entries s"
  using assms by (auto simp: s_next_def s_entries_def s_wf_def Let_def split: option.splits list.splits)

lemma s_turn_entries:
  assumes "s_turn cx r_Enqueue s r w = (res, s', r', w')" and "s_wf s" and "r_maps_ok r"
  shows "s_entries s' + r_entries r' \<subseteq># s_entries s + r_entries r"
proof (cases "s_next s")
  case None
  with assms show ?thesis by (auto simp: s_turn_def)
next
  case (Some a)
  obtain s1 pw where a: "a = (s1, pw)" by (cases a)
  note n = s_next_entries [OF Some [unfolded a] assms(2)]
  from s_next_pending [OF assms(2) Some [unfolded a]] obtain h where h: "s_handler s1 = Some h" by blast
  obtain st pw' wr' out' where wr: "pw_Write (cx_ser_message cx) pw (w_wr w) (w_out w) = (st, pw', wr', out')"
    by (metis prod_cases4)
  obtain ok r1 where e: "r_Enqueue h (s_message_sequence s1) (s_handler_key s1) r = (ok, r1)"
    by (cases "r_Enqueue h (s_message_sequence s1) (s_handler_key s1) r")
  have r1: "r_entries r1 \<subseteq># add_mset (s_handler_key s1, h) (r_entries r)"
  proof (cases ok)
    case True
    with r_Enqueue_accepts [OF assms(3)] e show ?thesis by (simp add: r_entries_def entry_key_def)
  next
    case False
    with e have "r_Enqueue h (s_message_sequence s1) (s_handler_key s1) r = (False, r1)" by simp
    from r_Enqueue_rejects [OF assms(3) this] have "r1 = r" .
    then show ?thesis by simp
  qed
  have keep: "s_entries (s1\<lparr>s_current_writer := x\<rparr>) = s_entries s" for x using n by (simp add: s_entries_def)
  have moved: "add_mset (s_handler_key s1, h) (s_entries (s1\<lparr>s_current_writer := x, s_handler := None\<rparr>)) = s_entries s"
    for x using n h by (simp add: s_entries_def)
  have gone: "s_entries (s1\<lparr>s_current_writer := x, s_handler := None, s_request_queue := []\<rparr>) = {#}" for x
    by (simp add: s_entries_def)
  have enq: "s_entries (s1\<lparr>s_current_writer := x, s_handler := None\<rparr>) + r_entries r1 \<subseteq># s_entries s + r_entries r"
    for x using r1 unfolding moved [of x, symmetric] by (simp add: mset_subset_eq_mono_add)
  show ?thesis
    using assms(1) Some a wr h e keep gone enq
    by (cases st) (auto simp: s_turn_def s_fail_def Let_def)
qed

lemma map_shrinks_entries: "map_shrinks r r' \<Longrightarrow> r_entries r' \<subseteq># r_entries r"
  by (auto simp: map_shrinks_def r_entries_def multiset_filter_subset intro!: image_mset_subseteq_mono)

lemma s_Send_entries:
  assumes "s_Send cx r_Enqueue s r w = (st, s', r', w')" and "s_wf s" and "r_maps_ok r"
  shows "s_entries s' + r_entries r' \<subseteq># s_entries s + r_entries r"
proof (rule s_Send_rule [where I = "\<lambda>s1 r1 w1. s_wf s1 \<and> r_maps_ok r1 \<and>
      s_entries s1 + r_entries r1 \<subseteq># s_entries s + r_entries r", OF assms(1)])
  fix s1 r1 w1 s2 r2 w2
  assume t: "s_turn cx r_Enqueue s1 r1 w1 = (None, s2, r2, w2)"
    and I: "s_wf s1 \<and> r_maps_ok r1 \<and> s_entries s1 + r_entries r1 \<subseteq># s_entries s + r_entries r"
  then show "s_wf s2 \<and> r_maps_ok r2 \<and> s_entries s2 + r_entries r2 \<subseteq># s_entries s + r_entries r"
    using recv.turn_conserves [OF t] s_turn_entries [OF t] by (auto intro: subset_mset.order_trans)
next
  fix s1 r1 w1 st s2 r2 w2
  assume t: "s_turn cx r_Enqueue s1 r1 w1 = (Some st, s2, r2, w2)"
    and I: "s_wf s1 \<and> r_maps_ok r1 \<and> s_entries s1 + r_entries r1 \<subseteq># s_entries s + r_entries r"
  then show "s_entries s2 + r_entries r2 \<subseteq># s_entries s + r_entries r"
    using s_turn_entries [OF t] by (auto intro: subset_mset.order_trans)
qed (use assms in simp)

section \<open>What the operations of a service do to the entries\<close>

lemma v_Submit_entries:
  "v_Submit cx m cmd val h v w = (key, v', w') \<Longrightarrow>
     key = v_next_key v \<and>
     (if v_failed v then v_entries v' = v_entries v else v_entries v' = add_mset (key, h) (v_entries v))"
  by (auto simp: v_Submit_def v_entries_def Let_def)

lemma v_Run_entries:
  assumes "v_Run cx v w = (res, v', w')" and "v_ok v" and "log_clean (w_log w)"
    and "keys_ok n (v_sender v) (v_receiver v)"
  shows "v_entries v' \<subseteq># v_entries v"
proof (cases "v_failed v")
  case True
  with assms show ?thesis by (simp add: v_Run_def)
next
  case False
  with assms(2) have s: "s_wf (v_sender v)" and r: "r_maps_ok (v_receiver v)" "r_live (v_receiver v)"
    by (simp_all add: v_ok_def)
  obtain st s1 r1 w1 where S: "s_Send cx r_Enqueue (v_sender v) (v_receiver v) w = (st, s1, r1, w1)"
    by (metis prod_cases4)
  obtain rt r2 w2 where R: "r_Receive cx r1 w1 = (rt, r2, w2)" by (metis prod_cases3)
  have r1: "r_maps_ok r1" "r_live r1" using recv.Send_conserves [OF S s r(1)] s_Send_live [OF S r(2)] by auto
  have "log_clean (w_log w1)"
    using s_Send_keys [OF S s r(1) assms(4)] log_clean_write_errors assms(3) by blast
  from r_Receive_shrinks [OF R r1 this] have "r_entries r2 \<subseteq># r_entries r1" by (simp add: map_shrinks_entries)
  with s_Send_entries [OF S s r(1)] have "s_entries s1 + r_entries r2 \<subseteq># s_entries (v_sender v) + r_entries (v_receiver v)"
    by (meson mset_subset_eq_mono_add subset_mset.order_refl subset_mset.order_trans)
  with s_Send_entries [OF S s r(1)] assms(1) False show ?thesis
    by (auto simp: v_Run_def S R v_CleanUp_def v_entries_def Let_def split: if_splits)
qed

text \<open>After \<open>Remove\<close>, only the handler whose request is being written can be left under the key.\<close>

lemma entries_of_key:
  "(key, h) \<in># v_entries v \<longleftrightarrow>
     (s_handler (v_sender v) = Some h \<and> s_handler_key (v_sender v) = key) \<or>
     (\<exists>rq \<in> set (s_request_queue (v_sender v)). rq_key rq = key \<and> rq_handler rq = h) \<or>
     (\<exists>seq. (seq, h, key) \<in> set (r_map (v_receiver v)))"
  by (cases "s_handler (v_sender v)") (force simp: v_entries_def s_entries_def r_entries_def entry_key_def)+

lemma v_Remove_entries:
  assumes "v_Remove key v = Some (b, v')" and "v_ok v" and "keys_ok n (v_sender v) (v_receiver v)"
  shows "v_entries v' \<subseteq># v_entries v \<and>
    ((key, h) \<in># v_entries v' \<longrightarrow> s_handler (v_sender v') = Some h)"
proof -
  obtain sb s where S: "s_Remove key (v_sender v) = (sb, s)" by (cases "s_Remove key (v_sender v)")
  note sr = s_Remove_correct [of key "v_sender v", unfolded S prod.case]
  have r: "r_maps_ok (v_receiver v)" using assms(2) by (simp add: v_ok_def)
  from assms(3) have d: "distinct (s_keys (v_sender v) @ map entry_key (r_map (v_receiver v)))"
    by (simp add: keys_ok_def v_key_list_def)
  show ?thesis
  proof (cases sb)
    case True
    with sr obtain xs rq ys where q: "s_request_queue (v_sender v) = xs @ rq # ys" "s_request_queue s = xs @ ys"
      "rq_key rq = key" by auto
    from True assms(1) S have v': "v' = v\<lparr>v_sender := s\<rparr>" by (simp add: v_Remove_def)
    have hk: "s_handler s = s_handler (v_sender v)" "s_handler_key s = s_handler_key (v_sender v)"
      using sr S by (auto simp: s_Remove_def split: prod.splits)
    have "key \<notin> rq_key ` set (xs @ ys)" "key \<notin> entry_key ` set (r_map (v_receiver v))"
      using d q by (auto simp: s_keys_def)
    then show ?thesis
      unfolding entries_of_key v' using hk q
      by (auto simp: v_entries_def s_entries_def entry_key_def image_iff dest: bspec)
  next
    case False
    with sr have s: "s = v_sender v" "key \<notin> rq_key ` set (s_request_queue (v_sender v))" by simp_all
    from False assms(1) S s(1) obtain r' where R: "r_Remove key (v_receiver v) = Some (b, r')"
      and v': "v' = v\<lparr>v_receiver := r'\<rparr>" by (auto simp: v_Remove_def split: option.splits)
    have "key \<notin> entry_key ` set (r_map r')"
    proof (cases b)
      case True
      with r_Remove_correct [OF r, of key] R obtain seq h' where f: "um_find seq (r_map (v_receiver v)) = Some (h', key)"
        and m: "r_map r' = snd (um_erase seq (r_map (v_receiver v)))" by auto
      have "distinct (map entry_key (r_map (v_receiver v)))" using d by simp
      with um_find_in_set [OF f] m show ?thesis
        by (force simp: um_erase_set entry_key_def distinct_map inj_on_def)
    qed (use r_Remove_correct [OF r, of key] R in auto)
    with s(2) have "(key, h) \<in># v_entries v' \<longrightarrow> s_handler (v_sender v') = Some h"
      unfolding entries_of_key v' by (auto simp: entry_key_def image_iff)
    moreover have "v_entries v' \<subseteq># v_entries v"
      using map_shrinks_entries [OF r_Remove_shrinks [OF R]] by (simp add: v' v_entries_def)
    ultimately show ?thesis by blast
  qed
qed

end
