(* ===== verification/Blocking.thy ===== *)
theory Blocking
  imports Pending
begin

text \<open>
  \<open>BlockingKineticConnection\<close> (\<open>blocking_kinetic_connection.cc\<close>): every operation makes a callback
  object, submits the request of the non-blocking connection with it, and then runs the connection
  until the callback object says that it was called, or until \<open>select\<close> gives up.

  A callback object is known by its name, a natural number that the model hands out; \<open>bl_next\<close> is
  the next free one. The state of an object follows from the calls made to it, which the log of the
  world holds. The variables of the caller that a callback object refers to are the record
  \<open>outputs\<close>.
\<close>

section \<open>Callback objects\<close>

record callback_state =
  bs_done :: bool
  bs_success :: bool
  bs_error :: kinetic_status

definition BlockingCallbackState :: callback_state where
  "BlockingCallbackState =
     \<lparr>bs_done = False, bs_success = False, bs_error = KineticStatus0 OK ''default -- never seen''\<rparr>"

definition OnSuccess :: "callback_state \<Rightarrow> callback_state" where
  "OnSuccess s = s\<lparr>bs_done := True, bs_success := True\<rparr>"

definition OnError :: "kinetic_status \<Rightarrow> callback_state \<Rightarrow> callback_state" where
  "OnError error s = s\<lparr>bs_done := True, bs_success := False, bs_error := error\<rparr>"

record outputs =
  o_actual_key :: "bytes option"
  o_record :: "kinetic_record option"
  o_version :: "bytes option"
  o_keys :: "bytes list option"
  o_last_key :: "bytes option"
  o_drive_log :: "drive_log option"
  o_statuses :: "kinetic_status list option"

text \<open>The classes of callback objects; the flag is \<open>want_actual_key_\<close>.\<close>

datatype blocking_callback =
    SimpleCallback
  | BlockingGetCallback bool
  | BlockingGetVersionCallback
  | BlockingGetKeyRangeCallback
  | BlockingMediaScanCallback
  | BlockingMediaOptimizeCallback
  | BlockingPutCallback
  | GetLogCallback
  | BlockingP2PPushCallback

text \<open>A string is assigned through its \<open>unique_ptr\<close>, or allocated where that is null.\<close>

fun assign_or_new :: "bytes option \<Rightarrow> bytes \<Rightarrow> bytes option" where
  "assign_or_new (Some old) new = Some new"
| "assign_or_new None new = Some new"

type_synonym callback_object = "callback_state \<times> outputs"

definition BlockingGetCallback_Success :: "bool \<Rightarrow> bytes \<Rightarrow> kinetic_record \<Rightarrow> callback_object \<Rightarrow> callback_object" where
  "BlockingGetCallback_Success want_actual_key key record ob =
     (case ob of (s, out) \<Rightarrow>
        let out1 = (if want_actual_key then out\<lparr>o_actual_key := assign_or_new (o_actual_key out) key\<rparr> else out)
        in (OnSuccess s, out1\<lparr>o_record := Some record\<rparr>))"

definition BlockingGetVersionCallback_Success :: "bytes \<Rightarrow> callback_object \<Rightarrow> callback_object" where
  "BlockingGetVersionCallback_Success version ob =
     (case ob of (s, out) \<Rightarrow> (OnSuccess s, out\<lparr>o_version := assign_or_new (o_version out) version\<rparr>))"

definition BlockingGetKeyRangeCallback_Success :: "bytes list \<Rightarrow> callback_object \<Rightarrow> callback_object" where
  "BlockingGetKeyRangeCallback_Success keys ob =
     (case ob of (s, out) \<Rightarrow> (OnSuccess s, out\<lparr>o_keys := Some keys\<rparr>))"

definition BlockingMediaScanCallback_Success :: "bytes list \<Rightarrow> bytes \<Rightarrow> callback_object \<Rightarrow> callback_object" where
  "BlockingMediaScanCallback_Success keys end_key ob =
     (case ob of (s, out) \<Rightarrow>
        (OnSuccess s, out\<lparr>o_last_key := assign_or_new (o_last_key out) end_key, o_keys := Some keys\<rparr>))"

definition BlockingMediaOptimizeCallback_Success :: "bytes \<Rightarrow> callback_object \<Rightarrow> callback_object" where
  "BlockingMediaOptimizeCallback_Success end_key ob =
     (case ob of (s, out) \<Rightarrow> (OnSuccess s, out\<lparr>o_last_key := assign_or_new (o_last_key out) end_key\<rparr>))"

definition SimpleCallback_Success :: "callback_object \<Rightarrow> callback_object" where
  "SimpleCallback_Success ob = (case ob of (s, out) \<Rightarrow> (OnSuccess s, out))"

definition GetLogCallback_Success :: "drive_log \<Rightarrow> callback_object \<Rightarrow> callback_object" where
  "GetLogCallback_Success drive_log ob =
     (case ob of (s, out) \<Rightarrow> (OnSuccess s, out\<lparr>o_drive_log := Some drive_log\<rparr>))"

definition BlockingP2PPushCallback_Success :: "kinetic_status list \<Rightarrow> callback_object \<Rightarrow> callback_object" where
  "BlockingP2PPushCallback_Success statuses ob =
     (case ob of (s, out) \<Rightarrow> (OnSuccess s, out\<lparr>o_statuses := Some statuses\<rparr>))"

definition callback_Failure :: "kinetic_status \<Rightarrow> callback_object \<Rightarrow> callback_object" where
  "callback_Failure error ob = (case ob of (s, out) \<Rightarrow> (OnError error s, out))"

text \<open>
  One call of a method of a callback object. The C++ types rule out a success call of another
  interface, which the model leaves without effect.
\<close>

definition on_call :: "blocking_callback \<Rightarrow> 'c app_call \<Rightarrow> callback_object \<Rightarrow> callback_object" where
  "on_call cls a ob =
     (case a of
        Get_Success _ key record \<Rightarrow>
          (case cls of BlockingGetCallback want \<Rightarrow> BlockingGetCallback_Success want key record ob | _ \<Rightarrow> ob)
      | GetVersion_Success _ version \<Rightarrow>
          (case cls of BlockingGetVersionCallback \<Rightarrow> BlockingGetVersionCallback_Success version ob | _ \<Rightarrow> ob)
      | GetKeyRange_Success _ keys \<Rightarrow>
          (case cls of BlockingGetKeyRangeCallback \<Rightarrow> BlockingGetKeyRangeCallback_Success keys ob | _ \<Rightarrow> ob)
      | MediaScan_Success _ keys end_key \<Rightarrow>
          (case cls of BlockingMediaScanCallback \<Rightarrow> BlockingMediaScanCallback_Success keys end_key ob | _ \<Rightarrow> ob)
      | MediaOptimize_Success _ end_key \<Rightarrow>
          (case cls of BlockingMediaOptimizeCallback \<Rightarrow> BlockingMediaOptimizeCallback_Success end_key ob | _ \<Rightarrow> ob)
      | Put_Success _ \<Rightarrow> (case cls of BlockingPutCallback \<Rightarrow> SimpleCallback_Success ob | _ \<Rightarrow> ob)
      | Simple_Success _ \<Rightarrow> (case cls of SimpleCallback \<Rightarrow> SimpleCallback_Success ob | _ \<Rightarrow> ob)
      | GetLog_Success _ drive_log \<Rightarrow>
          (case cls of GetLogCallback \<Rightarrow> GetLogCallback_Success drive_log ob | _ \<Rightarrow> ob)
      | P2PPush_Success _ statuses response \<Rightarrow>
          (case cls of BlockingP2PPushCallback \<Rightarrow> BlockingP2PPushCallback_Success statuses ob | _ \<Rightarrow> ob)
      | App_Failure _ error \<Rightarrow> callback_Failure error ob
      | P2PPush_Failure _ error response \<Rightarrow> callback_Failure error ob)"

section \<open>The environment of an operation\<close>

text \<open>
  Functions the client calls that are not its own: the codec, the names of message types, and
  \<open>strerror\<close>.
\<close>

record lib =
  lb_codec :: codec
  lb_type_name :: "message_type \<Rightarrow> bytes"
  lb_strerror :: "errno \<Rightarrow> string"

text \<open>
  What happens on the socket while \<open>select\<close> waits, at most: a descriptor gets ready or a signal
  arrives after so many microseconds, the call fails, or nothing.
\<close>

datatype sel_event = Ready_after nat | Signal_after nat | Sel_fails errno | Quiet

record timeval =
  tv_sec :: int
  tv_usec :: int

definition tv_usecs :: "timeval \<Rightarrow> int" where
  "tv_usecs tv = tv_sec tv * 1000000 + tv_usec tv"

text \<open>\<open>select\<close> as POSIX documents it: the number of ready descriptors, and \<open>errno\<close> if that is -1.\<close>

fun sys_select :: "int set \<Rightarrow> int set \<Rightarrow> timeval \<Rightarrow> sel_event \<Rightarrow> int \<times> errno" where
  "sys_select reads writes tv (Ready_after d) =
     (if (reads \<noteq> {} \<or> writes \<noteq> {}) \<and> int d \<le> tv_usecs tv then 1 else 0, Errno 0)"
| "sys_select reads writes tv (Signal_after d) = (if int d < tv_usecs tv then (- 1, EINTR) else (0, Errno 0))"
| "sys_select reads writes tv (Sel_fails e) = (- 1, e)"
| "sys_select reads writes tv Quiet = (0, Errno 0)"

text \<open>
  One round of the loop: the clock in nanoseconds, what \<open>select\<close> sees, and what the network brings
  and takes by the next \<open>Run\<close>.
\<close>

record round =
  ro_now :: int
  ro_event :: sel_event
  ro_arrivals :: "rd_event list"
  ro_accepts :: "wr_event list"

record env =
  e_arrivals :: "rd_event list"
  e_accepts :: "wr_event list"
  e_now :: int
  e_rounds :: "round list"

definition io_world :: "rd_event list \<Rightarrow> wr_event list \<Rightarrow> 'h world \<Rightarrow> 'h world" where
  "io_world arrivals accepts w = w\<lparr>w_rd := w_rd w @ arrivals, w_wr := accepts\<rparr>"

section \<open>Running an operation\<close>

text \<open>
  How an operation ends. \<open>Blocked\<close> is an operation that has not returned yet when the rounds are
  used up; it stands at \<open>select\<close> with these sets. \<open>Undefined\<close> is a failed check or a null pointer.
\<close>

datatype op_result =
    Returned (op_status: kinetic_status)
  | Blocked "int set" "int set"
  | Undefined

definition op_give_up ::
    "handler_key \<Rightarrow> string \<Rightarrow> 'c connection \<Rightarrow> 'c hworld \<Rightarrow> op_result \<times> 'c connection \<times> 'c hworld" where
  "op_give_up key msg n w =
     (case RemoveHandler key n of
        None \<Rightarrow> (Undefined, n, w)
      | Some (_, n') \<Rightarrow> (Returned (KineticStatus0 CLIENT_IO_ERROR msg), n', w))"

text \<open>What is left of the time, as \<open>select\<close> takes it.\<close>

definition remaining_time :: "int \<Rightarrow> int \<Rightarrow> timeval" where
  "remaining_time timeout_time current_time =
     (if timeout_time > current_time then
        let remaining_sec = (timeout_time - current_time) div 1000000000;
            remaining_usec = (timeout_time - current_time) div 1000 - remaining_sec * 1000000
        in \<lparr>tv_sec = remaining_sec, tv_usec = remaining_usec\<rparr>
      else \<lparr>tv_sec = 0, tv_usec = 0\<rparr>)"

fun wait_loop ::
    "lib \<Rightarrow> ('c hworld \<Rightarrow> callback_state) \<Rightarrow> int \<Rightarrow> handler_key \<Rightarrow> round list \<Rightarrow> int set \<Rightarrow> int set
     \<Rightarrow> 'c connection \<Rightarrow> 'c hworld \<Rightarrow> op_result \<times> 'c connection \<times> 'c hworld" where
  "wait_loop lib state timeout_time key rounds reads writes n w =
     (if bs_done (state w) then
        (Returned (if bs_success (state w) then KineticStatus0 OK '''' else bs_error (state w)), n, w)
      else
        (case rounds of
           [] \<Rightarrow> (Blocked reads writes, n, w)
         | rnd # rounds' \<Rightarrow>
             (case sys_select reads writes (remaining_time timeout_time (ro_now rnd)) (ro_event rnd) of
                (number_ready_fds, err) \<Rightarrow>
                  if number_ready_fds < 0 \<and> err \<noteq> EINTR then op_give_up key (lb_strerror lib err) n w
                  else if number_ready_fds = 0 then op_give_up key ''Network timeout'' n w
                  else
                    (case n_Run (lb_codec lib) n (io_world (ro_arrivals rnd) (ro_accepts rnd) w) of
                       (Run_crash, n', w') \<Rightarrow> (Undefined, n', w')
                     | (Run_false, n', w') \<Rightarrow> op_give_up key ''Connection failed'' n' w'
                     | (Run_true reads' writes' _, n', w') \<Rightarrow>
                         wait_loop lib state timeout_time key rounds' reads' writes' n' w'))))"

declare wait_loop.simps [simp del]

definition RunOperation ::
    "lib \<Rightarrow> env \<Rightarrow> uint32 \<Rightarrow> ('c hworld \<Rightarrow> callback_state) \<Rightarrow> handler_key
     \<Rightarrow> 'c connection \<Rightarrow> 'c hworld \<Rightarrow> op_result \<times> 'c connection \<times> 'c hworld" where
  "RunOperation lib env network_timeout_seconds state key n w =
     (case n_Run (lb_codec lib) n (io_world (e_arrivals env) (e_accepts env) w) of
        (Run_crash, n', w') \<Rightarrow> (Undefined, n', w')
      | (Run_false, n', w') \<Rightarrow> op_give_up key ''Connection failed'' n' w'
      | (Run_true reads writes _, n', w') \<Rightarrow>
          let timeout_time = e_now env + uint network_timeout_seconds * 1000000000
          in wait_loop lib state timeout_time key (e_rounds env) reads writes n' w')"

section \<open>The operations\<close>

record blocking =
  bl_connection :: "nat connection"
  bl_timeout :: uint32
  bl_next :: nat

definition BlockingKineticConnection :: "nat connection \<Rightarrow> uint32 \<Rightarrow> blocking" where
  "BlockingKineticConnection nonblocking_connection network_timeout_seconds =
     \<lparr>bl_connection = nonblocking_connection, bl_timeout = network_timeout_seconds, bl_next = 0\<rparr>"

definition calls_to :: "(message_type \<Rightarrow> bytes) \<Rightarrow> 'c \<Rightarrow> 'c hworld \<Rightarrow> 'c app_call list" where
  "calls_to tn c w = filter (\<lambda>a. app_callback a = c) (map (deliver tn) (w_log w))"

definition callback_view ::
    "lib \<Rightarrow> blocking_callback \<Rightarrow> 'c \<Rightarrow> outputs \<Rightarrow> 'c hworld \<Rightarrow> callback_object" where
  "callback_view lib cls c out w =
     fold (on_call cls) (calls_to (lb_type_name lib) c w) (BlockingCallbackState, out)"

type_synonym blocking_run =
  "outputs \<Rightarrow> blocking \<Rightarrow> nat hworld \<Rightarrow> op_result \<times> outputs \<times> blocking \<times> nat hworld"

text \<open>What every operation does, given the class of its callback object and its request.\<close>

definition invoke :: "lib \<Rightarrow> env \<Rightarrow> blocking_callback \<Rightarrow> (nat \<Rightarrow> nat nb_call) \<Rightarrow> blocking_run" where
  "invoke lib env cls request out b w =
     (let c = bl_next b in
      case nb_exec (lb_codec lib) (request c) (bl_connection b) w of
        None \<Rightarrow> (Undefined, out, b, w)
      | Some (key, n, w1) \<Rightarrow>
          (case RunOperation lib env (bl_timeout b) (\<lambda>w. fst (callback_view lib cls c out w)) key n w1 of
             (res, n', w') \<Rightarrow>
               (res, snd (callback_view lib cls c out w'),
                b\<lparr>bl_connection := n', bl_next := Suc c\<rparr>, w')))"

definition bl_SetClientClusterVersion :: "int64 \<Rightarrow> blocking \<Rightarrow> blocking" where
  "bl_SetClientClusterVersion cluster_version b =
     b\<lparr>bl_connection := SetClientClusterVersion cluster_version (bl_connection b)\<rparr>"

definition bl_NoOp :: "lib \<Rightarrow> env \<Rightarrow> blocking_run" where
  "bl_NoOp lib env = invoke lib env SimpleCallback Call_NoOp"

definition bl_Get :: "lib \<Rightarrow> env \<Rightarrow> bytes \<Rightarrow> blocking_run" where
  "bl_Get lib env key = invoke lib env (BlockingGetCallback False) (Call_Get key)"

definition bl_Put ::
    "lib \<Rightarrow> env \<Rightarrow> bytes \<Rightarrow> bytes \<Rightarrow> write_mode \<Rightarrow> kinetic_record \<Rightarrow> persist_mode \<Rightarrow> blocking_run" where
  "bl_Put lib env key current_version mode record persistMode =
     invoke lib env BlockingPutCallback (\<lambda>c. Call_Put key current_version mode record c (Some persistMode))"

definition bl_Put_default ::
    "lib \<Rightarrow> env \<Rightarrow> bytes \<Rightarrow> bytes \<Rightarrow> write_mode \<Rightarrow> kinetic_record \<Rightarrow> blocking_run" where
  "bl_Put_default lib env key current_version mode record =
     invoke lib env BlockingPutCallback (\<lambda>c. Call_Put key current_version mode record c None)"

definition bl_Delete ::
    "lib \<Rightarrow> env \<Rightarrow> bytes \<Rightarrow> bytes \<Rightarrow> write_mode \<Rightarrow> persist_mode \<Rightarrow> blocking_run" where
  "bl_Delete lib env key version mode persistMode =
     invoke lib env SimpleCallback (\<lambda>c. Call_Delete key version mode c (Some persistMode))"

definition bl_Delete_default :: "lib \<Rightarrow> env \<Rightarrow> bytes \<Rightarrow> bytes \<Rightarrow> write_mode \<Rightarrow> blocking_run" where
  "bl_Delete_default lib env key version mode =
     invoke lib env SimpleCallback (\<lambda>c. Call_Delete key version mode c None)"

definition bl_InstantErase :: "lib \<Rightarrow> env \<Rightarrow> bytes option \<Rightarrow> blocking_run" where
  "bl_InstantErase lib env pin = invoke lib env SimpleCallback (Call_InstantErase pin)"

definition bl_SecureErase :: "lib \<Rightarrow> env \<Rightarrow> bytes option \<Rightarrow> blocking_run" where
  "bl_SecureErase lib env pin = invoke lib env SimpleCallback (Call_SecureErase pin)"

definition bl_SetClusterVersion :: "lib \<Rightarrow> env \<Rightarrow> int64 \<Rightarrow> blocking_run" where
  "bl_SetClusterVersion lib env new_cluster_version =
     invoke lib env SimpleCallback (Call_SetClusterVersion new_cluster_version)"

definition bl_GetLog_all :: "lib \<Rightarrow> env \<Rightarrow> blocking_run" where
  "bl_GetLog_all lib env = invoke lib env GetLogCallback (Call_GetLog None)"

definition bl_GetLog :: "lib \<Rightarrow> env \<Rightarrow> getlog_type list \<Rightarrow> blocking_run" where
  "bl_GetLog lib env types = invoke lib env GetLogCallback (Call_GetLog (Some types))"

definition bl_Flush :: "lib \<Rightarrow> env \<Rightarrow> blocking_run" where
  "bl_Flush lib env = invoke lib env SimpleCallback Call_Flush"

definition bl_UpdateFirmware :: "lib \<Rightarrow> env \<Rightarrow> bytes \<Rightarrow> blocking_run" where
  "bl_UpdateFirmware lib env new_firmware = invoke lib env SimpleCallback (Call_UpdateFirmware new_firmware)"

definition bl_SetACLs :: "lib \<Rightarrow> env \<Rightarrow> acl list \<Rightarrow> blocking_run" where
  "bl_SetACLs lib env acls = invoke lib env SimpleCallback (Call_SetACLs acls)"

definition bl_SetErasePIN :: "lib \<Rightarrow> env \<Rightarrow> bytes option \<Rightarrow> bytes option \<Rightarrow> blocking_run" where
  "bl_SetErasePIN lib env new_pin current_pin =
     invoke lib env SimpleCallback (Call_SetErasePIN new_pin current_pin)"

definition bl_SetLockPIN :: "lib \<Rightarrow> env \<Rightarrow> bytes option \<Rightarrow> bytes option \<Rightarrow> blocking_run" where
  "bl_SetLockPIN lib env new_pin current_pin =
     invoke lib env SimpleCallback (Call_SetLockPIN new_pin current_pin)"

definition bl_LockDevice :: "lib \<Rightarrow> env \<Rightarrow> bytes option \<Rightarrow> blocking_run" where
  "bl_LockDevice lib env pin = invoke lib env SimpleCallback (Call_LockDevice pin)"

definition bl_UnlockDevice :: "lib \<Rightarrow> env \<Rightarrow> bytes option \<Rightarrow> blocking_run" where
  "bl_UnlockDevice lib env pin = invoke lib env SimpleCallback (Call_UnlockDevice pin)"

definition bl_GetNext :: "lib \<Rightarrow> env \<Rightarrow> bytes \<Rightarrow> blocking_run" where
  "bl_GetNext lib env key = invoke lib env (BlockingGetCallback True) (Call_GetNext key)"

definition bl_GetPrevious :: "lib \<Rightarrow> env \<Rightarrow> bytes \<Rightarrow> blocking_run" where
  "bl_GetPrevious lib env key = invoke lib env (BlockingGetCallback True) (Call_GetPrevious key)"

definition bl_GetVersion :: "lib \<Rightarrow> env \<Rightarrow> bytes \<Rightarrow> blocking_run" where
  "bl_GetVersion lib env key = invoke lib env BlockingGetVersionCallback (Call_GetVersion key)"

definition bl_GetKeyRange ::
    "lib \<Rightarrow> env \<Rightarrow> bytes \<Rightarrow> bool \<Rightarrow> bytes \<Rightarrow> bool \<Rightarrow> bool \<Rightarrow> 32 word \<Rightarrow> blocking_run" where
  "bl_GetKeyRange lib env start_key start_inc end_key end_inc reverse_results max_results =
     invoke lib env BlockingGetKeyRangeCallback
       (Call_GetKeyRange start_key start_inc end_key end_inc reverse_results max_results)"

definition bl_P2PPush :: "lib \<Rightarrow> env \<Rightarrow> p2p_push_request \<Rightarrow> blocking_run" where
  "bl_P2PPush lib env push_request = invoke lib env BlockingP2PPushCallback (Call_P2PPush push_request)"

definition bl_MediaOptimize :: "lib \<Rightarrow> env \<Rightarrow> bytes \<Rightarrow> bool \<Rightarrow> bytes \<Rightarrow> bool \<Rightarrow> blocking_run" where
  "bl_MediaOptimize lib env start_key start_inc end_key end_inc =
     invoke lib env BlockingMediaOptimizeCallback (Call_MediaOptimize start_key start_inc end_key end_inc)"

definition bl_MediaScan :: "lib \<Rightarrow> env \<Rightarrow> bytes \<Rightarrow> bool \<Rightarrow> bytes \<Rightarrow> bool \<Rightarrow> 32 word \<Rightarrow> blocking_run" where
  "bl_MediaScan lib env start_key start_inc end_key end_inc max_results =
     invoke lib env BlockingMediaScanCallback (Call_MediaScan start_key start_inc end_key end_inc max_results)"

section \<open>The interface as a whole\<close>

datatype blocking_op =
    B_NoOp
  | B_Get bytes
  | B_GetNext bytes
  | B_GetPrevious bytes
  | B_GetVersion bytes
  | B_GetKeyRange bytes bool bytes bool bool "32 word"
  | B_MediaScan bytes bool bytes bool "32 word"
  | B_MediaOptimize bytes bool bytes bool
  | B_Put bytes bytes write_mode kinetic_record persist_mode
  | B_Put_default bytes bytes write_mode kinetic_record
  | B_Delete bytes bytes write_mode persist_mode
  | B_Delete_default bytes bytes write_mode
  | B_GetLog_all
  | B_GetLog "getlog_type list"
  | B_P2PPush p2p_push_request
  | B_Flush
  | B_SetClusterVersion int64
  | B_UpdateFirmware bytes
  | B_SetACLs "acl list"
  | B_SetErasePIN "bytes option" "bytes option"
  | B_SetLockPIN "bytes option" "bytes option"
  | B_InstantErase "bytes option"
  | B_SecureErase "bytes option"
  | B_LockDevice "bytes option"
  | B_UnlockDevice "bytes option"

fun b_exec :: "lib \<Rightarrow> env \<Rightarrow> blocking_op \<Rightarrow> blocking_run" where
  "b_exec lib env B_NoOp = bl_NoOp lib env"
| "b_exec lib env (B_Get k) = bl_Get lib env k"
| "b_exec lib env (B_GetNext k) = bl_GetNext lib env k"
| "b_exec lib env (B_GetPrevious k) = bl_GetPrevious lib env k"
| "b_exec lib env (B_GetVersion k) = bl_GetVersion lib env k"
| "b_exec lib env (B_GetKeyRange s si e ei rv m) = bl_GetKeyRange lib env s si e ei rv m"
| "b_exec lib env (B_MediaScan s si e ei m) = bl_MediaScan lib env s si e ei m"
| "b_exec lib env (B_MediaOptimize s si e ei) = bl_MediaOptimize lib env s si e ei"
| "b_exec lib env (B_Put k v mode r p) = bl_Put lib env k v mode r p"
| "b_exec lib env (B_Put_default k v mode r) = bl_Put_default lib env k v mode r"
| "b_exec lib env (B_Delete k v mode p) = bl_Delete lib env k v mode p"
| "b_exec lib env (B_Delete_default k v mode) = bl_Delete_default lib env k v mode"
| "b_exec lib env B_GetLog_all = bl_GetLog_all lib env"
| "b_exec lib env (B_GetLog ts) = bl_GetLog lib env ts"
| "b_exec lib env (B_P2PPush r) = bl_P2PPush lib env r"
| "b_exec lib env B_Flush = bl_Flush lib env"
| "b_exec lib env (B_SetClusterVersion v) = bl_SetClusterVersion lib env v"
| "b_exec lib env (B_UpdateFirmware f) = bl_UpdateFirmware lib env f"
| "b_exec lib env (B_SetACLs as) = bl_SetACLs lib env as"
| "b_exec lib env (B_SetErasePIN new cur) = bl_SetErasePIN lib env new cur"
| "b_exec lib env (B_SetLockPIN new cur) = bl_SetLockPIN lib env new cur"
| "b_exec lib env (B_InstantErase pin) = bl_InstantErase lib env pin"
| "b_exec lib env (B_SecureErase pin) = bl_SecureErase lib env pin"
| "b_exec lib env (B_LockDevice pin) = bl_LockDevice lib env pin"
| "b_exec lib env (B_UnlockDevice pin) = bl_UnlockDevice lib env pin"

text \<open>The request and the class of callback object of each operation.\<close>

fun op_call :: "blocking_op \<Rightarrow> nat \<Rightarrow> nat nb_call" where
  "op_call B_NoOp c = Call_NoOp c"
| "op_call (B_Get k) c = Call_Get k c"
| "op_call (B_GetNext k) c = Call_GetNext k c"
| "op_call (B_GetPrevious k) c = Call_GetPrevious k c"
| "op_call (B_GetVersion k) c = Call_GetVersion k c"
| "op_call (B_GetKeyRange s si e ei rv m) c = Call_GetKeyRange s si e ei rv m c"
| "op_call (B_MediaScan s si e ei m) c = Call_MediaScan s si e ei m c"
| "op_call (B_MediaOptimize s si e ei) c = Call_MediaOptimize s si e ei c"
| "op_call (B_Put k v mode r p) c = Call_Put k v mode r c (Some p)"
| "op_call (B_Put_default k v mode r) c = Call_Put k v mode r c None"
| "op_call (B_Delete k v mode p) c = Call_Delete k v mode c (Some p)"
| "op_call (B_Delete_default k v mode) c = Call_Delete k v mode c None"
| "op_call B_GetLog_all c = Call_GetLog None c"
| "op_call (B_GetLog ts) c = Call_GetLog (Some ts) c"
| "op_call (B_P2PPush r) c = Call_P2PPush r c"
| "op_call B_Flush c = Call_Flush c"
| "op_call (B_SetClusterVersion v) c = Call_SetClusterVersion v c"
| "op_call (B_UpdateFirmware f) c = Call_UpdateFirmware f c"
| "op_call (B_SetACLs as) c = Call_SetACLs as c"
| "op_call (B_SetErasePIN new cur) c = Call_SetErasePIN new cur c"
| "op_call (B_SetLockPIN new cur) c = Call_SetLockPIN new cur c"
| "op_call (B_InstantErase pin) c = Call_InstantErase pin c"
| "op_call (B_SecureErase pin) c = Call_SecureErase pin c"
| "op_call (B_LockDevice pin) c = Call_LockDevice pin c"
| "op_call (B_UnlockDevice pin) c = Call_UnlockDevice pin c"

fun handler_class :: "blocking_op \<Rightarrow> 'c handler \<Rightarrow> blocking_callback" where
  "handler_class op (GetHandler _) = BlockingGetCallback (case op of B_Get _ \<Rightarrow> False | _ \<Rightarrow> True)"
| "handler_class op (GetVersionHandler _) = BlockingGetVersionCallback"
| "handler_class op (GetKeyRangeHandler _) = BlockingGetKeyRangeCallback"
| "handler_class op (MediaScanHandler _) = BlockingMediaScanCallback"
| "handler_class op (MediaOptimizeHandler _) = BlockingMediaOptimizeCallback"
| "handler_class op (PutHandler _) = BlockingPutCallback"
| "handler_class op (SimpleHandler _) = SimpleCallback"
| "handler_class op (GetLogHandler _) = GetLogCallback"
| "handler_class op (P2PPushHandler _) = BlockingP2PPushCallback"

definition op_handler :: "blocking_op \<Rightarrow> nat \<Rightarrow> nat handler" where
  "op_handler op c = call_handler (op_call op c)"

definition op_class :: "blocking_op \<Rightarrow> blocking_callback" where
  "op_class op = handler_class op (op_handler op 0)"

lemmas blocking_ops =
  bl_NoOp_def bl_Get_def bl_GetNext_def bl_GetPrevious_def bl_GetVersion_def bl_GetKeyRange_def
  bl_MediaScan_def bl_MediaOptimize_def bl_Put_def bl_Put_default_def bl_Delete_def
  bl_Delete_default_def bl_GetLog_all_def bl_GetLog_def bl_P2PPush_def bl_Flush_def
  bl_SetClusterVersion_def bl_UpdateFirmware_def bl_SetACLs_def bl_SetErasePIN_def bl_SetLockPIN_def
  bl_InstantErase_def bl_SecureErase_def bl_LockDevice_def bl_UnlockDevice_def

text \<open>Every operation is an instance of the one pattern, with matching request, handler and object.\<close>

lemma invoke_cong: "(\<And>c. f c = g c) \<Longrightarrow> invoke lib env cls f = invoke lib env cls g"
  by presburger

lemma b_exec_invoke: "b_exec lib env op = invoke lib env (op_class op) (op_call op)"
  by (cases op) (auto simp: blocking_ops op_class_def op_handler_def intro!: invoke_cong)

lemma op_handler_callback [simp]: "handler_callback (op_handler op c) = c"
  by (cases op) (simp_all add: op_handler_def)

section \<open>The loop rule\<close>

text \<open>
  What holds of the loop: \<open>I\<close> is kept by every \<open>Run\<close> that returns true, and \<open>Q\<close> is what each of the
  ways out makes of it.
\<close>

lemma wait_loop_rule:
  assumes "wait_loop lib state timeout_time key rounds reads writes n w = (res, n', w')"
    and "I reads writes n w"
    and run: "\<And>r wr n w arr acc r1 wr1 nf n1 w1. I r wr n w \<Longrightarrow>
      n_Run (lb_codec lib) n (io_world arr acc w) = (Run_true r1 wr1 nf, n1, w1) \<Longrightarrow> I r1 wr1 n1 w1"
    and finished: "\<And>r wr n w. I r wr n w \<Longrightarrow> bs_done (state w) \<Longrightarrow>
      Q (Returned (if bs_success (state w) then KineticStatus0 OK '''' else bs_error (state w))) n w"
    and blocked: "\<And>r wr n w. I r wr n w \<Longrightarrow> \<not> bs_done (state w) \<Longrightarrow> Q (Blocked r wr) n w"
    and gave_up: "\<And>r wr n w msg res n1 w1. I r wr n w \<Longrightarrow> \<not> bs_done (state w) \<Longrightarrow>
      op_give_up key msg n w = (res, n1, w1) \<Longrightarrow> Q res n1 w1"
    and crash: "\<And>r wr n w arr acc n1 w1. I r wr n w \<Longrightarrow>
      n_Run (lb_codec lib) n (io_world arr acc w) = (Run_crash, n1, w1) \<Longrightarrow> Q Undefined n1 w1"
    and failed: "\<And>r wr n w arr acc n1 w1 res n2 w2. I r wr n w \<Longrightarrow>
      n_Run (lb_codec lib) n (io_world arr acc w) = (Run_false, n1, w1) \<Longrightarrow>
      op_give_up key ''Connection failed'' n1 w1 = (res, n2, w2) \<Longrightarrow> Q res n2 w2"
  shows "Q res n' w'"
  using assms(1,2)
proof (induction rounds arbitrary: reads writes n w)
  case Nil
  then show ?case using finished [of reads writes n w] blocked [of reads writes n w]
    by (auto simp: wait_loop.simps [of _ _ _ _ "[]"] split: if_splits)
next
  case (Cons rnd rounds)
  note step = wait_loop.simps [of lib state timeout_time key "rnd # rounds" reads writes n w]
  show ?case
  proof (cases "bs_done (state w)")
    case True
    with Cons.prems finished [of reads writes n w] show ?thesis by (auto simp: step)
  next
    case False
    obtain ready err where sel: "sys_select reads writes (remaining_time timeout_time (ro_now rnd)) (ro_event rnd) =
        (ready, err)" by fastforce
    obtain rr n1 w1 where R: "n_Run (lb_codec lib) n (io_world (ro_arrivals rnd) (ro_accepts rnd) w) = (rr, n1, w1)"
      by (metis prod_cases3)
    show ?thesis
    proof (cases "ready < 0 \<and> err \<noteq> EINTR \<or> ready = 0")
      case True
      with Cons.prems False sel gave_up [OF Cons.prems(2) False] show ?thesis
        by (auto simp: step split: if_splits)
    next
      case go: False
      show ?thesis
      proof (cases rr)
        case Run_false
        with Cons.prems False go sel R failed [OF Cons.prems(2)] show ?thesis
          by (auto simp: step split: if_splits)
      next
        case (Run_true r1 wr1 nf)
        with Cons.prems False go sel R have
          "wait_loop lib state timeout_time key rounds r1 wr1 n1 w1 = (res, n', w')"
          by (auto simp: step split: if_splits)
        then show ?thesis by (rule Cons.IH) (rule run [OF Cons.prems(2) R [unfolded Run_true]])
      next
        case Run_crash
        with Cons.prems False go sel R crash [OF Cons.prems(2)] show ?thesis
          by (auto simp: step split: if_splits)
      qed
    qed
  qed
qed

section \<open>What the loop keeps of a connection\<close>

definition waits_for :: "int set \<Rightarrow> int set \<Rightarrow> 'h service \<Rightarrow> bool" where
  "waits_for reads writes v \<longleftrightarrow> reads \<subseteq> {v_fd v} \<and> writes \<subseteq> {v_fd v} \<and> (reads = {} \<and> writes = {} \<longrightarrow> v_pending v = {#})"

definition loop_inv ::
    "lib \<Rightarrow> 'c handler multiset \<Rightarrow> 'c handler multiset \<Rightarrow> 'c connection \<Rightarrow> 'c connection \<Rightarrow> 'c hworld \<Rightarrow> bool" where
  "loop_inv lib S R n0 n w \<longleftrightarrow> v_reach (lb_codec lib) (n_service n) w S R \<and>
     v_entries (n_service n) \<subseteq># v_entries (n_service n0)"

lemma v_Run_fd: "v_Run cx v w = (res, v', w') \<Longrightarrow> v_fd v' = v_fd v"
  by (auto simp: v_Run_def v_CleanUp_def Let_def split: if_splits prod.splits)

lemma v_Run_waits_for:
  assumes "v_Run cx v w = (Run_true reads writes nfds, v', w')" and "v_ok v"
  shows "waits_for reads writes v'"
proof -
  note p = v_Run_waits [OF assms]
  have "v_ok v'" using v_Run_ok [OF assms] by simp
  then have "s_current_writer (v_sender v') = None \<longrightarrow> s_handler (v_sender v') = None" "r_handler (v_receiver v') = None"
    using p by (auto simp: v_ok_def s_wf_def r_maps_ok_def)
  with p v_Run_fd [OF assms(1)] show ?thesis
    by (auto simp: waits_for_def v_pending_def s_pending_def r_pending_def split: if_splits)
qed

lemma loop_inv_Run:
  assumes "loop_inv lib S R n0 n w" and "size S < 2 ^ 64"
    and "n_Run (lb_codec lib) n (io_world arr acc w) = (res, n1, w1)"
  shows "loop_inv lib S R n0 n1 w1 \<and> res \<noteq> Run_crash \<and>
    (\<forall>r wr nf. res = Run_true r wr nf \<longrightarrow> waits_for r wr (n_service n1))"
proof -
  have r: "v_reach (lb_codec lib) (n_service n) w S R" and e: "v_entries (n_service n) \<subseteq># v_entries (n_service n0)"
    using assms(1) by (simp_all add: loop_inv_def)
  from assms(3) obtain v where v: "v_Run (lb_codec lib) (n_service n) (io_world arr acc w) = (res, v, w1)"
    and n1: "n1 = n\<lparr>n_service := v\<rparr>" by (rule n_Run_v_Run)
  have ok: "v_ok (n_service n)" using v_reach_conserves [OF r] by simp
  from v_reach_keys [OF r assms(2)] have k: "keys_ok (size S) (v_sender (n_service n)) (v_receiver (n_service n))"
    and l: "log_clean (w_log (io_world arr acc w))" by (simp_all add: io_world_def)
  have "v_reach (lb_codec lib) v w1 S R" using v_run [OF r v [unfolded io_world_def]] .
  moreover have "v_entries v \<subseteq># v_entries (n_service n0)"
    using v_Run_entries [OF v ok l k] e by (rule subset_mset.order_trans)
  moreover have "res \<noteq> Run_crash" using v_Run_ok [OF v ok] by simp
  moreover have "\<forall>r wr nf. res = Run_true r wr nf \<longrightarrow> waits_for r wr v"
    using v_Run_waits_for [OF _ ok] v by blast
  ultimately show ?thesis by (auto simp: loop_inv_def n1)
qed

lemma loop_inv_give_up:
  assumes "loop_inv lib S R n0 n w" and "size S < 2 ^ 64" and "op_give_up key msg n w = (res, n1, w1)"
  shows "(\<exists>R'. loop_inv lib S R' n0 n1 w1) \<and> w1 = w \<and> res = Returned (KineticStatus0 CLIENT_IO_ERROR msg) \<and>
    (\<forall>h. (key, h) \<in># v_entries (n_service n1) \<longrightarrow> s_handler (v_sender (n_service n1)) = Some h)"
proof -
  have r: "v_reach (lb_codec lib) (n_service n) w S R" and e: "v_entries (n_service n) \<subseteq># v_entries (n_service n0)"
    using assms(1) by (simp_all add: loop_inv_def)
  have ok: "v_ok (n_service n)" using v_reach_conserves [OF r] by simp
  from v_Remove_ok [OF this, of key] obtain b v where v: "v_Remove key (n_service n) = Some (b, v)" by blast
  from v_reach_keys [OF r assms(2)] have k: "keys_ok (size S) (v_sender (n_service n)) (v_receiver (n_service n))" by simp
  have res: "res = Returned (KineticStatus0 CLIENT_IO_ERROR msg)" "n1 = n\<lparr>n_service := v\<rparr>" "w1 = w"
    using assms(3) v by (auto simp: op_give_up_def RemoveHandler_def)
  note ent = v_Remove_entries [OF v ok k]
  have "v_entries v \<subseteq># v_entries (n_service n0)" using ent e by (auto intro: subset_mset.order_trans)
  moreover have "\<exists>R. v_reach (lb_codec lib) v w S R" using v_remove [OF r v] by blast
  ultimately show ?thesis using ent by (auto simp: res loop_inv_def)
qed

text \<open>How an operation can end, given what its callback object then says.\<close>

definition connection_failed :: kinetic_status where
  "connection_failed = KineticStatus0 CLIENT_IO_ERROR ''Connection failed''"

definition outcome_ok ::
    "('c hworld \<Rightarrow> callback_state) \<Rightarrow> handler_key \<Rightarrow> op_result \<Rightarrow> 'c connection \<Rightarrow> 'c hworld \<Rightarrow> bool" where
  "outcome_ok state key res n w \<longleftrightarrow>
     (case res of
        Undefined \<Rightarrow> False
      | Blocked r wr \<Rightarrow> \<not> bs_done (state w) \<and> waits_for r wr (n_service n)
      | Returned s \<Rightarrow>
          (bs_done (state w) \<and> s = (if bs_success (state w) then KineticStatus0 OK '''' else bs_error (state w))) \<or>
          (ks_code s = CLIENT_IO_ERROR \<and> (bs_done (state w) \<longrightarrow> s = connection_failed) \<and>
           (\<forall>h. (key, h) \<in># v_entries (n_service n) \<longrightarrow> s_handler (v_sender (n_service n)) = Some h)))"

text \<open>Only giving up removes a handler: a blocked operation has left \<open>R\<close> as it was.\<close>

definition ended ::
    "lib \<Rightarrow> 'c handler multiset \<Rightarrow> 'c handler multiset \<Rightarrow> 'c connection \<Rightarrow> ('c hworld \<Rightarrow> callback_state)
     \<Rightarrow> handler_key \<Rightarrow> op_result \<Rightarrow> 'c connection \<Rightarrow> 'c hworld \<Rightarrow> bool" where
  "ended lib S R n0 state key res n w \<longleftrightarrow> outcome_ok state key res n w \<and>
     (\<exists>R'. loop_inv lib S R' n0 n w) \<and> ((\<exists>r wr. res = Blocked r wr) \<longrightarrow> loop_inv lib S R n0 n w)"

lemma give_up_outcome:
  assumes "loop_inv lib S R n0 n w" and "size S < 2 ^ 64" and "op_give_up key msg n w = (res, n1, w1)"
    and "bs_done (state w) \<longrightarrow> msg = ''Connection failed''"
  shows "ended lib S R0 n0 state key res n1 w1"
  using loop_inv_give_up [OF assms(1-3)] assms(4)
  by (auto simp: ended_def outcome_ok_def connection_failed_def)

lemma wait_loop_outcome:
  assumes "wait_loop lib state timeout_time key rounds reads writes n1 w1 = (res, n', w')"
    and "loop_inv lib S R n n1 w1 \<and> waits_for reads writes (n_service n1)" and "size S < 2 ^ 64"
  shows "ended lib S R n state key res n' w'"
proof (rule wait_loop_rule [where I = "\<lambda>r wr n1 w1. loop_inv lib S R n n1 w1 \<and> waits_for r wr (n_service n1)",
      OF assms(1)])
  show "loop_inv lib S R n n1 w1 \<and> waits_for reads writes (n_service n1)" using assms(2) by simp
next
  fix r wr n2 w2 arr acc r1 wr1 nf n3 w3
  assume I: "loop_inv lib S R n n2 w2 \<and> waits_for r wr (n_service n2)"
    and R2: "n_Run (lb_codec lib) n2 (io_world arr acc w2) = (Run_true r1 wr1 nf, n3, w3)"
  from I have "loop_inv lib S R n n2 w2" by simp
  from loop_inv_Run [OF this assms(3) R2] show "loop_inv lib S R n n3 w3 \<and> waits_for r1 wr1 (n_service n3)" by simp
next
  fix r wr n2 w2 msg res n3 w3
  assume I: "loop_inv lib S R n n2 w2 \<and> waits_for r wr (n_service n2)" and d: "\<not> bs_done (state w2)"
    and g: "op_give_up key msg n2 w2 = (res, n3, w3)"
  from I have "loop_inv lib S R n n2 w2" by simp
  from give_up_outcome [OF this assms(3) g] d show "ended lib S R n state key res n3 w3" by simp
next
  fix r wr n2 w2 arr acc n3 w3
  assume I: "loop_inv lib S R n n2 w2 \<and> waits_for r wr (n_service n2)"
    and R2: "n_Run (lb_codec lib) n2 (io_world arr acc w2) = (Run_crash, n3, w3)"
  from I have "loop_inv lib S R n n2 w2" by simp
  from loop_inv_Run [OF this assms(3) R2] show "ended lib S R n state key Undefined n3 w3" by simp
next
  fix r wr n2 w2 arr acc n3 w3 res n4 w4
  assume I: "loop_inv lib S R n n2 w2 \<and> waits_for r wr (n_service n2)"
    and R2: "n_Run (lb_codec lib) n2 (io_world arr acc w2) = (Run_false, n3, w3)"
    and g: "op_give_up key ''Connection failed'' n3 w3 = (res, n4, w4)"
  from I have "loop_inv lib S R n n2 w2" by simp
  from loop_inv_Run [OF this assms(3) R2] have "loop_inv lib S R n n3 w3" by simp
  from give_up_outcome [OF this assms(3) g] show "ended lib S R n state key res n4 w4" by simp
qed (auto simp: ended_def outcome_ok_def)

lemma RunOperation_outcome:
  assumes "RunOperation lib env timeout state key n w = (res, n', w')"
    and "loop_inv lib S R n n w" and "size S < 2 ^ 64"
  shows "ended lib S R n state key res n' w'"
proof -
  obtain rr n1 w1 where run: "n_Run (lb_codec lib) n (io_world (e_arrivals env) (e_accepts env) w) = (rr, n1, w1)"
    by (metis prod_cases3)
  note inv1 = loop_inv_Run [OF assms(2,3) run]
  show ?thesis
  proof (cases rr)
    case Run_false
    with assms(1) run have g: "op_give_up key ''Connection failed'' n1 w1 = (res, n', w')"
      by (simp add: RunOperation_def)
    from inv1 have "loop_inv lib S R n n1 w1" by simp
    from give_up_outcome [OF this assms(3) g] show ?thesis by simp
  next
    case (Run_true reads writes nf)
    with assms(1) run have "wait_loop lib state (e_now env + uint timeout * 1000000000) key (e_rounds env)
        reads writes n1 w1 = (res, n', w')" by (simp add: RunOperation_def)
    from wait_loop_outcome [OF this _ assms(3)] inv1 Run_true show ?thesis by simp
  next
    case Run_crash
    with inv1 show ?thesis by simp
  qed
qed

section \<open>What the callback object of an operation is told\<close>

definition calls_about :: "'c \<Rightarrow> 'c hworld \<Rightarrow> 'c handler callback list" where
  "calls_about c w = filter (\<lambda>cb. handler_callback (cb_handler cb) = c) (w_log w)"

lemma calls_to_about: "calls_to tn c w = map (deliver tn) (calls_about c w)"
  by (simp add: calls_to_def calls_about_def filter_map comp_def)

text \<open>What a success response stores in the variables of the caller.\<close>

definition response_record :: "command \<Rightarrow> bytes option \<Rightarrow> kinetic_record" where
  "response_record r v =
     \<lparr>kr_value = v, kr_version = Some (bytes_or_empty (kv_dbversion (get_keyvalue r))),
      kr_tag = Some (bytes_or_empty (kv_tag (get_keyvalue r))), kr_algorithm = kv_algorithm (get_keyvalue r)\<rparr>"

definition response_log :: "(message_type \<Rightarrow> bytes) \<Rightarrow> command \<Rightarrow> drive_log" where
  "response_log tn r =
     \<lparr>dl_configuration = log_configuration (gl_configuration (get_getlog r)),
      dl_capacity = log_capacity (gl_capacity (get_getlog r)),
      dl_operation_statistics = map (log_statistic tn) (gl_statistics (get_getlog r)),
      dl_utilizations = map log_utilization (gl_utilizations (get_getlog r)),
      dl_temperatures = map log_temperature (gl_temperatures (get_getlog r)),
      dl_limits = log_limits (gl_limits (get_getlog r)),
      dl_messages = gl_messages (get_getlog r)\<rparr>"

definition response_statuses :: "command \<Rightarrow> kinetic_status list" where
  "response_statuses r =
     map (\<lambda>op. KineticStatus0 (ConvertFromProtoStatus (os_code (p2pop_status op))) (os_statusmessage (p2pop_status op)))
       (p2p_operations (get_p2poperation r))"

definition op_stores ::
    "(message_type \<Rightarrow> bytes) \<Rightarrow> blocking_op \<Rightarrow> command \<Rightarrow> bytes option \<Rightarrow> outputs \<Rightarrow> outputs" where
  "op_stores tn op r v out =
     (let key = bytes_or_empty (kv_key (get_keyvalue r)); rg = get_range r in
      case op of
        B_Get _ \<Rightarrow> out\<lparr>o_record := Some (response_record r v)\<rparr>
      | B_GetNext _ \<Rightarrow> out\<lparr>o_actual_key := Some key, o_record := Some (response_record r v)\<rparr>
      | B_GetPrevious _ \<Rightarrow> out\<lparr>o_actual_key := Some key, o_record := Some (response_record r v)\<rparr>
      | B_GetVersion _ \<Rightarrow> out\<lparr>o_version := Some (bytes_or_empty (kv_dbversion (get_keyvalue r)))\<rparr>
      | B_GetKeyRange _ _ _ _ _ _ \<Rightarrow> out\<lparr>o_keys := Some (rg_keys rg)\<rparr>
      | B_MediaScan _ _ _ _ _ \<Rightarrow>
          out\<lparr>o_last_key := Some (bytes_or_empty (rg_endkey rg)), o_keys := Some (rg_keys rg)\<rparr>
      | B_MediaOptimize _ _ _ _ \<Rightarrow> out\<lparr>o_last_key := Some (bytes_or_empty (rg_endkey rg))\<rparr>
      | B_GetLog_all \<Rightarrow> out\<lparr>o_drive_log := Some (response_log tn r)\<rparr>
      | B_GetLog _ \<Rightarrow> out\<lparr>o_drive_log := Some (response_log tn r)\<rparr>
      | B_P2PPush _ \<Rightarrow> out\<lparr>o_statuses := Some (response_statuses r)\<rparr>
      | _ \<Rightarrow> out)"

lemma assign_or_new_Some [simp]: "assign_or_new x new = Some new"
  by (cases x) simp_all

lemmas callback_methods =
  BlockingGetCallback_Success_def BlockingGetVersionCallback_Success_def
  BlockingGetKeyRangeCallback_Success_def BlockingMediaScanCallback_Success_def
  BlockingMediaOptimizeCallback_Success_def SimpleCallback_Success_def GetLogCallback_Success_def
  BlockingP2PPushCallback_Success_def callback_Failure_def

lemmas handler_methods =
  GetHandler_Handle_def GetVersionHandler_Handle_def GetKeyRangeHandler_Handle_def
  MediaScanHandler_Handle_def MediaOptimizeHandler_Handle_def GetLogHandler_Handle_def
  P2PPushHandler_Handle_def

lemma on_call_Handled:
  "on_call (op_class op) (deliver tn (Handled (op_handler op c) r v)) (s, out) =
     (OnSuccess s, op_stores tn op r v out)"
  by (cases op)
    (simp_all add: op_class_def op_handler_def on_call_def callback_methods handler_methods op_stores_def
      response_record_def response_log_def response_statuses_def Let_def)

lemma on_call_Errored:
  "on_call (op_class op) (deliver tn (Errored (op_handler op c) e x)) (s, out) = (OnError e s, out)"
  by (cases op) (simp_all add: op_class_def op_handler_def on_call_def callback_methods)

text \<open>A callback object of its own name is told at most one outcome, by the handler of its request.\<close>

lemma calls_about_unique:
  assumes "called w \<subseteq># add_mset h S" and "\<forall>x \<in># S. handler_callback x \<noteq> handler_callback h"
  shows "calls_about (handler_callback h) w = [] \<or>
    (\<exists>cb. calls_about (handler_callback h) w = [cb] \<and> cb_handler cb = h)"
proof -
  let ?P = "\<lambda>x. handler_callback x = handler_callback h"
  have m: "mset (map cb_handler (calls_about (handler_callback h) w)) = filter_mset ?P (called w)"
    unfolding calls_about_def called_def mset_filter [symmetric] filter_map comp_def ..
  have "filter_mset ?P (called w) \<subseteq># filter_mset ?P (add_mset h S)"
    using assms(1) by (rule multiset_filter_mono)
  also have "filter_mset ?P (add_mset h S) = {#h#}"
  proof -
    have "filter_mset ?P S = {#}" using assms(2) by (intro multiset_eqI) (auto simp: not_in_iff)
    then show ?thesis by simp
  qed
  finally have sub: "mset (map cb_handler (calls_about (handler_callback h) w)) \<subseteq># {#h#}" unfolding m .
  show ?thesis
  proof (cases "calls_about (handler_callback h) w")
    case (Cons cb cs)
    with size_mset_mono [OF sub] have "cs = []" by simp
    with Cons sub show ?thesis by simp
  qed simp
qed

section \<open>One operation\<close>

text \<open>An operation is well defined unless it puts a record without a tag or a value.\<close>

definition op_complete :: "blocking_op \<Rightarrow> bool" where
  "op_complete op \<longleftrightarrow>
     (case op of
        B_Put _ _ _ r _ \<Rightarrow> kr_tag r \<noteq> None \<and> kr_value r \<noteq> None
      | B_Put_default _ _ _ r \<Rightarrow> kr_tag r \<noteq> None \<and> kr_value r \<noteq> None
      | _ \<Rightarrow> True)"

lemma nb_exec_defined: "nb_exec cx (op_call op c) n w = None \<longleftrightarrow> \<not> op_complete op"
  by (cases op) (simp_all add: op_complete_def Put_default_def Put_def Let_def del: not_None_eq split: option.split)

text \<open>A connection whose callbacks are the first so many names.\<close>

definition b_inv :: "lib \<Rightarrow> blocking \<Rightarrow> nat hworld \<Rightarrow> nat handler multiset \<Rightarrow> bool" where
  "b_inv lib b w S \<longleftrightarrow> (\<exists>R. v_reach (lb_codec lib) (n_service (bl_connection b)) w S R) \<and>
     size S = bl_next b \<and> (\<forall>h \<in># S. handler_callback h < bl_next b)"

lemma b_inv_pending:
  assumes "b_inv lib b w S" and "(k, h) \<in># v_entries (n_service (bl_connection b))"
  shows "h \<in># S"
proof -
  obtain R where r: "v_reach (lb_codec lib) (n_service (bl_connection b)) w S R" using assms(1) by (auto simp: b_inv_def)
  from v_reach_conserves [OF r] have ok: "v_ok (n_service (bl_connection b))"
    and c: "v_pending (n_service (bl_connection b)) + called w + R = S" by simp_all
  have "h \<in># v_pending (n_service (bl_connection b))"
    using assms(2) unfolding v_entries_pending [OF ok, symmetric] by force
  with c show ?thesis by auto
qed

lemma b_inv_fresh: "b_inv lib b w S \<Longrightarrow> h \<in># S \<Longrightarrow> handler_callback h \<noteq> bl_next b"
  by (auto simp: b_inv_def)

lemma b_exec_outcome:
  assumes inv: "b_inv lib b w S" and bound: "Suc (bl_next b) < 2 ^ 64" and complete: "op_complete op"
    and run: "b_exec lib env op out b w = (res, out', b', w')"
  obtains key where
    "b_inv lib b' w' (add_mset (op_handler op (bl_next b)) S)"
    "v_entries (n_service (bl_connection b')) \<subseteq>#
       add_mset (key, op_handler op (bl_next b)) (v_entries (n_service (bl_connection b)))"
    "outcome_ok (\<lambda>w. fst (callback_view lib (op_class op) (bl_next b) out w)) key res (bl_connection b') w'"
    "out' = snd (callback_view lib (op_class op) (bl_next b) out w')"
    "(\<exists>r wr. res = Blocked r wr) \<longrightarrow> (\<exists>R. R \<subseteq># S \<and>
       v_reach (lb_codec lib) (n_service (bl_connection b')) w' (add_mset (op_handler op (bl_next b)) S) R)"
proof -
  let ?c = "bl_next b" and ?h = "op_handler op (bl_next b)"
  obtain key n w1 where s: "nb_exec (lb_codec lib) (op_call op ?c) (bl_connection b) w = Some (key, n, w1)"
    using complete by (metis nb_exec_defined option.exhaust prod_cases3)
  then obtain m cmd val v where
    v: "v_Submit (lb_codec lib) m cmd val ?h (n_service (bl_connection b)) w = (key, v, w1)"
    and n: "n = (bl_connection b)\<lparr>n_service := v\<rparr>" unfolding op_handler_def by (rule nb_exec_v_Submit)
  let ?state = "\<lambda>w. fst (callback_view lib (op_class op) ?c out w)"
  obtain n' where R: "RunOperation lib env (bl_timeout b) ?state key n w1 = (res, n', w')"
    and b': "b' = b\<lparr>bl_connection := n', bl_next := Suc ?c\<rparr>"
    and out': "out' = snd (callback_view lib (op_class op) ?c out w')"
    using run s by (auto simp: b_exec_invoke invoke_def Let_def split: prod.splits)
  obtain R0 where r0: "v_reach (lb_codec lib) (n_service (bl_connection b)) w S R0" using inv by (auto simp: b_inv_def)
  from v_submit [OF r0 v] have "loop_inv lib (add_mset ?h S) R0 n n w1" by (auto simp: loop_inv_def n)
  moreover have "size (add_mset ?h S) < 2 ^ 64" using inv bound by (simp add: b_inv_def)
  ultimately have o: "ended lib (add_mset ?h S) R0 n ?state key res n' w'"
    using RunOperation_outcome [OF R] by blast
  then obtain R' where R': "loop_inv lib (add_mset ?h S) R' n n' w'" by (auto simp: ended_def)
  have "v_entries (n_service n) \<subseteq># add_mset (key, ?h) (v_entries (n_service (bl_connection b)))"
    using v_Submit_entries [OF v] by (simp add: n split: if_splits)
  with R' have "v_entries (n_service n') \<subseteq># add_mset (key, ?h) (v_entries (n_service (bl_connection b)))"
    by (auto simp: loop_inv_def intro: subset_mset.order_trans)
  moreover have "b_inv lib b' w' (add_mset ?h S)" using R' inv by (auto simp: b_inv_def loop_inv_def b')
  moreover have "R0 \<subseteq># S" using v_reach_conserves [OF r0] by (metis mset_subset_eq_add_right)
  with o have "(\<exists>r wr. res = Blocked r wr) \<longrightarrow> (\<exists>R. R \<subseteq># S \<and> v_reach (lb_codec lib) (n_service n') w' (add_mset ?h S) R)"
    by (auto simp: ended_def loop_inv_def)
  moreover have "outcome_ok ?state key res n' w'" using o unfolding ended_def by (rule conjunct1)
  ultimately show ?thesis using out' by (intro that [of key]) (simp_all add: b')
qed

section \<open>Every history of a blocking connection\<close>

inductive b_reach :: "lib \<Rightarrow> blocking \<Rightarrow> nat hworld \<Rightarrow> bool" for lib where
  b_start: "r_map r = [] \<Longrightarrow> r_key_map r = [] \<Longrightarrow> r_handler r = None \<Longrightarrow> r_live r \<Longrightarrow> w_log w = [] \<Longrightarrow>
     b_reach lib (BlockingKineticConnection
       (NonblockingKineticConnection (new_service fd (new_sender opts) r)) timeout) w"
| b_op: "b_reach lib b w \<Longrightarrow> b_exec lib env op out b w = (Returned st, out', b', w') \<Longrightarrow> b_reach lib b' w'"
| b_version: "b_reach lib b w \<Longrightarrow> b_reach lib (bl_SetClientClusterVersion version b) w"

lemma b_exec_incomplete:
  "\<not> op_complete op \<Longrightarrow> b_exec lib env op out b w = (Undefined, out, b, w)"
  by (simp add: b_exec_invoke invoke_def Let_def nb_exec_defined [THEN iffD2])

lemma b_reach_inv:
  assumes "b_reach lib b w" and "bl_next b < 2 ^ 64"
  shows "\<exists>S. b_inv lib b w S"
  using assms
proof (induction rule: b_reach.induct)
  case (b_start r w fd opts timeout)
  then have "v_reach (lb_codec lib) (new_service fd (new_sender opts) r) w {#} {#}" by (intro v_start)
  then show ?case
    by (auto simp: b_inv_def BlockingKineticConnection_def NonblockingKineticConnection_def intro!: exI [of _ "{#}"])
next
  case (b_op b w env op out st out' b' w')
  have c: "op_complete op" using b_op.hyps(2) b_exec_incomplete by (metis op_result.distinct(3) prod.inject)
  have b': "bl_next b' = Suc (bl_next b)"
    using b_op.hyps(2) c nb_exec_defined by (auto simp: b_exec_invoke invoke_def Let_def split: prod.splits option.splits)
  with b_op obtain S where S: "b_inv lib b w S" by auto
  have "Suc (bl_next b) < 2 ^ 64" using b' b_op.prems by simp
  from b_exec_outcome [OF S this c b_op.hyps(2)] show ?case by metis
next
  case (b_version b w version)
  then show ?case by (simp add: b_inv_def bl_SetClientClusterVersion_def SetClientClusterVersion_def)
qed

text \<open>
  The calls to the callback object of an operation that has ended, one way or another: at most one,
  from the handler of its own request, and truthful.
\<close>

lemma op_calls:
  assumes "b_inv lib b' w' (add_mset (op_handler op (bl_next b)) S)" and "b_inv lib b w S"
    and "Suc (bl_next b) < 2 ^ 64"
  shows "calls_about (bl_next b) w' = [] \<or>
    (\<exists>r v. calls_about (bl_next b) w' = [Handled (op_handler op (bl_next b)) r v] \<and>
       os_code (cmd_status r) = PROTO_SUCCESS) \<or>
    (\<exists>e x. calls_about (bl_next b) w' = [Errored (op_handler op (bl_next b)) e x] \<and> \<not> ks_ok e)"
proof -
  obtain R where r: "v_reach (lb_codec lib) (n_service (bl_connection b')) w' (add_mset (op_handler op (bl_next b)) S) R"
    and sz: "size (add_mset (op_handler op (bl_next b)) S) = Suc (bl_next b)"
    using assms(1,2) by (auto simp: b_inv_def)
  have "called w' \<subseteq># add_mset (op_handler op (bl_next b)) S"
    using v_reach_conserves [OF r] by (metis mset_subset_eq_add_left mset_subset_eq_add_right subset_mset.order_trans)
  moreover have "\<forall>x \<in># S. handler_callback x \<noteq> handler_callback (op_handler op (bl_next b))"
    using assms(2) by (auto simp: b_inv_def)
  ultimately have one: "calls_about (bl_next b) w' = [] \<or>
      (\<exists>cb. calls_about (bl_next b) w' = [cb] \<and> cb_handler cb = op_handler op (bl_next b))"
    using calls_about_unique [of w' "op_handler op (bl_next b)" S] by simp
  have "log_clean (w_log w')" using v_reach_keys [OF r] sz assms(3) by simp
  then have clean: "cb \<in> set (calls_about (bl_next b) w') \<Longrightarrow> clean_call cb" for cb
    by (auto simp: calls_about_def log_clean_def)
  from one show ?thesis
  proof (elim disjE exE conjE)
    fix cb assume cb: "calls_about (bl_next b) w' = [cb]" "cb_handler cb = op_handler op (bl_next b)"
    with clean [of cb] show ?thesis by (cases cb) (auto simp: clean_error_def)
  qed simp
qed

lemma view_cases:
  "calls_about c w = [] \<Longrightarrow> callback_view lib (op_class op) c out w = (BlockingCallbackState, out)"
  "calls_about c w = [Handled (op_handler op c) r v] \<Longrightarrow> callback_view lib (op_class op) c out w =
     (OnSuccess BlockingCallbackState, op_stores (lb_type_name lib) op r v out)"
  "calls_about c w = [Errored (op_handler op c) e x] \<Longrightarrow> callback_view lib (op_class op) c out w =
     (OnError e BlockingCallbackState, out)"
  by (simp_all add: callback_view_def calls_to_about on_call_Handled on_call_Errored del: deliver.simps)

lemma state_simps [simp]:
  "bs_done BlockingCallbackState = False" "bs_done (OnSuccess s) = True" "bs_success (OnSuccess s) = True"
  "bs_done (OnError e s) = True" "bs_success (OnError e s) = False" "bs_error (OnError e s) = e"
  by (simp_all add: BlockingCallbackState_def OnSuccess_def OnError_def)

section \<open>What a blocking connection promises\<close>

text \<open>
  C4: A blocking operation reports what happened to its request. Whatever the history of the
  connection and whatever the network does, when an operation returns then either its callback
  object was told nothing, the caller's variables are unchanged and the status is an I/O error; or
  the drive answered SUCCESS, the response to this very request is in the caller's variables and the
  status is OK; or the request failed, the variables are unchanged and the status is the one
  reported. The only exception is a connection that fails in the same run in which the answer came:
  then the status is \<open>Connection failed\<close>.
\<close>

theorem blocking_reports_outcome:
  assumes "b_reach lib b w" and "Suc (bl_next b) < 2 ^ 64"
    and "b_exec lib env op out b w = (Returned st, out', b', w')"
  shows "(calls_about (bl_next b) w' = [] \<and> out' = out \<and> ks_code st = CLIENT_IO_ERROR) \<or>
    (\<exists>r v. calls_about (bl_next b) w' = [Handled (op_handler op (bl_next b)) r v] \<and>
       os_code (cmd_status r) = PROTO_SUCCESS \<and> out' = op_stores (lb_type_name lib) op r v out \<and>
       (st = KineticStatus0 OK '''' \<or> st = connection_failed)) \<or>
    (\<exists>e x. calls_about (bl_next b) w' = [Errored (op_handler op (bl_next b)) e x] \<and> \<not> ks_ok e \<and>
       out' = out \<and> (st = e \<or> st = connection_failed))"
proof -
  have c: "op_complete op" using assms(3) b_exec_incomplete by (metis op_result.distinct(3) prod.inject)
  obtain S where S: "b_inv lib b w S" using b_reach_inv [OF assms(1)] assms(2) by auto
  obtain key where inv: "b_inv lib b' w' (add_mset (op_handler op (bl_next b)) S)"
    and o: "outcome_ok (\<lambda>w. fst (callback_view lib (op_class op) (bl_next b) out w)) key (Returned st) (bl_connection b') w'"
    and out: "out' = snd (callback_view lib (op_class op) (bl_next b) out w')"
    by (rule b_exec_outcome [OF S assms(2) c assms(3)])
  from op_calls [OF inv S assms(2)] show ?thesis
    by (elim disjE exE conjE) (use o out in \<open>auto simp: view_cases outcome_ok_def\<close>)
qed

text \<open>
  C31: A callback object outlives its operation only in one way. After an operation has returned, its
  callback object, with the references to the caller's variables that it holds, can only be called
  later if it was not called yet and the sender is in the middle of writing its request; in every
  other case the handler was removed or has been called.
\<close>

theorem blocking_no_late_callback:
  assumes "b_reach lib b w" and "Suc (bl_next b) < 2 ^ 64"
    and "b_exec lib env op out b w = (Returned st, out', b', w')"
    and "bl_next b \<in># waiting (bl_connection b')"
  shows "calls_about (bl_next b) w' = [] \<and> ks_code st = CLIENT_IO_ERROR \<and>
    (\<exists>h. s_handler (v_sender (n_service (bl_connection b'))) = Some h \<and> handler_callback h = bl_next b)"
proof -
  let ?c = "bl_next b" and ?h = "op_handler op (bl_next b)" and ?v = "n_service (bl_connection b')"
  have c: "op_complete op" using assms(3) b_exec_incomplete by (metis op_result.distinct(3) prod.inject)
  obtain S where S: "b_inv lib b w S" using b_reach_inv [OF assms(1)] assms(2) by auto
  obtain key where inv: "b_inv lib b' w' (add_mset ?h S)"
    and ent: "v_entries ?v \<subseteq># add_mset (key, ?h) (v_entries (n_service (bl_connection b)))"
    and o: "outcome_ok (\<lambda>w. fst (callback_view lib (op_class op) ?c out w)) key (Returned st) (bl_connection b') w'"
    by (rule b_exec_outcome [OF S assms(2) c assms(3)])
  obtain R where r: "v_reach (lb_codec lib) ?v w' (add_mset ?h S) R" using inv by (auto simp: b_inv_def)
  note cons = v_reach_conserves [OF r]
  obtain h where h: "h \<in># v_pending ?v" "handler_callback h = ?c" using assms(4) by (auto simp: waiting_def)
  from cons have "v_pending ?v = image_mset snd (v_entries ?v)" by (simp add: v_entries_pending)
  with h(1) obtain k where k: "(k, h) \<in># v_entries ?v" by auto
  have "(k, h) \<notin># v_entries (n_service (bl_connection b))"
    using b_inv_pending [OF S] b_inv_fresh [OF S] h(2) by blast
  with k ent have kh: "k = key" "h = ?h" by (auto dest: mset_subset_eqD)
  have "?h \<notin># S" using S by (auto simp: b_inv_def)
  then have "count (v_pending ?v + called w' + R) ?h = 1" using cons by (simp add: not_in_iff)
  moreover have "0 < count (v_pending ?v) ?h" using h(1) kh by simp
  ultimately have "count (called w') ?h = 0" unfolding count_union by linarith
  then have "?h \<notin># called w'" by (simp add: not_in_iff)
  then have none: "calls_about ?c w' = []"
    using op_calls [OF inv S assms(2)]
    by (auto simp: calls_about_def called_def filter_eq_Cons_iff)
  have "\<not> bs_done (fst (callback_view lib (op_class op) ?c out w'))" by (simp add: view_cases none)
  with o k kh none h(2) show ?thesis by (auto simp: outcome_ok_def)
qed

text \<open>
  C33: A blocked operation never sleeps on nothing. Whenever an operation stands at \<open>select\<close>, its
  request is still waiting, and it waits for the connection's socket to become readable or writable:
  the sets are not both empty and hold no other descriptor. Nothing but a record without tag or
  value makes an operation undefined.
\<close>

theorem blocked_operation_waits_on_socket:
  assumes "b_reach lib b w" and "Suc (bl_next b) < 2 ^ 64" and "op_complete op"
    and "b_exec lib env op out b w = (res, out', b', w')"
  shows "res \<noteq> Undefined \<and> (\<forall>reads writes. res = Blocked reads writes \<longrightarrow>
    calls_about (bl_next b) w' = [] \<and> (reads \<noteq> {} \<or> writes \<noteq> {}) \<and>
    reads \<union> writes = {v_fd (n_service (bl_connection b'))})"
proof -
  obtain S where S: "b_inv lib b w S" using b_reach_inv [OF assms(1)] assms(2) by auto
  let ?c = "bl_next b" and ?h = "op_handler op (bl_next b)" and ?v = "n_service (bl_connection b')"
  obtain key where inv: "b_inv lib b' w' (add_mset ?h S)"
    and o: "outcome_ok (\<lambda>w. fst (callback_view lib (op_class op) ?c out w)) key res (bl_connection b') w'"
    and blk: "(\<exists>r wr. res = Blocked r wr) \<longrightarrow> (\<exists>R. R \<subseteq># S \<and>
       v_reach (lb_codec lib) (n_service (bl_connection b')) w' (add_mset ?h S) R)"
    by (rule b_exec_outcome [OF S assms(2-4)])
  show ?thesis
  proof (intro conjI allI impI)
    show "res \<noteq> Undefined" using o by (auto simp: outcome_ok_def)
  next
    fix reads writes assume res: "res = Blocked reads writes"
    from o res have nd: "\<not> bs_done (fst (callback_view lib (op_class op) ?c out w'))" and wf: "waits_for reads writes ?v"
      by (simp_all add: outcome_ok_def)
    show none: "calls_about ?c w' = []"
      using op_calls [OF inv S assms(2)] nd by (auto simp: view_cases)
    from blk res obtain R where R: "R \<subseteq># S" and r: "v_reach (lb_codec lib) ?v w' (add_mset ?h S) R" by blast
    have "?h \<notin># S" using S by (auto simp: b_inv_def)
    with R have "?h \<notin># R" by (auto dest: mset_subset_eqD)
    moreover have "\<forall>h \<in># called w'. handler_callback h \<noteq> ?c"
      using none by (auto simp: calls_about_def called_def filter_empty_conv)
    then have "?h \<notin># called w'" by force
    moreover have "?h \<in># v_pending ?v + called w' + R" using v_reach_conserves [OF r] by simp
    ultimately have "v_pending ?v \<noteq> {#}" by auto
    with wf show "reads \<noteq> {} \<or> writes \<noteq> {}" "reads \<union> writes = {v_fd ?v}"
      by (auto simp: waits_for_def)
  qed
qed

section \<open>Time\<close>

text \<open>
  \<open>select\<close> is given a valid timeout that is never longer than what is left. The time passed is
  the time to the deadline rounded down to microseconds, and zero from the deadline on; both fields
  are in range, in particular \<open>tv_usec\<close> is below one million.
\<close>

lemma select_timeout_bounds:
  "tv_usecs (remaining_time timeout_time now) = max 0 (timeout_time - now) div 1000 \<and>
   0 \<le> tv_sec (remaining_time timeout_time now) \<and>
   0 \<le> tv_usec (remaining_time timeout_time now) \<and> tv_usec (remaining_time timeout_time now) < 1000000"
proof (cases "now < timeout_time")
  case True
  define d where "d = timeout_time - now"
  have "d div 1000000000 = d div 1000 div 1000000" by (simp add: zdiv_zmult2_eq [symmetric])
  then have "d div 1000 - d div 1000000000 * 1000000 = d div 1000 mod 1000000"
    by (simp add: minus_div_mult_eq_mod)
  moreover have "0 < d" using True by (simp add: d_def)
  ultimately show ?thesis using True
    by (simp add: remaining_time_def tv_usecs_def Let_def flip: d_def)
qed (simp add: remaining_time_def tv_usecs_def)

text \<open>When \<open>select\<close> makes the operation give up: nothing within the time that is left, or an error.\<close>

definition round_gives_up :: "int \<Rightarrow> round \<Rightarrow> bool" where
  "round_gives_up timeout_time rnd \<longleftrightarrow>
     (case ro_event rnd of
        Ready_after d \<Rightarrow> max 0 (timeout_time - ro_now rnd) div 1000 < int d
      | Signal_after d \<Rightarrow> max 0 (timeout_time - ro_now rnd) div 1000 \<le> int d
      | Sel_fails e \<Rightarrow> e \<noteq> EINTR
      | Quiet \<Rightarrow> True)"

lemma op_give_up_returns:
  "op_give_up key msg n w = (res, n', w') \<Longrightarrow> res \<noteq> Blocked r wr"
  by (auto simp: op_give_up_def split: option.splits)

lemma tv_usecs_remaining: "tv_usecs (remaining_time timeout_time now) = max 0 (timeout_time - now) div 1000"
proof -
  have "d div 1000000000 = d div 1000 div 1000000" for d :: int by (simp add: zdiv_zmult2_eq [symmetric])
  then show ?thesis by (simp add: remaining_time_def tv_usecs_def Let_def)
qed

lemma wait_loop_returns:
  assumes "wait_loop lib state timeout_time key rounds reads writes n w = (res, n', w')"
    and "\<exists>rnd \<in> set rounds. round_gives_up timeout_time rnd"
  shows "res \<noteq> Blocked r wr"
  using assms
proof (induction rounds arbitrary: reads writes n w)
  case (Cons rnd rounds)
  note step = wait_loop.simps [of lib state timeout_time key "rnd # rounds" reads writes n w]
  show ?case
  proof (cases "bs_done (state w)")
    case False
    obtain ready err where sel: "sys_select reads writes (remaining_time timeout_time (ro_now rnd)) (ro_event rnd) =
        (ready, err)" by fastforce
    show ?thesis
    proof (cases "ready < 0 \<and> err \<noteq> EINTR \<or> ready = 0")
      case True
      with Cons.prems(1) False sel show ?thesis by (auto simp: step split: if_splits dest: op_give_up_returns)
    next
      case go: False
      then have "\<not> round_gives_up timeout_time rnd"
        using sel by (auto simp: round_gives_up_def tv_usecs_remaining split: sel_event.splits if_splits)
      with Cons.prems(2) have rest: "\<exists>rnd \<in> set rounds. round_gives_up timeout_time rnd" by simp
      obtain rr n1 w1 where R: "n_Run (lb_codec lib) n (io_world (ro_arrivals rnd) (ro_accepts rnd) w) = (rr, n1, w1)"
        by (metis prod_cases3)
      show ?thesis
        using Cons.prems(1) False sel go R Cons.IH [OF _ rest]
        by (cases rr) (auto simp: step split: if_splits dest: op_give_up_returns)
    qed
  qed (use Cons.prems(1) in \<open>auto simp: step\<close>)
qed simp

lemma RunOperation_returns:
  assumes "RunOperation lib env timeout state key n w = (res, n', w')"
    and "\<exists>rnd \<in> set (e_rounds env). round_gives_up (e_now env + uint timeout * 1000000000) rnd"
  shows "res \<noteq> Blocked r wr"
proof -
  obtain rr n1 w1 where R: "n_Run (lb_codec lib) n (io_world (e_arrivals env) (e_accepts env) w) = (rr, n1, w1)"
    by (metis prod_cases3)
  show ?thesis
  proof (cases rr)
    case Run_false
    with assms(1) R show ?thesis by (auto simp: RunOperation_def dest: op_give_up_returns)
  next
    case (Run_true reads writes nf)
    with assms(1) R have "wait_loop lib state (e_now env + uint timeout * 1000000000) key (e_rounds env)
        reads writes n1 w1 = (res, n', w')" by (simp add: RunOperation_def)
    from wait_loop_returns [OF this assms(2)] show ?thesis .
  next
    case Run_crash
    with assms(1) R show ?thesis by (simp add: RunOperation_def)
  qed
qed

text \<open>
  C32: A silent drive cannot block a caller past its deadline. If in some round nothing gets ready
  within the time that is left of the network timeout, or \<open>select\<close> fails, the operation has
  returned, whatever happened before that round. The deadline is counted from the first run.
\<close>

theorem blocking_operation_returns:
  assumes "b_reach lib b w" and "Suc (bl_next b) < 2 ^ 64" and "op_complete op"
    and "\<exists>rnd \<in> set (e_rounds env). round_gives_up (e_now env + uint (bl_timeout b) * 1000000000) rnd"
  shows "\<exists>st out' b' w'. b_exec lib env op out b w = (Returned st, out', b', w')"
proof -
  obtain res out' b' w' where run: "b_exec lib env op out b w = (res, out', b', w')" by (metis prod_cases4)
  obtain S where S: "b_inv lib b w S" using b_reach_inv [OF assms(1)] assms(2) by auto
  obtain key n w1 where s: "nb_exec (lb_codec lib) (op_call op (bl_next b)) (bl_connection b) w = Some (key, n, w1)"
    using assms(3) by (metis nb_exec_defined option.exhaust prod_cases3)
  obtain n' where "RunOperation lib env (bl_timeout b) (\<lambda>w. fst (callback_view lib (op_class op) (bl_next b) out w))
      key n w1 = (res, n', w')"
    using run s by (auto simp: b_exec_invoke invoke_def Let_def split: prod.splits)
  from RunOperation_returns [OF this assms(4)] have "res \<noteq> Blocked r wr" for r wr .
  moreover have "res \<noteq> Undefined"
    by (rule b_exec_outcome [OF S assms(2,3) run]) (auto simp: outcome_ok_def)
  ultimately show ?thesis using run by (cases res) auto
qed

section \<open>Examples\<close>

definition example_lib :: lib where
  "example_lib = \<lparr>lb_codec = example_codec, lb_type_name = (\<lambda>_. []), lb_strerror = (\<lambda>_. ''error'')\<rparr>"

definition example_blocking :: blocking where
  "example_blocking = BlockingKineticConnection
     (NonblockingKineticConnection (new_service 9 (new_sender example_options)
       (r_after_handshake (initial_receiver example_options)))) 10"

definition no_outputs :: outputs where
  "no_outputs = \<lparr>o_actual_key = None, o_record = None, o_version = None, o_keys = None, o_last_key = None,
     o_drive_log = None, o_statuses = None\<rparr>"

definition silent_env :: env where
  "silent_env = \<lparr>e_arrivals = [], e_accepts = [Wr_accept 1], e_now = 5000000000,
     e_rounds = [\<lparr>ro_now = 6000000000, ro_event = Ready_after 20, ro_arrivals = [], ro_accepts = [Wr_accept 2]\<rparr>,
                 \<lparr>ro_now = 7000000000, ro_event = Quiet, ro_arrivals = [], ro_accepts = []\<rparr>]\<rparr>"

lemma example_blocking_reach: "b_reach example_lib example_blocking \<lparr>w_rd = [], w_wr = [], w_out = [], w_log = []\<rparr>"
  unfolding example_blocking_def
  by (rule b_start) (simp_all add: r_after_handshake_def r_live_def initial_receiver_def)

definition answering_env :: env where
  "answering_env = \<lparr>e_arrivals = [], e_accepts = replicate 6 (Wr_accept 9), e_now = 5000000000,
     e_rounds = [\<lparr>ro_now = 6000000000, ro_event = Signal_after 20, ro_arrivals = [], ro_accepts = []\<rparr>,
                 \<lparr>ro_now = 7000000000, ro_event = Ready_after 900,
                  ro_arrivals = [Rd_bytes [70, 0, 0, 0, 1, 0, 0, 0, 1, 0, 99]], ro_accepts = []\<rparr>]\<rparr>"

definition example_world :: "nat hworld" where
  "example_world = \<lparr>w_rd = [], w_wr = [], w_out = [], w_log = []\<rparr>"

lemma example_reach_world: "b_reach example_lib example_blocking example_world"
  unfolding example_world_def by (rule example_blocking_reach)

lemma example_next [simp]: "bl_next example_blocking = 0"
  by (simp add: example_blocking_def BlockingKineticConnection_def)

lemma silent_run:
  "case b_exec example_lib silent_env (B_Get [7]) no_outputs example_blocking example_world of
    (Returned st, out', b', w') \<Rightarrow> ks_message st = ''Network timeout'' \<and>
       s_handler (v_sender (n_service (bl_connection b'))) = Some (GetHandler 0)
   | _ \<Rightarrow> False"
  by code_simp

lemma answered_run:
  "case b_exec example_lib answering_env (B_Get [7]) no_outputs example_blocking example_world of
    (Returned st, out', b', w') \<Rightarrow> st = KineticStatus0 OK '''' \<and> w_log w' \<noteq> [] \<and>
       map_option kr_value (o_record out') = Some (Some [99])
   | _ \<Rightarrow> False"
  by code_simp

theorem blocking_reports_outcome_witness:
  "\<exists>out' b' w' r v. b_exec example_lib answering_env (B_Get [7]) no_outputs example_blocking example_world =
      (Returned (KineticStatus0 OK ''''), out', b', w') \<and>
     calls_about 0 w' = [Handled (GetHandler 0) r v] \<and> map_option kr_value (o_record out') = Some v"
proof -
  obtain res out' b' w' where run: "b_exec example_lib answering_env (B_Get [7]) no_outputs example_blocking
      example_world = (res, out', b', w')" by (metis prod_cases4)
  with answered_run obtain st where st: "res = Returned st" "st = KineticStatus0 OK ''''"
    "map_option kr_value (o_record out') = Some (Some [99])" by (auto split: op_result.splits)
  from blocking_reports_outcome [OF example_reach_world _ run [unfolded st(1)]] run st show ?thesis
    by (auto simp: KineticStatus_def ks_ok_def no_outputs_def op_stores_def response_record_def Let_def
        connection_failed_def op_handler_def)
qed

theorem blocking_no_late_callback_witness:
  "\<exists>st out' b' w'. b_exec example_lib silent_env (B_Get [7]) no_outputs example_blocking example_world =
      (Returned st, out', b', w') \<and> 0 \<in># waiting (bl_connection b') \<and> calls_about 0 w' = []"
proof -
  obtain res out' b' w' where run: "b_exec example_lib silent_env (B_Get [7]) no_outputs example_blocking
      example_world = (res, out', b', w')" by (metis prod_cases4)
  with silent_run obtain st where st: "res = Returned st"
    "s_handler (v_sender (n_service (bl_connection b'))) = Some (GetHandler 0)" by (auto split: op_result.splits)
  then have "0 \<in># waiting (bl_connection b')" by (simp add: waiting_def v_pending_def s_pending_def)
  from blocking_no_late_callback [OF example_reach_world _ run [unfolded st(1)]] this run st show ?thesis by simp
qed

theorem blocked_operation_waits_on_socket_witness:
  "\<exists>reads writes out' b' w'. b_exec example_lib (silent_env\<lparr>e_rounds := []\<rparr>) (B_Get [7]) no_outputs
      example_blocking example_world = (Blocked reads writes, out', b', w') \<and> (reads \<noteq> {} \<or> writes \<noteq> {})"
proof -
  obtain res out' b' w' where run: "b_exec example_lib (silent_env\<lparr>e_rounds := []\<rparr>) (B_Get [7]) no_outputs
      example_blocking example_world = (res, out', b', w')" by (metis prod_cases4)
  have "case b_exec example_lib (silent_env\<lparr>e_rounds := []\<rparr>) (B_Get [7]) no_outputs example_blocking
      example_world of (Blocked _ _, _) \<Rightarrow> True | _ \<Rightarrow> False" by code_simp
  with run obtain reads writes where "res = Blocked reads writes" by (auto split: op_result.splits)
  with blocked_operation_waits_on_socket [OF example_reach_world _ _ run] run show ?thesis
    by (auto simp: op_complete_def)
qed

theorem blocking_operation_returns_witness:
  "\<exists>st out' b' w'. b_exec example_lib silent_env B_NoOp no_outputs example_blocking example_world =
      (Returned st, out', b', w')"
  using blocking_operation_returns [OF example_reach_world, of B_NoOp silent_env no_outputs]
  by (simp add: op_complete_def silent_env_def round_gives_up_def)

section \<open>The deadline\<close>

lemma wait_loop_append:
  assumes "wait_loop lib state timeout_time key rounds reads writes n w = (Blocked r wr, n', w')"
  shows "wait_loop lib state timeout_time key (rounds @ later) reads writes n w =
    wait_loop lib state timeout_time key later r wr n' w' \<and> \<not> bs_done (state w')"
  using assms
proof (induction rounds arbitrary: reads writes n w)
  case Nil
  then show ?case by (auto simp: wait_loop.simps [of _ _ _ _ "[]"] split: if_splits)
next
  case (Cons rnd rounds)
  note step = wait_loop.simps [of lib state timeout_time key "rnd # xs" reads writes n w for xs]
  have nd: "\<not> bs_done (state w)" using Cons.prems by (auto simp: step split: if_splits)
  obtain ready err where sel: "sys_select reads writes (remaining_time timeout_time (ro_now rnd)) (ro_event rnd) =
      (ready, err)" by fastforce
  obtain rr n1 w1 where R: "n_Run (lb_codec lib) n (io_world (ro_arrivals rnd) (ro_accepts rnd) w) = (rr, n1, w1)"
    by (metis prod_cases3)
  have go: "\<not> (ready < 0 \<and> err \<noteq> EINTR)" "ready \<noteq> 0"
    using Cons.prems nd sel by (auto simp: step dest: op_give_up_returns split: if_splits)
  then obtain r1 wr1 nf where rr: "rr = Run_true r1 wr1 nf"
    using Cons.prems nd sel R by (cases rr) (auto simp: step dest: op_give_up_returns)
  have "wait_loop lib state timeout_time key (rnd # xs) reads writes n w =
      wait_loop lib state timeout_time key xs r1 wr1 n1 w1" for xs
    using nd sel R rr go by (auto simp: step)
  with Cons show ?case by simp
qed

text \<open>
  C34: The network timeout is a deadline for the whole operation, not a limit on silence. Take any
  operation that is still blocked after some rounds, however recently the last of them brought data.
  If the clock has reached the start plus the timeout and no descriptor is ready at that very
  moment, the operation fails with a timeout, also when the rest of the response is a microsecond
  away.
\<close>

theorem timeout_counts_from_start:
  assumes "b_reach lib b w" and "Suc (bl_next b) < 2 ^ 64"
    and "b_exec lib (env\<lparr>e_rounds := rounds\<rparr>) op out b w = (Blocked reads writes, out1, b1, w1)"
    and "e_now env + uint (bl_timeout b) * 1000000000 \<le> ro_now rnd"
    and "ro_event rnd = Ready_after d" and "0 < d"
  shows "\<exists>b2. b_exec lib (env\<lparr>e_rounds := rounds @ rnd # later\<rparr>) op out b w =
    (Returned (KineticStatus0 CLIENT_IO_ERROR ''Network timeout''), out1, b2, w1)"
proof -
  let ?st = "\<lambda>w. fst (callback_view lib (op_class op) (bl_next b) out w)"
  let ?dl = "e_now env + uint (bl_timeout b) * 1000000000"
  have c: "op_complete op" using assms(3) b_exec_incomplete by (metis op_result.distinct(5) prod.inject)
  obtain S where S: "b_inv lib b w S" using b_reach_inv [OF assms(1)] assms(2) by auto
  obtain key n w0 where s: "nb_exec (lb_codec lib) (op_call op (bl_next b)) (bl_connection b) w = Some (key, n, w0)"
    using c by (metis nb_exec_defined option.exhaust prod_cases3)
  have run: "b_exec lib e op out b w = (case RunOperation lib e (bl_timeout b) ?st key n w0 of (res, n', w') \<Rightarrow>
      (res, snd (callback_view lib (op_class op) (bl_next b) out w'),
       b\<lparr>bl_connection := n', bl_next := Suc (bl_next b)\<rparr>, w'))" for e
    using s by (simp add: b_exec_invoke invoke_def Let_def)
  obtain n1 where R: "RunOperation lib (env\<lparr>e_rounds := rounds\<rparr>) (bl_timeout b) ?st key n w0 = (Blocked reads writes, n1, w1)"
    and o: "out1 = snd (callback_view lib (op_class op) (bl_next b) out w1)" and b1: "bl_connection b1 = n1"
    using assms(3) unfolding run by (auto split: prod.splits)
  obtain rr n2 w2 where first: "n_Run (lb_codec lib) n (io_world (e_arrivals env) (e_accepts env) w0) = (rr, n2, w2)"
    by (metis prod_cases3)
  then obtain r2 wr2 nf where rr: "rr = Run_true r2 wr2 nf"
    using R by (cases rr) (auto simp: RunOperation_def dest: op_give_up_returns)
  have loop: "RunOperation lib (env\<lparr>e_rounds := xs\<rparr>) (bl_timeout b) ?st key n w0 =
      wait_loop lib ?st ?dl key xs r2 wr2 n2 w2" for xs
    using first rr by (simp add: RunOperation_def)
  have app: "wait_loop lib ?st ?dl key (rounds @ rnd # later) r2 wr2 n2 w2 =
      wait_loop lib ?st ?dl key (rnd # later) reads writes n1 w1" and nd: "\<not> bs_done (?st w1)"
    using wait_loop_append [OF R [unfolded loop], of "rnd # later"] by blast+
  have "tv_usecs (remaining_time ?dl (ro_now rnd)) = 0" using assms(4) by (simp add: tv_usecs_remaining)
  then have "wait_loop lib ?st ?dl key (rnd # later) reads writes n1 w1 = op_give_up key ''Network timeout'' n1 w1"
    using nd assms(5,6) by (simp add: wait_loop.simps [of _ _ _ _ "rnd # later"])
  moreover obtain S' where "b_inv lib b1 w1 S'" using b_exec_outcome [OF S assms(2) c assms(3)] by metis
  then obtain R' where "v_reach (lb_codec lib) (n_service n1) w1 S' R'" using b1 by (auto simp: b_inv_def)
  from v_reach_conserves [OF this] have "v_ok (n_service n1)" by simp
  then obtain n3 where "op_give_up key ''Network timeout'' n1 w1 =
      (Returned (KineticStatus0 CLIENT_IO_ERROR ''Network timeout''), n3, w1)"
    using v_Remove_ok [of "n_service n1" key] by (auto simp: op_give_up_def RemoveHandler_def)
  ultimately show ?thesis unfolding run loop app using o by simp
qed

theorem timeout_counts_from_start_witness:
  "\<exists>b2 out1 w1. b_exec example_lib (silent_env\<lparr>e_rounds := [] @ [\<lparr>ro_now = 15000000000, ro_event = Ready_after 1,
      ro_arrivals = [Rd_bytes [70]], ro_accepts = []\<rparr>]\<rparr>) (B_Get [7]) no_outputs example_blocking example_world =
    (Returned (KineticStatus0 CLIENT_IO_ERROR ''Network timeout''), out1, b2, w1)"
proof -
  obtain res out1 b1 w1 where run: "b_exec example_lib (silent_env\<lparr>e_rounds := []\<rparr>) (B_Get [7]) no_outputs
      example_blocking example_world = (res, out1, b1, w1)" by (metis prod_cases4)
  have "case b_exec example_lib (silent_env\<lparr>e_rounds := []\<rparr>) (B_Get [7]) no_outputs example_blocking
      example_world of (Blocked _ _, _) \<Rightarrow> True | _ \<Rightarrow> False" by code_simp
  with run obtain reads writes where "res = Blocked reads writes" by (auto split: op_result.splits)
  with run have run': "b_exec example_lib (silent_env\<lparr>e_rounds := []\<rparr>) (B_Get [7]) no_outputs
      example_blocking example_world = (Blocked reads writes, out1, b1, w1)" by simp
  show ?thesis
    using timeout_counts_from_start [OF example_reach_world _ run', of "\<lparr>ro_now = 15000000000,
        ro_event = Ready_after 1, ro_arrivals = [Rd_bytes [70]], ro_accepts = []\<rparr>" 1 "[]"]
    by (auto simp: silent_env_def example_blocking_def BlockingKineticConnection_def)
qed

end
