(* ===== verification/Key_Range.thy ===== *)
theory Key_Range
  imports Blocking "HOL-Library.List_Lexorder"
begin

text \<open>
  \<open>KeyRangeIterator\<close> (\<open>key_range_iterator.cc\<close>): an iterator over the keys of a range that fetches
  them from a blocking connection frame by frame. The connection's \<open>GetKeyRange\<close> is an argument of
  the operations, with the state of the connection, any type, passed through; the blocking
  connection's own \<open>GetKeyRange\<close> is an instance. Copying an iterator copies its keys, so here iterators are
  plain values; \<open>Iterator_Copies\<close> shows that the class, whose objects own vectors, behaves in this way.

  A C++ exception is the error of a sum. An element access outside of a vector has no defined
  behaviour and is None.
\<close>

section \<open>State\<close>

record key_iterator =
  it_first :: bytes
  it_first_inc :: bool
  it_last :: bytes
  it_last_inc :: bool
  it_framesz :: uint32
  it_reverse_order :: bool
  it_relpos :: int
  it_eol :: bool
  it_keys :: "bytes list option"

definition KeyRangeEnd :: key_iterator where
  "KeyRangeEnd = \<lparr>it_first = [], it_first_inc = False, it_last = [], it_last_inc = False, it_framesz = 1,
     it_reverse_order = False, it_relpos = - 1, it_eol = True, it_keys = None\<rparr>"

datatype it_exception = Runtime_error string | Out_of_range string

text \<open>
  \<open>GetKeyRange\<close>: start key, whether it is included, end key, whether it is included, the order, how
  many keys at most, and the caller's vector, which a successful call replaces.
\<close>

type_synonym 'c get_key_range =
  "bytes \<Rightarrow> bool \<Rightarrow> bytes \<Rightarrow> bool \<Rightarrow> bool \<Rightarrow> uint32 \<Rightarrow> bytes list option \<Rightarrow> 'c
   \<Rightarrow> kinetic_status \<times> bytes list option \<times> 'c"

section \<open>Operations\<close>

definition kr_next_frame ::
    "'c get_key_range \<Rightarrow> key_iterator \<Rightarrow> 'c \<Rightarrow> (it_exception option \<times> key_iterator \<times> 'c) option" where
  "kr_next_frame gkr it c =
     (case (if it_relpos it \<noteq> - 1 then
              (case it_keys it of
                 Some keys \<Rightarrow>
                   if keys = [] then None
                   else Some (it\<lparr>it_first := keys ! (length keys - 1), it_first_inc := False\<rparr>)
               | None \<Rightarrow> Some it)
            else Some it) of
        None \<Rightarrow> None
      | Some it1 \<Rightarrow>
          (case gkr (it_first it1) (it_first_inc it1) (it_last it1) (it_last_inc it1)
                  (it_reverse_order it1) (it_framesz it1) (it_keys it1) c of
             (status, keys, c') \<Rightarrow>
               let it2 = it1\<lparr>it_keys := keys\<rparr> in
               if \<not> ks_ok status then
                 Some (Some (Runtime_error (ks_message status)), it2\<lparr>it_relpos := - 1\<rparr>, c')
               else
                 (let it3 = it2\<lparr>it_relpos := 0\<rparr> in
                  if it_keys it3 = None \<or> it_keys it3 = Some []
                  then Some (None, it3\<lparr>it_eol := True\<rparr>, c')
                  else Some (None, it3, c'))))"

lemma next_frame_fetches:
  assumes "kr_next_frame gkr it c = Some (e, it', c')"
  shows "\<exists>s si l li rv n keys0 st keys. gkr s si l li rv n keys0 c = (st, keys, c') \<and>
    (\<not> ks_ok st \<longrightarrow> e = Some (Runtime_error (ks_message st)))"
  using assms unfolding kr_next_frame_def Let_def
  by (auto split: option.splits prod.splits if_splits) blast+

definition new_key_iterator ::
    "'c get_key_range \<Rightarrow> uint32 \<Rightarrow> bytes \<Rightarrow> bool \<Rightarrow> bytes \<Rightarrow> bool \<Rightarrow> 'c
     \<Rightarrow> (it_exception option \<times> key_iterator \<times> 'c) option" where
  "new_key_iterator gkr framesz start start_inclusive end_key end_inclusive c =
     kr_next_frame gkr
       \<lparr>it_first = start, it_first_inc = start_inclusive, it_last = end_key, it_last_inc = end_inclusive,
        it_framesz = framesz, it_reverse_order = False, it_relpos = - 1, it_eol = False, it_keys = None\<rparr> c"

definition kr_advance ::
    "'c get_key_range \<Rightarrow> key_iterator \<Rightarrow> 'c \<Rightarrow> (it_exception option \<times> key_iterator \<times> 'c) option" where
  "kr_advance gkr it c =
     (let it1 = it\<lparr>it_relpos := it_relpos it + 1\<rparr> in
      case it_keys it1 of
        None \<Rightarrow> if it_relpos it1 = - 1 then kr_next_frame gkr it1 c else None
      | Some keys \<Rightarrow>
          if it_relpos it1 = - 1 \<or> it_relpos it1 = int (length keys)
          then kr_next_frame gkr it1 c
          else Some (None, it1, c))"

definition bad_state :: it_exception where
  "bad_state = Runtime_error ''Iterator is in a bad state''"

definition kr_increment ::
    "'c get_key_range \<Rightarrow> key_iterator \<Rightarrow> 'c \<Rightarrow> (it_exception option \<times> key_iterator \<times> 'c) option" where
  "kr_increment gkr it c =
     (if it_relpos it = - 1 \<or> it_keys it = None then Some (Some bad_state, it, c)
      else kr_advance gkr it c)"

text \<open>The postfix operator also returns the iterator as it was.\<close>

definition kr_post_increment ::
    "'c get_key_range \<Rightarrow> key_iterator \<Rightarrow> 'c
     \<Rightarrow> ((it_exception + key_iterator) \<times> key_iterator \<times> 'c) option" where
  "kr_post_increment gkr it c =
     (if it_relpos it = - 1 \<or> it_keys it = None then Some (Inl bad_state, it, c)
      else (case kr_advance gkr it c of
              None \<Rightarrow> None
            | Some (None, it', c') \<Rightarrow> Some (Inr it, it', c')
            | Some (Some e, it', c') \<Rightarrow> Some (Inl e, it', c')))"

text \<open>\<open>keys[relpos]\<close>, as an element access with an \<open>int\<close> index.\<close>

definition element :: "bytes list \<Rightarrow> int \<Rightarrow> bytes option" where
  "element keys i = (if 0 \<le> i \<and> i < int (length keys) then Some (keys ! nat i) else None)"

definition kr_dereference :: "key_iterator \<Rightarrow> (it_exception + bytes) option" where
  "kr_dereference it =
     (case it_keys it of
        None \<Rightarrow> Some (Inl bad_state)
      | Some keys \<Rightarrow>
          if it_relpos it = - 1 then Some (Inl bad_state)
          else if it_eol it then Some (Inl (Out_of_range ''Iterator is out of bounds.''))
          else map_option Inr (element keys (it_relpos it)))"

definition kr_equal :: "key_iterator \<Rightarrow> key_iterator \<Rightarrow> bool option" where
  "kr_equal lhs rhs =
     (if it_eol rhs \<and> it_eol lhs then Some True
      else if it_relpos rhs \<noteq> - 1 \<and> it_relpos lhs \<noteq> - 1 then
        (case (it_keys rhs, it_keys lhs) of
           (Some rkeys, Some lkeys) \<Rightarrow>
             (case (element rkeys (it_relpos rhs), element lkeys (it_relpos lhs)) of
                (Some a, Some b) \<Rightarrow> Some (a = b)
              | _ \<Rightarrow> None)
         | _ \<Rightarrow> Some False)
      else Some False)"

definition kr_not_equal :: "key_iterator \<Rightarrow> key_iterator \<Rightarrow> bool option" where
  "kr_not_equal lhs rhs = map_option Not (kr_equal lhs rhs)"

text \<open>
  The loop that an iterator is made for, \<open>for (it = begin; it != KeyRangeEnd(); ++it) use(*it)\<close>: the
  keys it uses, and how it ends. With the fuel used up it has not ended.
\<close>

datatype it_end = At_end | Threw it_exception | Undefined_access | Running

fun kr_loop :: "nat \<Rightarrow> 'c get_key_range \<Rightarrow> key_iterator \<Rightarrow> 'c \<Rightarrow> bytes list \<times> it_end" where
  "kr_loop 0 gkr it c = ([], Running)"
| "kr_loop (Suc fuel) gkr it c =
     (case kr_not_equal it KeyRangeEnd of
        None \<Rightarrow> ([], Undefined_access)
      | Some False \<Rightarrow> ([], At_end)
      | Some True \<Rightarrow>
          (case kr_dereference it of
             None \<Rightarrow> ([], Undefined_access)
           | Some (Inl e) \<Rightarrow> ([], Threw e)
           | Some (Inr key) \<Rightarrow>
               (case kr_increment gkr it c of
                  None \<Rightarrow> ([key], Undefined_access)
                | Some (Some e, it', c') \<Rightarrow> ([key], Threw e)
                | Some (None, it', c') \<Rightarrow> (case kr_loop fuel gkr it' c' of (ks, r) \<Rightarrow> (key # ks, r)))))"

definition kr_iterate ::
    "nat \<Rightarrow> 'c get_key_range \<Rightarrow> uint32 \<Rightarrow> bytes \<Rightarrow> bool \<Rightarrow> bytes \<Rightarrow> bool \<Rightarrow> 'c \<Rightarrow> bytes list \<times> it_end" where
  "kr_iterate fuel gkr framesz start start_inc end_key end_inc c =
     (case new_key_iterator gkr framesz start start_inc end_key end_inc c of
        None \<Rightarrow> ([], Undefined_access)
      | Some (Some e, it, c') \<Rightarrow> ([], Threw e)
      | Some (None, it, c') \<Rightarrow> kr_loop fuel gkr it c')"

section \<open>The blocking connection as a source of keys\<close>

text \<open>
  The state is the blocking connection with its world and, for each call to come, what the
  environment does. An operation that does not return leaves no iterator; the model then reports a
  client error, which no property uses.
\<close>

fun blocking_get_key_range :: "lib \<Rightarrow> (env list \<times> blocking \<times> nat hworld) get_key_range" where
  "blocking_get_key_range lib s si e ei rv n keys (envs, b, w) =
     (case bl_GetKeyRange lib (hd envs) s si e ei rv n
             \<lparr>o_actual_key = None, o_record = None, o_version = None, o_keys = keys, o_last_key = None,
              o_drive_log = None, o_statuses = None\<rparr> b w of
        (res, out, b', w') \<Rightarrow>
          (case res of Returned st \<Rightarrow> st | _ \<Rightarrow> KineticStatus0 CLIENT_INTERNAL_ERROR ''not returned'',
           o_keys out, tl envs, b', w'))"

definition IterateKeyRange ::
    "lib \<Rightarrow> bytes \<Rightarrow> bool \<Rightarrow> bytes \<Rightarrow> bool \<Rightarrow> uint32 \<Rightarrow> env list \<times> blocking \<times> nat hworld
     \<Rightarrow> (it_exception option \<times> key_iterator \<times> env list \<times> blocking \<times> nat hworld) option" where
  "IterateKeyRange lib start_key start_key_inclusive end_key end_key_inclusive frame_size c =
     new_key_iterator (blocking_get_key_range lib) frame_size start_key start_key_inclusive end_key
       end_key_inclusive c"

section \<open>What a drive returns\<close>

text \<open>
  The documented behaviour of the drive behind \<open>GetKeyRange\<close>: of the keys it holds, in order, those
  in the range, and of these at most as many as were asked for. A connection can fail, so this is
  relative to its state: \<open>good k c\<close> says of a state \<open>c\<close> that the next \<open>k\<close> requests will succeed.
\<close>

definition in_range :: "bytes \<Rightarrow> bool \<Rightarrow> bytes \<Rightarrow> bool \<Rightarrow> bytes \<Rightarrow> bool" where
  "in_range s si e ei k \<longleftrightarrow> (if si then s \<le> k else s < k) \<and> (if ei then k \<le> e else k < e)"

definition serves :: "(nat \<Rightarrow> 'c \<Rightarrow> bool) \<Rightarrow> 'c get_key_range \<Rightarrow> bytes list \<Rightarrow> bool" where
  "serves good gkr store \<longleftrightarrow> sorted_wrt (<) store \<and>
     (\<forall>k s si e ei n keys c. good (Suc k) c \<longrightarrow> (\<exists>st c'. gkr s si e ei False n keys c =
        (st, Some (take (nat (sint n)) (filter (in_range s si e ei) store)), c') \<and> ks_ok st \<and> good k c'))"

text \<open>Going on after the last key of a frame gives the rest of the range.\<close>

lemma filter_after_frame:
  assumes "sorted_wrt (<) store" and "filter (in_range s si e ei) store = xs @ [k] @ ys"
  shows "filter (in_range k False e ei) store = ys"
proof -
  have srt: "sorted_wrt (<) (xs @ [k] @ ys)" using sorted_wrt_filter [OF assms(1)] assms(2) by metis
  have "k \<in> set (filter (in_range s si e ei) store)" unfolding assms(2) by simp
  then have k: "in_range s si e ei k" by simp
  have "filter (in_range k False e ei) store = filter (\<lambda>x. k < x) (filter (in_range s si e ei) store)"
    unfolding filter_filter
    by (rule filter_cong) (use k in \<open>auto simp: in_range_def split: if_splits\<close>)
  also have "\<dots> = filter (\<lambda>x. k < x) (xs @ [k] @ ys)" unfolding assms(2) ..
  also have "\<dots> = ys"
  proof -
    have "filter (\<lambda>x. k < x) xs = []" using srt by (auto simp: sorted_wrt_append filter_empty_conv dest: order.asym)
    moreover have "filter (\<lambda>x. k < x) ys = ys" using srt by (auto simp: sorted_wrt_append intro: filter_True)
    ultimately show ?thesis by simp
  qed
  finally show ?thesis .
qed

text \<open>
  A live iterator over the rest \<open>xs\<close> of a range: within a frame, whose keys from the position on
  are the first of \<open>xs\<close>, and what the drive has after the frame is the remainder.
\<close>

definition it_live :: "bytes list \<Rightarrow> key_iterator \<Rightarrow> bytes list \<Rightarrow> bool" where
  "it_live store it xs \<longleftrightarrow> \<not> it_reverse_order it \<and> 0 < sint (it_framesz it) \<and>
     (\<exists>keys i. it_keys it = Some keys \<and> it_relpos it = int i \<and>
        (if keys = [] then it_eol it \<and> i = 0 \<and> xs = []
         else \<not> it_eol it \<and> i < length keys \<and>
           xs = drop i keys @ filter (in_range (last keys) False (it_last it) (it_last_inc it)) store))"

lemma next_frame_live:
  assumes "serves good gkr store" and "\<not> it_reverse_order it" and "0 < sint (it_framesz it)" and "\<not> it_eol it"
    and "(it_relpos it = - 1 \<and> it_keys it = None \<and>
            xs = filter (in_range (it_first it) (it_first_inc it) (it_last it) (it_last_inc it)) store) \<or>
         (\<exists>keys. it_relpos it \<noteq> - 1 \<and> it_keys it = Some keys \<and> keys \<noteq> [] \<and>
            xs = filter (in_range (last keys) False (it_last it) (it_last_inc it)) store)"
    and "good (Suc k) c"
  shows "\<exists>it' c'. kr_next_frame gkr it c = Some (None, it', c') \<and> it_live store it' xs \<and> good k c'"
proof -
  obtain it1 where it1: "(if it_relpos it \<noteq> - 1 then
              (case it_keys it of
                 Some keys \<Rightarrow>
                   if keys = [] then None
                   else Some (it\<lparr>it_first := keys ! (length keys - 1), it_first_inc := False\<rparr>)
               | None \<Rightarrow> Some it)
            else Some it) = Some it1"
    and same: "it_reverse_order it1 = False" "it_framesz it1 = it_framesz it" "it_last it1 = it_last it"
      "it_last_inc it1 = it_last_inc it" "it_eol it1 = False"
    and xs: "xs = filter (in_range (it_first it1) (it_first_inc it1) (it_last it1) (it_last_inc it1)) store"
    using assms(2,4,5) by (auto simp: last_conv_nth)
  let ?n = "nat (sint (it_framesz it))" and ?ks = "take (nat (sint (it_framesz it))) xs"
  obtain st c' where g: "gkr (it_first it1) (it_first_inc it1) (it_last it1) (it_last_inc it1) False (it_framesz it)
      (it_keys it1) c = (st, Some ?ks, c')" "ks_ok st" "good k c'"
    using assms(1,6) unfolding serves_def xs by blast
  define it' where "it' = it1\<lparr>it_keys := Some ?ks, it_relpos := 0, it_eol := (?ks = [])\<rparr>"
  have step: "kr_next_frame gkr it c = Some (None, it', c')"
    unfolding kr_next_frame_def it1 using g same by (auto simp: Let_def it'_def)
  have "it_live store it' xs"
  proof (cases "xs = []")
    case True
    then show ?thesis using assms(3) same by (simp add: it_live_def it'_def)
  next
    case False
    then have ks: "?ks \<noteq> []" using assms(3) by simp
    have "xs = butlast ?ks @ [last ?ks] @ drop ?n xs"
      using ks by (metis append.assoc append_butlast_last_id append_take_drop_id)
    with xs have "filter (in_range (last ?ks) False (it_last it1) (it_last_inc it1)) store = drop ?n xs"
      using assms(1) by (intro filter_after_frame) (auto simp: serves_def)
    then have "xs = ?ks @ filter (in_range (last ?ks) False (it_last it1) (it_last_inc it1)) store" by simp
    with ks show ?thesis using assms(3) same
      by (auto simp: it_live_def it'_def intro!: exI [of _ "0 :: nat"])
  qed
  with step g(3) show ?thesis by blast
qed

lemma increment_live:
  assumes "serves good gkr store" and "it_live store it (x # xs)" and "good (Suc k) c"
  shows "kr_dereference it = Some (Inr x) \<and>
    (\<exists>it' c'. kr_increment gkr it c = Some (None, it', c') \<and> it_live store it' xs \<and> (good k c' \<or> good (Suc k) c'))"
proof -
  obtain keys i where k: "it_keys it = Some keys" "it_relpos it = int i" "\<not> it_reverse_order it"
    "0 < sint (it_framesz it)" "keys \<noteq> []" "\<not> it_eol it" "i < length keys"
    and xs: "x # xs = drop i keys @ filter (in_range (last keys) False (it_last it) (it_last_inc it)) store"
    using assms(2) by (auto simp: it_live_def split: if_splits)
  have x: "x = keys ! i" "xs = drop (Suc i) keys @ filter (in_range (last keys) False (it_last it) (it_last_inc it)) store"
    using xs k(7) by (simp_all add: Cons_nth_drop_Suc [symmetric])
  have d: "kr_dereference it = Some (Inr x)" using k x(1) by (simp add: kr_dereference_def element_def)
  have inc: "kr_increment gkr it c = kr_advance gkr it c" using k by (simp add: kr_increment_def)
  show ?thesis
  proof (cases "Suc i = length keys")
    case True
    let ?it = "it\<lparr>it_relpos := int i + 1\<rparr>"
    have adv: "kr_advance gkr it c = kr_next_frame gkr ?it c"
      using k True by (simp add: kr_advance_def Let_def)
    have "\<exists>it' c'. kr_next_frame gkr ?it c = Some (None, it', c') \<and> it_live store it' xs \<and> good k c'"
      by (rule next_frame_live [where good = good, OF assms(1)]) (use k True x(2) assms(3) in auto)
    with adv inc d show ?thesis by auto
  next
    case False
    then have "kr_advance gkr it c = Some (None, it\<lparr>it_relpos := int i + 1\<rparr>, c)"
      using k by (simp add: kr_advance_def Let_def)
    moreover have "it_live store (it\<lparr>it_relpos := int i + 1\<rparr>) xs"
      using k x(2) False by (auto simp: it_live_def intro!: exI [of _ "Suc i"])
    ultimately show ?thesis using inc d assms(3) by simp
  qed
qed

lemma not_equal_end: "it_live store it xs \<Longrightarrow> kr_not_equal it KeyRangeEnd = Some (xs \<noteq> [])"
  by (auto simp: it_live_def kr_not_equal_def kr_equal_def KeyRangeEnd_def split: if_splits)

lemma loop_live:
  "serves good gkr store \<Longrightarrow> it_live store it xs \<Longrightarrow> good k c \<Longrightarrow> length xs \<le> k \<Longrightarrow> length xs < fuel \<Longrightarrow>
     kr_loop fuel gkr it c = (xs, At_end)"
proof (induction fuel arbitrary: it xs c k)
  case (Suc fuel)
  show ?case
  proof (cases xs)
    case Nil
    with Suc.prems(2) show ?thesis by (simp add: not_equal_end)
  next
    case (Cons x ys)
    with Suc.prems(4) obtain j where k: "k = Suc j" "length ys \<le> j" by (cases k) auto
    obtain it' c' where s: "kr_dereference it = Some (Inr x)" "kr_increment gkr it c = Some (None, it', c')"
      "it_live store it' ys" and g: "good j c' \<or> good (Suc j) c'"
      using increment_live [where good = good, OF Suc.prems(1) Suc.prems(2) [unfolded Cons]] Suc.prems(3) k(1) by blast
    then obtain k' where "good k' c'" "length ys \<le> k'" using k(2) by (meson le_SucI)
    with Suc.IH [OF Suc.prems(1) s(3)] s Suc.prems Cons show ?thesis by (simp add: not_equal_end)
  qed
qed simp

section \<open>What an iterator promises\<close>

text \<open>
  C14: Iterating visits every key of the range exactly once and in order, whatever the size of the
  frames. If the drive answers as documented, the loop from \<open>IterateKeyRange\<close> to \<open>KeyRangeEnd\<close> sees
  exactly the keys in the range, then stops, without an exception and without an access outside of a
  vector; fuel for one turn more than there are keys is enough. It is also enough that one request more
  than there are keys succeeds: what becomes of the connection after them does not matter. Frames hold at least one key and
  at most \<open>2 ^ 31 - 1\<close>.
\<close>

theorem iteration_visits_range:
  assumes "serves good gkr store" and "0 < sint framesz"
    and "good (Suc (length (filter (in_range start start_inc end_key end_inc) store))) c"
    and "length (filter (in_range start start_inc end_key end_inc) store) < fuel"
  shows "kr_iterate fuel gkr framesz start start_inc end_key end_inc c =
    (filter (in_range start start_inc end_key end_inc) store, At_end)"
proof -
  obtain it c' where "new_key_iterator gkr framesz start start_inc end_key end_inc c = Some (None, it, c')"
    "it_live store it (filter (in_range start start_inc end_key end_inc) store)" "good (length (filter (in_range start start_inc end_key end_inc) store)) c'"
    using next_frame_live [where good = good, OF assms(1), of "\<lparr>it_first = start, it_first_inc = start_inc,
        it_last = end_key, it_last_inc = end_inc, it_framesz = framesz, it_reverse_order = False, it_relpos = - 1,
        it_eol = False, it_keys = None\<rparr>"] assms(2,3) unfolding new_key_iterator_def by force
  with loop_live [where good = good, OF assms(1) this(2,3) order.refl assms(4)] show ?thesis by (simp add: kr_iterate_def)
qed

text \<open>Sources for examples: one that always answers, and one that counts down and then fails.\<close>

definition example_source :: "bytes list \<Rightarrow> unit get_key_range" where
  "example_source store s si e ei rv n keys c =
     (KineticStatus0 OK '''', Some (take (nat (sint n)) (filter (in_range s si e ei) store)), ())"

definition limited_source :: "bytes list \<Rightarrow> nat get_key_range" where
  "limited_source store s si e ei rv n keys c =
     (if c = 0 then (KineticStatus0 CLIENT_IO_ERROR ''IO error'', keys, c)
      else (KineticStatus0 OK '''', Some (take (nat (sint n)) (filter (in_range s si e ei) store)), c - 1))"

lemma limited_serves: "sorted_wrt (<) store \<Longrightarrow> serves (\<le>) (limited_source store) store"
  by (auto simp: serves_def limited_source_def ks_ok_def)

theorem iteration_visits_range_witness:
  "kr_iterate 4 (limited_source [[1], [1, 5], [2], [7]]) 2 [1] True [7] False 4 = ([[1], [1, 5], [2]], At_end)"
proof -
  have "serves (\<le>) (limited_source [[1], [1, 5], [2], [7]]) [[1], [1, 5], [2], [7]]" by (rule limited_serves) simp
  from iteration_visits_range [OF this, of 2 "[1]" True "[7]" False 4 4] show ?thesis by (simp add: in_range_def)
qed

text \<open>
  A failed fetch is reported at once and never leaves a stale key behind. If the connection fails
  when the iterator needs the next frame, the increment throws the status message; from then on the
  iterator can neither be dereferenced nor incremented: both throw.
\<close>

lemma iterator_reports_failure:
  assumes "it_keys it = Some keys" and "keys \<noteq> []" and "it_relpos it + 1 = int (length keys)"
    and "it_relpos it \<noteq> - 1"
    and "gkr (last keys) False (it_last it) (it_last_inc it) (it_reverse_order it) (it_framesz it) (Some keys) c =
      (status, keys', c')" and "\<not> ks_ok status"
  shows "\<exists>it'. kr_increment gkr it c = Some (Some (Runtime_error (ks_message status)), it', c') \<and>
    kr_dereference it' = Some (Inl bad_state) \<and> kr_increment gkr' it' d = Some (Some bad_state, it', d)"
proof -
  let ?it = "it\<lparr>it_relpos := - 1, it_first := last keys, it_first_inc := False, it_keys := keys'\<rparr>"
  have "int (length keys) \<noteq> - 1" "it_relpos it + 1 \<noteq> - 1" using assms(3) by simp_all
  then have "kr_increment gkr it c = Some (Some (Runtime_error (ks_message status)), ?it, c')"
    using assms by (simp add: kr_increment_def kr_advance_def kr_next_frame_def Let_def last_conv_nth)
  then show ?thesis by (intro exI [of _ ?it]) (simp add: kr_dereference_def kr_increment_def split: option.split)
qed

text \<open>
  C35: Comparing with \<open>KeyRangeEnd()\<close> is always defined, and tells whether the range is exhausted; but
  two iterators cannot be compared freely. An iterator that has run to its end and one that has not
  lead to an access to the first element of an empty vector.
\<close>

theorem comparison_with_exhausted_iterator:
  assumes "it_live store a []" and "it_live store' b (x # xs)"
  shows "kr_equal a KeyRangeEnd = Some True \<and> kr_equal KeyRangeEnd a = Some True \<and>
    kr_equal b KeyRangeEnd = Some False \<and> kr_equal KeyRangeEnd b = Some False \<and>
    kr_equal a b = None \<and> kr_equal b a = None"
  using assms
  by (auto simp: it_live_def kr_equal_def KeyRangeEnd_def element_def split: if_splits)

theorem comparison_with_exhausted_iterator_witness:
  "kr_equal (KeyRangeEnd\<lparr>it_keys := Some [], it_relpos := 0\<rparr>)
     (KeyRangeEnd\<lparr>it_keys := Some [[1]], it_relpos := 0, it_eol := False\<rparr>) = None"
  using comparison_with_exhausted_iterator [of "[]" "KeyRangeEnd\<lparr>it_keys := Some [], it_relpos := 0\<rparr>" "[]"
      "KeyRangeEnd\<lparr>it_keys := Some [[1]], it_relpos := 0, it_eol := False\<rparr>" "[1]" "[]"]
  by (simp add: it_live_def KeyRangeEnd_def)

end
