(* ===== verification/Threadsafe_Blocking.thy ===== *)
theory Threadsafe_Blocking
  imports Monitor Key_Range
begin

text \<open>
  \<open>ThreadsafeBlockingKineticConnection\<close> (\<open>threadsafe_blocking_kinetic_connection.cc\<close>): the blocking
  connection for several threads. Every method takes the object's recursive mutex and calls the
  connection it owns. A key range iterator that it returns holds that inner connection, and what the
  iterator does later is an operation of its own, \<open>TB_Increment\<close>; which calls of the connection an
  increment consists of is computed from the iterator (\<open>increment_calls\<close>). The overloads that take strings by
  reference or through a pointer are the same method here.
\<close>

section \<open>State\<close>

text \<open>A new object: its mutex is free, it owns the connection, and no thread is in a method.\<close>

definition ThreadsafeBlockingKineticConnection ::
    "blocking \<Rightarrow> nat hworld \<Rightarrow> ('t, 'op, 'l, blocking \<times> nat hworld, 'r) config" where
  "ThreadsafeBlockingKineticConnection connection w = initial_config (connection, w)"

section \<open>The operations of the connection inside\<close>

text \<open>An operation comes with its environment and with the caller's variables.\<close>

datatype tb_op =
    TB_SetClientClusterVersion int64
  | TB_Op blocking_op env outputs
  | TB_IterateKeyRange bytes bool bytes bool uint32 env
  | TB_Increment key_iterator env

datatype tb_result =
    TR_void
  | TR_status op_result outputs
  | TR_iterator "(it_exception option \<times> key_iterator) option"

definition iterator_result ::
    "blocking \<Rightarrow> nat hworld \<Rightarrow> (it_exception option \<times> key_iterator \<times> env list \<times> blocking \<times> nat hworld) option
     \<Rightarrow> tb_result \<times> blocking \<times> nat hworld" where
  "iterator_result b w res =
     (case res of
        None \<Rightarrow> (TR_iterator None, b, w)
      | Some (e, it, envs, b', w') \<Rightarrow> (TR_iterator (Some (e, it)), b', w'))"

fun tb_exec :: "lib \<Rightarrow> tb_op \<Rightarrow> blocking \<times> nat hworld \<Rightarrow> tb_result \<times> blocking \<times> nat hworld" where
  "tb_exec lib (TB_SetClientClusterVersion version) (b, w) = (TR_void, bl_SetClientClusterVersion version b, w)"
| "tb_exec lib (TB_Op op env out) (b, w) =
     (case b_exec lib env op out b w of (res, out', b', w') \<Rightarrow> (TR_status res out', b', w'))"
| "tb_exec lib (TB_IterateKeyRange start_key start_inc end_key end_inc frame_size env) (b, w) =
     iterator_result b w (IterateKeyRange lib start_key start_inc end_key end_inc frame_size ([env], b, w))"
| "tb_exec lib (TB_Increment it env) (b, w) =
     iterator_result b w (kr_increment (blocking_get_key_range lib) it ([env], b, w))"

section \<open>The methods\<close>

type_synonym tb_program = "tb_op instr list"

definition tb_SetClientClusterVersion :: "int64 \<Rightarrow> tb_program" where
  "tb_SetClientClusterVersion cluster_version = guarded (TB_SetClientClusterVersion cluster_version)"

definition tb_NoOp :: "env \<Rightarrow> outputs \<Rightarrow> tb_program" where
  "tb_NoOp env out = guarded (TB_Op B_NoOp env out)"

definition tb_Get :: "bytes \<Rightarrow> env \<Rightarrow> outputs \<Rightarrow> tb_program" where
  "tb_Get key env out = guarded (TB_Op (B_Get key) env out)"

definition tb_Put ::
    "bytes \<Rightarrow> bytes \<Rightarrow> write_mode \<Rightarrow> kinetic_record \<Rightarrow> persist_mode \<Rightarrow> env \<Rightarrow> outputs \<Rightarrow> tb_program" where
  "tb_Put key current_version mode record persistMode env out =
     guarded (TB_Op (B_Put key current_version mode record persistMode) env out)"

definition tb_Put_default ::
    "bytes \<Rightarrow> bytes \<Rightarrow> write_mode \<Rightarrow> kinetic_record \<Rightarrow> env \<Rightarrow> outputs \<Rightarrow> tb_program" where
  "tb_Put_default key current_version mode record env out =
     guarded (TB_Op (B_Put_default key current_version mode record) env out)"

definition tb_Delete ::
    "bytes \<Rightarrow> bytes \<Rightarrow> write_mode \<Rightarrow> persist_mode \<Rightarrow> env \<Rightarrow> outputs \<Rightarrow> tb_program" where
  "tb_Delete key version mode persistMode env out =
     guarded (TB_Op (B_Delete key version mode persistMode) env out)"

definition tb_Delete_default ::
    "bytes \<Rightarrow> bytes \<Rightarrow> write_mode \<Rightarrow> env \<Rightarrow> outputs \<Rightarrow> tb_program" where
  "tb_Delete_default key version mode env out = guarded (TB_Op (B_Delete_default key version mode) env out)"

definition tb_InstantErase ::
    "bytes option \<Rightarrow> env \<Rightarrow> outputs \<Rightarrow> tb_program" where
  "tb_InstantErase pin env out = guarded (TB_Op (B_InstantErase pin) env out)"

definition tb_SecureErase ::
    "bytes option \<Rightarrow> env \<Rightarrow> outputs \<Rightarrow> tb_program" where
  "tb_SecureErase pin env out = guarded (TB_Op (B_InstantErase pin) env out)"

definition tb_SetClusterVersion ::
    "int64 \<Rightarrow> env \<Rightarrow> outputs \<Rightarrow> tb_program" where
  "tb_SetClusterVersion new_cluster_version env out =
     guarded (TB_Op (B_SetClusterVersion new_cluster_version) env out)"

definition tb_GetLog_all :: "env \<Rightarrow> outputs \<Rightarrow> tb_program" where
  "tb_GetLog_all env out = guarded (TB_Op B_GetLog_all env out)"

definition tb_GetLog ::
    "getlog_type list \<Rightarrow> env \<Rightarrow> outputs \<Rightarrow> tb_program" where
  "tb_GetLog types env out = guarded (TB_Op (B_GetLog types) env out)"

definition tb_Flush :: "env \<Rightarrow> outputs \<Rightarrow> tb_program" where
  "tb_Flush env out = guarded (TB_Op B_Flush env out)"

definition tb_UpdateFirmware :: "bytes \<Rightarrow> env \<Rightarrow> outputs \<Rightarrow> tb_program" where
  "tb_UpdateFirmware new_firmware env out = guarded (TB_Op (B_UpdateFirmware new_firmware) env out)"

definition tb_SetACLs :: "acl list \<Rightarrow> env \<Rightarrow> outputs \<Rightarrow> tb_program" where
  "tb_SetACLs acls env out = guarded (TB_Op (B_SetACLs acls) env out)"

definition tb_SetErasePIN ::
    "bytes option \<Rightarrow> bytes option \<Rightarrow> env \<Rightarrow> outputs \<Rightarrow> tb_program" where
  "tb_SetErasePIN new_pin current_pin env out = guarded (TB_Op (B_SetErasePIN new_pin current_pin) env out)"

definition tb_SetLockPIN ::
    "bytes option \<Rightarrow> bytes option \<Rightarrow> env \<Rightarrow> outputs \<Rightarrow> tb_program" where
  "tb_SetLockPIN new_pin current_pin env out = guarded (TB_Op (B_SetLockPIN new_pin current_pin) env out)"

definition tb_LockDevice ::
    "bytes option \<Rightarrow> env \<Rightarrow> outputs \<Rightarrow> tb_program" where
  "tb_LockDevice pin env out = guarded (TB_Op (B_LockDevice pin) env out)"

definition tb_UnlockDevice ::
    "bytes option \<Rightarrow> env \<Rightarrow> outputs \<Rightarrow> tb_program" where
  "tb_UnlockDevice pin env out = guarded (TB_Op (B_UnlockDevice pin) env out)"

definition tb_GetNext :: "bytes \<Rightarrow> env \<Rightarrow> outputs \<Rightarrow> tb_program" where
  "tb_GetNext key env out = guarded (TB_Op (B_GetNext key) env out)"

definition tb_GetPrevious :: "bytes \<Rightarrow> env \<Rightarrow> outputs \<Rightarrow> tb_program" where
  "tb_GetPrevious key env out = guarded (TB_Op (B_GetPrevious key) env out)"

definition tb_GetVersion :: "bytes \<Rightarrow> env \<Rightarrow> outputs \<Rightarrow> tb_program" where
  "tb_GetVersion key env out = guarded (TB_Op (B_GetVersion key) env out)"

definition tb_GetKeyRange ::
    "bytes \<Rightarrow> bool \<Rightarrow> bytes \<Rightarrow> bool \<Rightarrow> bool \<Rightarrow> 32 word \<Rightarrow> env \<Rightarrow> outputs \<Rightarrow> tb_program" where
  "tb_GetKeyRange start_key start_inc end_key end_inc reverse_results max_results env out =
     guarded (TB_Op (B_GetKeyRange start_key start_inc end_key end_inc reverse_results max_results) env out)"

definition tb_P2PPush ::
    "p2p_push_request \<Rightarrow> env \<Rightarrow> outputs \<Rightarrow> tb_program" where
  "tb_P2PPush push_request env out = guarded (TB_Op (B_P2PPush push_request) env out)"

definition tb_MediaScan ::
    "bytes \<Rightarrow> bool \<Rightarrow> bytes \<Rightarrow> bool \<Rightarrow> 32 word \<Rightarrow> env \<Rightarrow> outputs \<Rightarrow> tb_program" where
  "tb_MediaScan start_key start_inc end_key end_inc max_results env out =
     guarded (TB_Op (B_MediaScan start_key start_inc end_key end_inc max_results) env out)"

definition tb_MediaOptimize ::
    "bytes \<Rightarrow> bool \<Rightarrow> bytes \<Rightarrow> bool \<Rightarrow> env \<Rightarrow> outputs \<Rightarrow> tb_program" where
  "tb_MediaOptimize start_key start_inc end_key end_inc env out =
     guarded (TB_Op (B_MediaOptimize start_key start_inc end_key end_inc) env out)"

definition tb_IterateKeyRange :: "bytes \<Rightarrow> bool \<Rightarrow> bytes \<Rightarrow> bool \<Rightarrow> uint32 \<Rightarrow> env \<Rightarrow> tb_program" where
  "tb_IterateKeyRange start_key start_inc end_key end_inc frame_size env =
     guarded (TB_IterateKeyRange start_key start_inc end_key end_inc frame_size env)"

text \<open>The methods of the class.\<close>

datatype tb_method =
    TM_SetClientClusterVersion int64
  | TM_Op blocking_op env outputs
  | TM_IterateKeyRange bytes bool bytes bool uint32 env

fun tb_dispatch :: "tb_method \<Rightarrow> tb_program" where
  "tb_dispatch (TM_SetClientClusterVersion version) = tb_SetClientClusterVersion version"
| "tb_dispatch (TM_IterateKeyRange start_key start_inc end_key end_inc frame_size env) =
     tb_IterateKeyRange start_key start_inc end_key end_inc frame_size env"
| "tb_dispatch (TM_Op B_NoOp env out) = tb_NoOp env out"
| "tb_dispatch (TM_Op (B_Get key) env out) = tb_Get key env out"
| "tb_dispatch (TM_Op (B_Put key current_version mode record persistMode) env out) = tb_Put key current_version mode record persistMode env out"
| "tb_dispatch (TM_Op (B_Put_default key current_version mode record) env out) = tb_Put_default key current_version mode record env out"
| "tb_dispatch (TM_Op (B_Delete key version mode persistMode) env out) = tb_Delete key version mode persistMode env out"
| "tb_dispatch (TM_Op (B_Delete_default key version mode) env out) = tb_Delete_default key version mode env out"
| "tb_dispatch (TM_Op (B_InstantErase pin) env out) = tb_InstantErase pin env out"
| "tb_dispatch (TM_Op (B_SecureErase pin) env out) = tb_SecureErase pin env out"
| "tb_dispatch (TM_Op (B_SetClusterVersion new_cluster_version) env out) = tb_SetClusterVersion new_cluster_version env out"
| "tb_dispatch (TM_Op B_GetLog_all env out) = tb_GetLog_all env out"
| "tb_dispatch (TM_Op (B_GetLog types) env out) = tb_GetLog types env out"
| "tb_dispatch (TM_Op B_Flush env out) = tb_Flush env out"
| "tb_dispatch (TM_Op (B_UpdateFirmware new_firmware) env out) = tb_UpdateFirmware new_firmware env out"
| "tb_dispatch (TM_Op (B_SetACLs acls) env out) = tb_SetACLs acls env out"
| "tb_dispatch (TM_Op (B_SetErasePIN new_pin current_pin) env out) = tb_SetErasePIN new_pin current_pin env out"
| "tb_dispatch (TM_Op (B_SetLockPIN new_pin current_pin) env out) = tb_SetLockPIN new_pin current_pin env out"
| "tb_dispatch (TM_Op (B_LockDevice pin) env out) = tb_LockDevice pin env out"
| "tb_dispatch (TM_Op (B_UnlockDevice pin) env out) = tb_UnlockDevice pin env out"
| "tb_dispatch (TM_Op (B_GetNext key) env out) = tb_GetNext key env out"
| "tb_dispatch (TM_Op (B_GetPrevious key) env out) = tb_GetPrevious key env out"
| "tb_dispatch (TM_Op (B_GetVersion key) env out) = tb_GetVersion key env out"
| "tb_dispatch (TM_Op (B_GetKeyRange start_key start_inc end_key end_inc reverse_results max_results) env out) = tb_GetKeyRange start_key start_inc end_key end_inc reverse_results max_results env out"
| "tb_dispatch (TM_Op (B_P2PPush push_request) env out) = tb_P2PPush push_request env out"
| "tb_dispatch (TM_Op (B_MediaScan start_key start_inc end_key end_inc max_results) env out) = tb_MediaScan start_key start_inc end_key end_inc max_results env out"
| "tb_dispatch (TM_Op (B_MediaOptimize start_key start_inc end_key end_inc) env out) = tb_MediaOptimize start_key start_inc end_key end_inc env out"

text \<open>The operation of the inner connection that a method ends up in.\<close>

fun tb_target :: "tb_method \<Rightarrow> tb_op" where
  "tb_target (TM_SetClientClusterVersion version) = TB_SetClientClusterVersion version"
| "tb_target (TM_IterateKeyRange start_key start_inc end_key end_inc frame_size env) =
     TB_IterateKeyRange start_key start_inc end_key end_inc frame_size env"
| "tb_target (TM_Op (B_SecureErase pin) env out) = TB_Op (B_InstantErase pin) env out"
| "tb_target (TM_Op op env out) = TB_Op op env out"

lemmas tb_methods =
  tb_SetClientClusterVersion_def tb_IterateKeyRange_def tb_NoOp_def tb_Get_def tb_Put_def tb_Put_default_def tb_Delete_def tb_Delete_default_def
  tb_InstantErase_def tb_SecureErase_def tb_SetClusterVersion_def tb_GetLog_all_def tb_GetLog_def
  tb_Flush_def tb_UpdateFirmware_def tb_SetACLs_def tb_SetErasePIN_def tb_SetLockPIN_def
  tb_LockDevice_def tb_UnlockDevice_def tb_GetNext_def tb_GetPrevious_def tb_GetVersion_def
  tb_GetKeyRange_def tb_P2PPush_def tb_MediaScan_def tb_MediaOptimize_def

lemma tb_forwards: "tb_dispatch m = guarded (tb_target m)"
  by (cases m rule: tb_dispatch.cases) (simp_all add: tb_methods)

interpretation tb: monitor tb_dispatch tb_target
  by unfold_locales (rule tb_forwards)

section \<open>What threads see\<close>

text \<open>The results of operations that returned to their callers.\<close>

fun has_returned :: "tb_result \<Rightarrow> bool" where
  "has_returned TR_void = True"
| "has_returned (TR_status res _) = (\<exists>st. res = Returned st)"
| "has_returned (TR_iterator None) = False"
| "has_returned (TR_iterator (Some (e, _))) = (e \<noteq> Some (Runtime_error ''not returned''))"

lemma get_key_range_reach:
  assumes "blocking_get_key_range lib s si e ei rv n keys (envs, b, w) = (st, keys', envs', b', w')"
    and "b_reach lib b w" and "ks_ok st \<or> ks_message st \<noteq> ''not returned''"
  shows "b_reach lib b' w'"
proof -
  let ?out = "\<lparr>o_actual_key = None, o_record = None, o_version = None, o_keys = keys, o_last_key = None,
      o_drive_log = None, o_statuses = None\<rparr>"
  obtain res out where x: "bl_GetKeyRange lib (hd envs) s si e ei rv n ?out b w = (res, out, b', w')"
    "st = (case res of Returned st \<Rightarrow> st | _ \<Rightarrow> KineticStatus0 CLIENT_INTERNAL_ERROR ''not returned'')"
    using assms(1) by (auto split: prod.splits)
  with assms(3) obtain st' where "res = Returned st'" by (cases res) (auto simp: ks_ok_def)
  with x(1) have "b_exec lib (hd envs) (B_GetKeyRange s si e ei rv n) ?out b w = (Returned st', out, b', w')" by simp
  with assms(2) show ?thesis by (rule b_op)
qed

lemma next_frame_reach:
  assumes "kr_next_frame (blocking_get_key_range lib) it (envs, b, w) = Some (e, it', envs', b', w')"
    and "b_reach lib b w" and "e \<noteq> Some (Runtime_error ''not returned'')"
  shows "b_reach lib b' w'"
proof -
  from next_frame_fetches [OF assms(1)] obtain s si l li rv n keys0 st keys where
    "blocking_get_key_range lib s si l li rv n keys0 (envs, b, w) = (st, keys, envs', b', w')"
    "\<not> ks_ok st \<longrightarrow> e = Some (Runtime_error (ks_message st))" by blast
  with get_key_range_reach [OF _ assms(2)] assms(3) show ?thesis by blast
qed

text \<open>An operation that returns to its caller leads from a state of a connection's history to one.\<close>

lemma tb_exec_reach:
  assumes "tb_exec lib op (b, w) = (r, b', w')" and "b_reach lib b w" and "has_returned r"
  shows "b_reach lib b' w'"
proof (cases op)
  case (TB_SetClientClusterVersion v)
  with assms(1,2) show ?thesis by (auto intro: b_version)
next
  case (TB_Op op' env out)
  with assms(1) obtain res out' where run: "b_exec lib env op' out b w = (res, out', b', w')" "r = TR_status res out'"
    by (auto split: prod.splits)
  with assms(3) obtain st where "res = Returned st" by auto
  with run(1) assms(2) show ?thesis by (auto intro: b_op)
next
  case (TB_IterateKeyRange s si e ei n env)
  with assms(1,3) obtain ex it envs where
    "IterateKeyRange lib s si e ei n ([env], b, w) = Some (ex, it, envs, b', w')" "r = TR_iterator (Some (ex, it))"
    by (auto simp: iterator_result_def split: option.splits)
  with assms(2,3) show ?thesis
    unfolding IterateKeyRange_def new_key_iterator_def by (auto intro: next_frame_reach)
next
  case (TB_Increment it env)
  with assms(1,3) obtain ex it' envs where
    "kr_increment (blocking_get_key_range lib) it ([env], b, w) = Some (ex, it', envs, b', w')" "r = TR_iterator (Some (ex, it'))"
    by (auto simp: iterator_result_def split: option.splits)
  with assms(2,3) show ?thesis
    by (auto simp: kr_increment_def kr_advance_def Let_def split: if_splits option.splits intro: next_frame_reach)
qed

text \<open>Where an entry of a history was run, on a connection without threads.\<close>

lemma replay_entry:
  "replay (tb_exec lib) s0 h = Some s \<Longrightarrow> b_reach lib (fst s0) (snd s0) \<Longrightarrow>
     \<forall>x \<in> set h. has_returned (snd (snd x)) \<Longrightarrow> (t, op, r) \<in> set h \<Longrightarrow>
     \<exists>b w b' w'. b_reach lib b w \<and> tb_exec lib op (b, w) = (r, b', w')"
proof (induction h arbitrary: s0)
  case (Cons x h)
  obtain t1 op1 r1 where x: "x = (t1, op1, r1)" by (cases x)
  obtain b w where s0: "s0 = (b, w)" by (cases s0)
  from Cons.prems(1) obtain b1 w1 where e: "tb_exec lib op1 (b, w) = (r1, b1, w1)"
    "replay (tb_exec lib) (b1, w1) h = Some s" unfolding x s0 by (auto split: prod.splits if_splits)
  have r: "b_reach lib b w" using Cons.prems(2) s0 by simp
  with e(1) Cons.prems(3) have "b_reach lib b1 w1" unfolding x by (auto intro: tb_exec_reach)
  with Cons.IH [OF e(2)] Cons.prems(3,4) e(1) r show ?case unfolding x by auto
qed simp

section \<open>What the class promises\<close>

text \<open>
  C16: Threads that share a blocking connection each get what one thread alone would have got. Take
  any threads that call any methods, interleaved in any way, over an inner connection that works in
  any number of small steps. No two threads are ever inside the connection at once, and while one is
  inside a method some thread can go on. If the operations so far all returned to their callers, the
  result of each is the result of that operation on a blocking connection that reached its state
  without threads; so whatever holds of blocking operations holds for every thread.
\<close>

theorem blocking_calls_linearizable:
  assumes "mreach tb_dispatch init act (b0, w0) c" and "implements init act (tb_exec lib)"
    and "b_reach lib b0 w0" and "\<forall>x \<in> set (cf_history c). has_returned (snd (snd x))"
  shows "(\<forall>t u. cf_run c t \<noteq> None \<longrightarrow> cf_run c u \<noteq> None \<longrightarrow> t = u) \<and>
    (\<forall>t. cf_code c t \<noteq> [] \<or> cf_run c t \<noteq> None \<longrightarrow> (\<exists>c'. mstep init act c c')) \<and>
    (\<forall>t op r. (t, op, r) \<in> set (cf_history c) \<longrightarrow>
       (\<exists>b w b' w'. b_reach lib b w \<and> tb_exec lib op (b, w) = (r, b', w')))"
proof -
  note lin = tb.linearizable [OF assms(1,2)]
  then obtain s1 where "replay (tb_exec lib) (b0, w0) (cf_history c) = Some s1" by blast
  from replay_entry [OF this _ assms(4)] assms(3) have
    "\<forall>t op r. (t, op, r) \<in> set (cf_history c) \<longrightarrow>
       (\<exists>b w b' w'. b_reach lib b w \<and> tb_exec lib op (b, w) = (r, b', w'))" by simp
  with lin tb.deadlock_free [OF assms(1,2)] show ?thesis by blast
qed

text \<open>
  C36: The class forwards every operation to the same one of the connection it owns, with one
  exception: a secure erase. Its request, as the drive gets it, asks for an instant erase, which does
  not overwrite the data; the same operation on the blocking connection itself asks for a secure one.
\<close>

theorem secure_erase_sends_instant_erase:
  assumes "tb_dispatch (TM_Op op env out) = [Lock, Invoke (TB_Op op' env' out'), Unlock]"
    and "nb_exec cx (op_call op' c) n w = Some (key, n', w')"
    and "nb_exec cx (op_call op c) n w = Some (key', n'', w'')" and "\<not> v_failed (n_service n)"
  shows "env' = env \<and> out' = out \<and>
    (case op of
       B_SecureErase pin \<Rightarrow>
         b_pinop (cmd_body (last_command n')) = Some ERASE_PINOP \<and>
         b_pinop (cmd_body (last_command n'')) = Some SECURE_ERASE_PINOP
     | _ \<Rightarrow> op' = op)"
proof -
  have f: "tb_target (TM_Op op env out) = TB_Op op' env' out'" using assms(1) by (simp add: tb_forwards guarded_def)
  show ?thesis
  proof (cases op)
    case (B_SecureErase pin)
    with f have o: "op' = B_InstantErase pin" "env' = env" "out' = out" by simp_all
    from o(1) assms(2) have "b_pinop (cmd_body (last_command n')) = Some ERASE_PINOP"
      by (auto simp: InstantErase_def with_pinop_def dest!: n_Submit_last [OF _ assms(4)])
    moreover from B_SecureErase assms(3) have "b_pinop (cmd_body (last_command n'')) = Some SECURE_ERASE_PINOP"
      by (auto simp: SecureErase_def with_pinop_def dest!: n_Submit_last [OF _ assms(4)])
    ultimately show ?thesis using o B_SecureErase by simp
  qed (use f in auto)
qed

text \<open>
  What a client with several threads can call: the methods of the class, and \<open>++\<close> on the iterators
  that \<open>IterateKeyRange\<close> returned, which know the inner connection and no mutex. The calls that an
  increment makes of the connection are those that \<open>kr_increment\<close> makes of a \<open>GetKeyRange\<close> that
  writes down its arguments and leaves the keys as they are.
\<close>

type_synonym range_call = "bytes \<times> bool \<times> bytes \<times> bool \<times> bool \<times> uint32 \<times> bytes list option"

fun note_range_call :: "range_call list get_key_range" where
  "note_range_call s si e ei rv n keys calls = (KineticStatus0 OK '''', keys, calls @ [(s, si, e, ei, rv, n, keys)])"

definition increment_calls :: "key_iterator \<Rightarrow> range_call list" where
  "increment_calls it = (case kr_increment note_range_call it [] of None \<Rightarrow> [] | Some (e, it', calls) \<Rightarrow> calls)"

definition range_op :: "env \<Rightarrow> range_call \<Rightarrow> tb_op" where
  "range_op env rc =
     (case rc of (s, si, e, ei, rv, n, keys) \<Rightarrow> TB_Op (B_GetKeyRange s si e ei rv n) env (no_outputs\<lparr>o_keys := keys\<rparr>))"

datatype tb_client =
    Method tb_method
  | Iterator_increment key_iterator env

fun client_dispatch :: "tb_client \<Rightarrow> tb_program" where
  "client_dispatch (Method m) = tb_dispatch m"
| "client_dispatch (Iterator_increment it env) = map (Invoke \<circ> range_op env) (increment_calls it)"

text \<open>An iterator calls the connection exactly when it leaves the last key of its frame.\<close>

lemma increment_calls_frame:
  assumes "it_keys it = Some keys" and "keys \<noteq> []" and "0 \<le> it_relpos it" and "it_relpos it < int (length keys)"
  shows "increment_calls it =
    (if it_relpos it + 1 < int (length keys) then []
     else [(last keys, False, it_last it, it_last_inc it, it_reverse_order it, it_framesz it, Some keys)])"
  using assms
  by (auto simp: increment_calls_def kr_increment_def kr_advance_def kr_next_frame_def Let_def last_conv_nth ks_ok_def)

text \<open>What an increment does to the connection is what these calls do.\<close>

lemma increment_as_calls:
  assumes "it_keys it = Some keys" and "keys \<noteq> []" and "0 \<le> it_relpos it" and "it_relpos it < int (length keys)"
  shows "snd (tb_exec lib (TB_Increment it env) s) =
    fold (\<lambda>op s. snd (tb_exec lib op s)) (map (range_op env) (increment_calls it)) s"
proof -
  obtain b w where s: "s = (b, w)" by (cases s)
  let ?out = "no_outputs\<lparr>o_keys := Some keys\<rparr>"
  obtain res out b' w' where x: "bl_GetKeyRange lib env (last keys) False (it_last it) (it_last_inc it) (it_reverse_order it)
      (it_framesz it) ?out b w = (res, out, b', w')" by (metis prod_cases4)
  with assms show ?thesis
    by (auto simp: s increment_calls_frame range_op_def kr_increment_def kr_advance_def kr_next_frame_def Let_def
        iterator_result_def last_conv_nth no_outputs_def)
qed

text \<open>
  C37: Iterators break the protection, at the end of every frame. An increment in the middle of a frame
  does not use the connection. But when the iterator leaves the last key of its frame, the thread that
  increments it can be inside the connection, asking for the next frame, at the same time as another
  thread that holds the mutex is inside it with any method: the increment does not wait for the lock.
\<close>

theorem iterator_bypasses_mutex:
  assumes "t \<noteq> u" and "it_keys it = Some keys" and "keys \<noteq> []"
    and "0 \<le> it_relpos it" and "it_relpos it < int (length keys)"
  shows "if it_relpos it + 1 < int (length keys) then client_dispatch (Iterator_increment it env) = []
    else \<exists>c op out. mreach client_dispatch init act s0 c \<and> mx_owner (cf_mutex c) = Some t \<and>
      cf_run c t = Some (tb_target m, init (tb_target m)) \<and> cf_run c u = Some (op, init op) \<and>
      op = TB_Op (B_GetKeyRange (last keys) False (it_last it) (it_last_inc it) (it_reverse_order it) (it_framesz it)) env out"
proof (cases "it_relpos it + 1 < int (length keys)")
  case True
  with increment_calls_frame [OF assms(2-5)] show ?thesis by simp
next
  case False
  let ?reach = "mreach client_dispatch init act s0"
  define op where "op = range_op env (last keys, False, it_last it, it_last_inc it, it_reverse_order it, it_framesz it, Some keys)"
  have prog: "client_dispatch (Iterator_increment it env) = [Invoke op]"
    using increment_calls_frame [OF assms(2-5)] False by (simp add: op_def)
  define c0 :: "('a, tb_op, 'b, 'c, 'd) config" where "c0 = initial_config s0"
  have r0: "?reach c0" unfolding c0_def by (rule mr_start)
  define c1 where "c1 = c0\<lparr>cf_code := (cf_code c0)(t := client_dispatch (Method m))\<rparr>"
  have r1: "?reach c1" unfolding c1_def by (rule mr_call [OF r0]) (simp_all add: c0_def initial_config_def)
  define c2 where "c2 = c1\<lparr>cf_code := (cf_code c1)(u := client_dispatch (Iterator_increment it env))\<rparr>"
  have r2: "?reach c2" unfolding c2_def
    by (rule mr_call [OF r1]) (use assms(1) in \<open>simp_all add: c1_def c0_def initial_config_def\<close>)
  define c3 where "c3 = c2\<lparr>cf_mutex := \<lparr>mx_owner = Some t, mx_depth = 1\<rparr>,
      cf_code := (cf_code c2)(t := [Invoke (tb_target m), Unlock])\<rparr>"
  have r3: "?reach c3" unfolding c3_def
    by (rule mr_step [OF r2 m_lock]) (use assms(1) in \<open>auto simp: c2_def c1_def c0_def initial_config_def tb_forwards
        guarded_def mx_lock_def mx_free_def\<close>)
  define c4 where "c4 = c3\<lparr>cf_run := (cf_run c3)(t := Some (tb_target m, init (tb_target m))),
      cf_code := (cf_code c3)(t := [Unlock])\<rparr>"
  have r4: "?reach c4" unfolding c4_def
    by (rule mr_step [OF r3 m_invoke]) (use assms(1) in \<open>auto simp: c3_def c2_def c1_def c0_def initial_config_def\<close>)
  define c5 where "c5 = c4\<lparr>cf_run := (cf_run c4)(u := Some (op, init op)), cf_code := (cf_code c4)(u := [])\<rparr>"
  have "?reach c5" unfolding c5_def
    by (rule mr_step [OF r4 m_invoke])
      (use assms(1) prog in \<open>auto simp: c4_def c3_def c2_def c1_def c0_def initial_config_def simp del: client_dispatch.simps(2)\<close>)
  then have "?reach c5 \<and> mx_owner (cf_mutex c5) = Some t \<and> cf_run c5 t = Some (tb_target m, init (tb_target m)) \<and>
      cf_run c5 u = Some (op, init op)"
    using assms(1) by (simp add: c5_def c4_def c3_def)
  with False show ?thesis by (auto simp: op_def range_op_def)
qed

text \<open>An iterator on the only key of its frame, while another thread sends a no-op.\<close>

theorem iterator_bypasses_mutex_witness:
  "\<exists>c out. mreach client_dispatch torn_init (torn_act (tb_exec example_lib)) (example_blocking, example_world) c \<and>
     cf_run c (0 :: nat) = Some (TB_Op B_NoOp silent_env no_outputs, None) \<and>
     cf_run c 1 = Some (TB_Op (B_GetKeyRange [5] False [9] True False 1) silent_env out, None)"
  using iterator_bypasses_mutex [of "0 :: nat" 1 "KeyRangeEnd\<lparr>it_first := [5], it_first_inc := True, it_last := [9],
      it_last_inc := True, it_relpos := 0, it_eol := False, it_keys := Some [[5]]\<rparr>" "[[5]]" silent_env torn_init
      "torn_act (tb_exec example_lib)" "(example_blocking, example_world)" "TM_Op B_NoOp silent_env no_outputs"]
  by (auto simp: torn_init_def KeyRangeEnd_def)

theorem secure_erase_sends_instant_erase_witness:
  "\<exists>n' n''. b_pinop (cmd_body (last_command n')) = Some ERASE_PINOP \<and>
     b_pinop (cmd_body (last_command n'')) = Some SECURE_ERASE_PINOP \<and>
     (\<exists>key w'. nb_exec example_codec (op_call (B_InstantErase (Some [1])) 0) (bl_connection example_blocking) example_world =
        Some (key, n', w')) \<and>
     (\<exists>key w''. nb_exec example_codec (op_call (B_SecureErase (Some [1])) 0) (bl_connection example_blocking) example_world =
        Some (key, n'', w''))"
proof -
  let ?n = "bl_connection example_blocking"
  obtain key n' w' where i: "nb_exec example_codec (op_call (B_InstantErase (Some [1])) 0) ?n example_world = Some (key, n', w')"
    by (auto intro: prod_cases3)
  obtain key' n'' w'' where s: "nb_exec example_codec (op_call (B_SecureErase (Some [1])) 0) ?n example_world = Some (key', n'', w'')"
    by (auto intro: prod_cases3)
  have d: "tb_dispatch (TM_Op (B_SecureErase (Some [1])) silent_env no_outputs) =
      [Lock, Invoke (TB_Op (B_InstantErase (Some [1])) silent_env no_outputs), Unlock]"
    by (simp add: tb_SecureErase_def guarded_def)
  have "\<not> v_failed (n_service ?n)"
    by (simp add: example_blocking_def BlockingKineticConnection_def NonblockingKineticConnection_def new_service_def)
  from secure_erase_sends_instant_erase [OF d i s this] i s show ?thesis by auto
qed

text \<open>A thread that sets the cluster version and one that reads a value.\<close>

lemma example_blocking_run:
  "\<exists>c out. mreach tb_dispatch torn_init (torn_act (tb_exec example_lib)) (example_blocking, example_world) c \<and>
     cf_run c = (\<lambda>_. None) \<and>
     cf_history c = [(0 :: nat, TB_SetClientClusterVersion 0, TR_void),
       (1, TB_Op (B_Get [7]) answering_env no_outputs, TR_status (Returned (KineticStatus0 OK '''')) out)]"
proof -
  let ?act = "torn_act (tb_exec example_lib)" and ?s0 = "(example_blocking, example_world)"
  have start: "mreach tb_dispatch torn_init ?act ?s0 (ThreadsafeBlockingKineticConnection example_blocking example_world)"
    unfolding ThreadsafeBlockingKineticConnection_def by (rule mr_start)
  have v: "bl_SetClientClusterVersion 0 example_blocking = example_blocking"
    by (simp add: bl_SetClientClusterVersion_def SetClientClusterVersion_def example_blocking_def
        BlockingKineticConnection_def NonblockingKineticConnection_def)
  obtain c1 where c1: "mreach tb_dispatch torn_init ?act ?s0 c1" "cf_code c1 = (\<lambda>_. [])" "cf_run c1 = (\<lambda>_. None)"
    "cf_shared c1 = ?s0" "mx_owner (cf_mutex c1) = None"
    "cf_history c1 = [(0 :: nat, TB_SetClientClusterVersion 0, TR_void)]"
    using guarded_call [OF start _ _ _ tb_forwards, of 0 "TM_SetClientClusterVersion 0" "Some (TR_void, example_world)" ?s0
        TR_void ?s0] v
    by (auto simp: ThreadsafeBlockingKineticConnection_def initial_config_def mx_free_def torn_init_def)
  obtain res out b w where run: "b_exec example_lib answering_env (B_Get [7]) no_outputs example_blocking example_world =
      (res, out, b, w)" by (metis prod_cases4)
  with answered_run have res: "res = Returned (KineticStatus0 OK '''')" by (auto split: op_result.splits)
  obtain c2 where "mreach tb_dispatch torn_init ?act ?s0 c2" "cf_run c2 = (\<lambda>_. None)"
    "cf_history c2 = cf_history c1 @ [(1, TB_Op (B_Get [7]) answering_env no_outputs, TR_status res out)]"
    using guarded_call [OF c1(1,5) _ _ tb_forwards, of 1 "TM_Op (B_Get [7]) answering_env no_outputs"
        "Some (TR_status res out, w)" "(b, example_world)" "TR_status res out" "(b, w)"] c1 run
    by (auto simp: torn_init_def simp del: b_exec.simps)
  with c1(6) res show ?thesis by auto
qed

theorem blocking_calls_linearizable_witness:
  "\<exists>b w b' w' out. b_reach example_lib b w \<and>
     tb_exec example_lib (TB_Op (B_Get [7]) answering_env no_outputs) (b, w) =
       (TR_status (Returned (KineticStatus0 OK '''')) out, b', w')"
proof -
  obtain c out where c: "mreach tb_dispatch torn_init (torn_act (tb_exec example_lib)) (example_blocking, example_world) c"
    "cf_history c = [(0 :: nat, TB_SetClientClusterVersion 0, TR_void),
       (1, TB_Op (B_Get [7]) answering_env no_outputs, TR_status (Returned (KineticStatus0 OK '''')) out)]"
    using example_blocking_run by blast
  from blocking_calls_linearizable [OF c(1) torn_implements example_reach_world] c(2) show ?thesis by fastforce
qed

end
