(* ===== verification/Factory.thy ===== *)
theory Factory
  imports Socket Threadsafe_Nonblocking Threadsafe_Blocking
begin

text \<open>
  \<open>KineticConnectionFactory\<close> (\<open>kinetic_connection_factory.cc\<close>): opening a socket, completing the
  handshake with the drive and putting the parts of a connection together. An exception on the way
  becomes the error of the returned \<open>Status\<close>, and unwinding the stack destroys the socket wrapper.

  A caller's connection pointer is an option: None is null. The descriptors that are open are passed
  through, so that a leak can be seen.
\<close>

section \<open>The environment\<close>

text \<open>
  What the libraries answer while a connection is made: OpenSSL's constructors, the addresses of the
  host, the answers of \<open>SSL_connect\<close>, and for the handshake the clock and the bytes that arrive.
\<close>

record factory_env =
  fe_ctx_ok :: bool
  fe_ssl_ok :: bool
  fe_addresses :: "address list option"
  fe_ssl :: "ssl_answer list"
  fe_start :: int
  fe_rounds :: "(rd_event list \<times> int) list"

text \<open>
  How a factory method ends: it returns a status with the caller's pointer as it is then and the open
  descriptors; or it is still waiting for the network; or a glog \<open>CHECK\<close> ended the process.
\<close>

datatype 'p made =
    Made (made_status: fstatus) (made_pointer: 'p) (made_fds: "int list")
  | Still_waiting
  | Process_ended

section \<open>The methods\<close>

definition connection_error :: "string \<Rightarrow> fstatus" where
  "connection_error what = Status_makeInternalError (''Connection error: '' @ what)"

text \<open>The application's view of the world starts with an empty log; the bytes carry on.\<close>

definition app_world :: "hs_handler world \<Rightarrow> 'c hworld" where
  "app_world w = \<lparr>w_rd = w_rd w, w_wr = w_wr w, w_out = w_out w, w_log = []\<rparr>"

definition doNewConnection ::
    "codec \<Rightarrow> factory_env \<Rightarrow> connection_options \<Rightarrow> ('c connection \<times> 'c hworld) option \<Rightarrow> int list
     \<Rightarrow> ('c connection \<times> 'c hworld) option made" where
  "doNewConnection cx fe options connection fds =
     (case SocketWrapper (fe_ctx_ok fe) (fe_ssl_ok fe) (co_use_ssl options) True of
        Inl what \<Rightarrow> Made (connection_error what) connection fds
      | Inr so \<Rightarrow>
          (case Connect (fe_addresses fe) (fe_ssl fe) so fds of
             (None, so', peer, fds') \<Rightarrow> Still_waiting
           | (Some False, so', peer, fds') \<Rightarrow>
               Made (connection_error ''Could not connect to socket.'') connection (so_destroy so' fds')
           | (Some True, so', peer, fds') \<Rightarrow>
               (case NonblockingReceiver cx options (fe_start fe) (fe_rounds fe) of
                  HS_waiting r w \<Rightarrow> Still_waiting
                | HS_crash \<Rightarrow> Process_ended
                | HS_exception what \<Rightarrow> Made (connection_error what) connection (so_destroy so' fds')
                | HS_ready receiver w \<Rightarrow>
                    let sender = new_sender options;
                        service = new_service (so_fd so') sender (r_after_handshake receiver)
                    in Made Status_makeOk (Some (NonblockingKineticConnection service, app_world w)) fds')))"

definition NewNonblockingConnection ::
    "codec \<Rightarrow> factory_env \<Rightarrow> connection_options \<Rightarrow> ('c connection \<times> 'c hworld) option \<Rightarrow> int list
     \<Rightarrow> ('c connection \<times> 'c hworld) option made" where
  "NewNonblockingConnection cx fe options connection fds = doNewConnection cx fe options connection fds"

text \<open>
  The other methods make the inner connection behind a local pointer, null at first, and wrap it where
  the status is fine.
\<close>

fun wrap :: "('q \<Rightarrow> 'p) \<Rightarrow> 'p option \<Rightarrow> 'q option made \<Rightarrow> 'p option made" where
  "wrap f connection (Made status inner fds) =
     (if Status_ok status then Made status (map_option f inner) fds else Made status connection fds)"
| "wrap f connection Still_waiting = Still_waiting"
| "wrap f connection Process_ended = Process_ended"

definition NewSharedNonblockingConnection ::
    "codec \<Rightarrow> factory_env \<Rightarrow> connection_options \<Rightarrow> ('c connection \<times> 'c hworld) option \<Rightarrow> int list
     \<Rightarrow> ('c connection \<times> 'c hworld) option made" where
  "NewSharedNonblockingConnection cx fe options connection fds =
     wrap (\<lambda>nbc. nbc) connection (doNewConnection cx fe options None fds)"

definition NewThreadsafeNonblockingConnection ::
    "codec \<Rightarrow> factory_env \<Rightarrow> connection_options
     \<Rightarrow> ('t, 'op, 'l, 'c connection \<times> 'c hworld, 'r) config option \<Rightarrow> int list
     \<Rightarrow> ('t, 'op, 'l, 'c connection \<times> 'c hworld, 'r) config option made" where
  "NewThreadsafeNonblockingConnection cx fe options connection fds =
     wrap (\<lambda>(n, w). ThreadsafeNonblockingKineticConnection n w) connection
       (doNewConnection cx fe options None fds)"

definition NewBlockingConnection ::
    "codec \<Rightarrow> factory_env \<Rightarrow> connection_options \<Rightarrow> (blocking \<times> nat hworld) option \<Rightarrow> uint32 \<Rightarrow> int list
     \<Rightarrow> (blocking \<times> nat hworld) option made" where
  "NewBlockingConnection cx fe options connection network_timeout_seconds fds =
     wrap (\<lambda>(n, w). (BlockingKineticConnection n network_timeout_seconds, w)) connection
       (doNewConnection cx fe options None fds)"

definition NewThreadsafeBlockingConnection ::
    "codec \<Rightarrow> factory_env \<Rightarrow> connection_options
     \<Rightarrow> ('t, 'op, 'l, blocking \<times> nat hworld, 'r) config option \<Rightarrow> uint32 \<Rightarrow> int list
     \<Rightarrow> ('t, 'op, 'l, blocking \<times> nat hworld, 'r) config option made" where
  "NewThreadsafeBlockingConnection cx fe options connection network_timeout_seconds fds =
     wrap (\<lambda>(b, w). ThreadsafeBlockingKineticConnection b w) connection
       (NewBlockingConnection cx fe options None network_timeout_seconds fds)"

section \<open>What a method returns\<close>

lemma Status_ok_simps [simp]:
  "Status_ok Status_makeOk" "\<not> Status_ok (connection_error what)"
  by (simp_all add: Status_ok_def Status_makeOk_def connection_error_def Status_makeInternalError_def)

text \<open>
  A result is sound if it either reports success with a good connection on a fresh descriptor, or an
  error, the pointer unchanged and no descriptor left open.
\<close>

definition sound_result :: "('p \<Rightarrow> int \<Rightarrow> bool) \<Rightarrow> 'p option \<Rightarrow> int list \<Rightarrow> 'p option made \<Rightarrow> bool" where
  "sound_result good connection fds res =
     (case res of
        Made status pointer fds' \<Rightarrow>
          if Status_ok status
          then (\<exists>p fd. pointer = Some p \<and> fds' = fd # fds \<and> fd \<notin> set fds \<and> 0 \<le> fd \<and> good p fd)
          else pointer = connection \<and> fds' = fds \<and> (\<exists>what. status = connection_error what)
      | Still_waiting \<Rightarrow> True
      | Process_ended \<Rightarrow> False)"

lemma wrap_sound:
  assumes "sound_result good None fds res" and "\<And>q fd. good q fd \<Longrightarrow> good' (f q) fd"
  shows "sound_result good' connection fds (wrap f connection res)"
  using assms by (cases res) (auto simp: sound_result_def)

lemma sound_mono:
  "sound_result good connection fds res \<Longrightarrow> (\<And>p fd. good p fd \<Longrightarrow> good' p fd) \<Longrightarrow> sound_result good' connection fds res"
  by (cases res) (auto simp: sound_result_def split: if_splits)

definition fresh_connection :: "connection_options \<Rightarrow> 'c connection \<times> 'c hworld \<Rightarrow> int \<Rightarrow> bool" where
  "fresh_connection options p fd \<longleftrightarrow>
     (\<exists>r w. p = (NonblockingKineticConnection (new_service fd (new_sender options) r), w) \<and>
        r_map r = [] \<and> r_key_map r = [] \<and> r_handler r = None \<and> r_live r \<and> w_log w = [])"

lemma receiver_ready:
  "case NonblockingReceiver cx opts start rounds of
     HS_crash \<Rightarrow> False
   | HS_ready r w \<Rightarrow> r_live r
   | HS_exception s \<Rightarrow> s = ''Could not complete handshake.''
   | HS_waiting r w \<Rightarrow> True"
  using hs_loop_outcome [OF hs_inv_initial [of opts "[]" "[]" "[]"], where cx = cx and start = start and rounds = rounds]
  unfolding NonblockingReceiver_def by (auto split: hs_result.splits)

lemma doNewConnection_sound:
  "sound_result (fresh_connection options) connection fds (doNewConnection cx fe options connection fds)"
proof (cases "SocketWrapper (fe_ctx_ok fe) (fe_ssl_ok fe) (co_use_ssl options) True")
  case (Inl what)
  then show ?thesis by (simp add: doNewConnection_def sound_result_def) blast
next
  case (Inr so)
  then have so: "so_fd so = - 1" by (auto simp: SocketWrapper_def split: if_splits)
  obtain res so' peer fds' where c: "Connect (fe_addresses fe) (fe_ssl fe) so fds = (res, so', peer, fds')" by (metis prod_cases4)
  note own = Connect_owns [OF c so]
  have d: "so_destroy so' fds' = fds" using own by (intro so_destroy_owns) simp
  show ?thesis
  proof (cases "res = Some True")
    case False
    then show ?thesis using Inr c d
      by (auto simp: doNewConnection_def sound_result_def split: option.split bool.split)
  next
    case True
    with own have fds': "fds' = so_fd so' # fds" "so_fd so' \<notin> set fds" "0 \<le> so_fd so'"
      by (auto simp: owns_def split: if_splits)
    show ?thesis using Inr c d True receiver_ready [of cx options "fe_start fe" "fe_rounds fe"] fds'
      by (auto simp: doNewConnection_def sound_result_def fresh_connection_def app_world_def r_after_handshake_def
          r_live_def split: hs_result.splits)
  qed
qed

lemma fresh_reach:
  "fresh_connection options (n, w) fd \<Longrightarrow> n_reach cx n w {#} {#} \<and> v_fd (n_service n) = fd"
  by (auto simp: fresh_connection_def intro: n_start)
    (simp add: NonblockingKineticConnection_def new_service_def)

lemma fresh_blocking:
  "fresh_connection options (n, w) fd \<Longrightarrow> b_reach lib (BlockingKineticConnection n timeout) w"
  by (auto simp: fresh_connection_def intro: b_start)

text \<open>A drive on the second address of its host that shakes hands in two rounds.\<close>

definition example_address :: address where
  "example_address = \<lparr>ad_addr = ''drive'', ad_nameinfo = True, ad_socket = True, ad_getfd = True, ad_setfd = True,
     ad_nosigpipe = True, ad_connect = True, ad_setfl = True\<rparr>"

lemma factory_example:
  "case NewNonblockingConnection
      (example_codec\<lparr>cx_parse_message := (\<lambda>bs. Some (new_message\<lparr>msg_authtype := UNSOLICITEDSTATUS,
         msg_commandbytes := bs\<rparr>))\<rparr>)
      \<lparr>fe_ctx_ok = True, fe_ssl_ok = True, fe_addresses = Some [example_address\<lparr>ad_connect := False\<rparr>, example_address],
       fe_ssl = [Ssl_connected], fe_start = 0,
       fe_rounds = [([Rd_bytes [70, 0, 0, 0, 1, 0]], 1), ([Rd_bytes [0, 0, 0, 9]], 2)]\<rparr>
      example_options (None :: (nat connection \<times> nat hworld) option) [0, 1, 2] of
     Made st (Some (n, w)) fds \<Rightarrow> Status_ok st \<and> fds = [3, 0, 1, 2] \<and> v_fd (n_service n) = 3
   | _ \<Rightarrow> False"
  by code_simp

section \<open>What the factory promises\<close>

text \<open>
  C13: A connection that the factory makes is well formed, and a failed attempt leaves nothing behind.
  However the libraries, the network and the drive answer: if the status is fine, the caller's pointer
  holds a connection in the state from which every history of the API starts, on the one new
  descriptor; so what is proved of those histories holds for every connection that an application
  can have. If the status is an error, it says \<open>Connection error\<close>, the pointer is what it was and
  every descriptor that was opened is closed again. The process is never ended by a failed check.
\<close>

theorem factory_connection_wellformed:
  "case NewNonblockingConnection cx fe options connection fds of
     Made status pointer fds' \<Rightarrow>
       (if Status_ok status
        then (\<exists>n w. pointer = Some (n, w) \<and> n_reach cx n w {#} {#} \<and>
               fds' = v_fd (n_service n) # fds \<and> v_fd (n_service n) \<notin> set fds)
        else pointer = connection \<and> fds' = fds \<and> (\<exists>what. status = connection_error what))
   | Still_waiting \<Rightarrow> True
   | Process_ended \<Rightarrow> False"
  using doNewConnection_sound [of options connection fds cx fe]
  by (fastforce simp: NewNonblockingConnection_def sound_result_def dest: fresh_reach split: made.splits if_splits)

text \<open>
  The same for the blocking and the thread-safe connections, each of which wraps the other: with a
  fine status the caller's pointer holds an object in the starting state of its class, around a new
  connection and with a free mutex; with an error the caller's pointer and the open descriptors are
  unchanged.
\<close>

lemma factory_wraps_connections:
  "sound_result (\<lambda>(b, w) fd. b_reach lib b w \<and> bl_timeout b = timeout) bc fds
     (NewBlockingConnection cx fe options bc timeout fds) \<and>
   sound_result (\<lambda>c fd. \<exists>n w. n_reach cx n w {#} {#} \<and> mreach tn_dispatch init act (n, w) c) tnc fds
     (NewThreadsafeNonblockingConnection cx fe options tnc fds) \<and>
   sound_result (\<lambda>c fd. \<exists>b w. b_reach lib b w \<and> mreach tb_dispatch init' act' (b, w) c) tbc fds
     (NewThreadsafeBlockingConnection cx fe options tbc timeout fds)"
proof -
  have b: "sound_result (\<lambda>(b, w) fd. b_reach lib b w \<and> bl_timeout b = timeout) bc fds
      (NewBlockingConnection cx fe options bc timeout fds)" for bc
    unfolding NewBlockingConnection_def
    by (rule wrap_sound [OF doNewConnection_sound]) (auto simp: BlockingKineticConnection_def
        dest: fresh_blocking [where timeout = timeout, unfolded BlockingKineticConnection_def])
  moreover have "sound_result (\<lambda>c fd. \<exists>n w. n_reach cx n w {#} {#} \<and> mreach tn_dispatch init act (n, w) c) tnc fds
      (NewThreadsafeNonblockingConnection cx fe options tnc fds)"
    unfolding NewThreadsafeNonblockingConnection_def
    by (rule wrap_sound [OF doNewConnection_sound])
      (force simp: ThreadsafeNonblockingKineticConnection_def dest: fresh_reach [where cx = cx] intro: mr_start)
  moreover have "sound_result (\<lambda>c fd. \<exists>b w. b_reach lib b w \<and> mreach tb_dispatch init' act' (b, w) c) tbc fds
      (NewThreadsafeBlockingConnection cx fe options tbc timeout fds)"
    unfolding NewThreadsafeBlockingConnection_def
    by (rule wrap_sound [OF b]) (force simp: ThreadsafeBlockingKineticConnection_def intro: mr_start)
  ultimately show ?thesis by blast
qed

end
