(* ===== verification/Streams.thy ===== *)
theory Streams
  imports Packet
begin

text \<open>
  The blocking byte transport of the library: \<open>ReaderWriter\<close> (\<open>reader_writer.cc\<close>), the values that
  are sent and received (\<open>incoming_string_value.cc\<close>, \<open>outgoing_string_value.cc\<close>), the two kinds of
  byte stream (\<open>byte_stream.cc\<close>) and the messages on them (\<open>message_stream.cc\<close>).

  A descriptor is the two scripts of system calls that its reads and writes consume, and the bytes that
  were sent on it. The locale \<open>byte_stream\<close> is \<open>ByteStreamInterface\<close> as \<open>MessageStream\<close> relies on it.
\<close>

section \<open>A descriptor\<close>

record channel =
  ch_rd :: "rd_event list"
  ch_wr :: "wr_event list"
  ch_sent :: bytes

definition ch_incoming :: "channel \<Rightarrow> bytes" where
  "ch_incoming ch = rd_data (ch_rd ch)"

section \<open>ReaderWriter\<close>

definition SOCKET_TIMEOUT :: nat where
  "SOCKET_TIMEOUT = 20000"

text \<open>A call that fails uses up an event, unless the script is exhausted.\<close>

lemma sys_read_retry:
  "sys_read n evs = (Inl e, evs') \<Longrightarrow> rd_size evs' < rd_size evs \<or> (e = EAGAIN \<and> evs = [] \<and> evs' = [])"
  by (induction n evs rule: sys_read.induct) (auto split: if_splits)

lemma sys_send_retry:
  "sys_send n evs = (Inl e, evs') \<Longrightarrow> length evs' < length evs \<or> (e = EAGAIN \<and> evs = [] \<and> evs' = [])"
  by (induction n evs rule: sys_send.induct) auto

text \<open>
  The result, the error number where \<open>*err\<close> is set, and what is in the buffer. Each time the socket
  would block the loop sleeps for half a millisecond and counts.
\<close>

function rw_read_loop ::
    "nat \<Rightarrow> nat \<Rightarrow> bytes \<Rightarrow> rd_event list \<Rightarrow> bool \<times> errno option \<times> bytes \<times> rd_event list" where
  "rw_read_loop n socket_timeout buf evs =
     (if length buf < n \<and> socket_timeout < SOCKET_TIMEOUT then
        (case sys_read (n - length buf) evs of
           (Inl e, evs') \<Rightarrow>
             if e = EINTR then rw_read_loop n socket_timeout buf evs'
             else if e = EAGAIN \<or> e = EWOULDBLOCK then rw_read_loop n (Suc socket_timeout) buf evs'
             else (False, Some e, buf, evs')
         | (Inr bs, evs') \<Rightarrow>
             if bs = [] then (False, None, buf, evs')
             else rw_read_loop n socket_timeout (buf @ bs) evs')
      else if SOCKET_TIMEOUT \<le> socket_timeout then (False, None, buf, evs)
      else (True, None, buf, evs))"
  by pat_completeness auto
termination
  by (relation "measure (\<lambda>(n, t, buf, evs). rd_size evs + (SOCKET_TIMEOUT - t))")
    (auto dest!: sys_read_size [OF sym] sys_read_retry [OF sym])

declare rw_read_loop.simps [simp del]

definition rw_Read :: "nat \<Rightarrow> channel \<Rightarrow> bool \<times> errno option \<times> bytes \<times> channel" where
  "rw_Read n ch =
     (case rw_read_loop n 0 [] (ch_rd ch) of (ok, err, buf, evs) \<Rightarrow> (ok, err, buf, ch\<lparr>ch_rd := evs\<rparr>))"

function rw_write_loop ::
    "bytes \<Rightarrow> nat \<Rightarrow> nat \<Rightarrow> wr_event list \<Rightarrow> bool \<times> nat \<times> wr_event list" where
  "rw_write_loop buf socket_timeout bytes_written evs =
     (if bytes_written < length buf \<and> socket_timeout < SOCKET_TIMEOUT then
        (case sys_send (length buf - bytes_written) evs of
           (Inl e, evs') \<Rightarrow>
             if e = EINTR then rw_write_loop buf socket_timeout bytes_written evs'
             else if e = EAGAIN \<or> e = EWOULDBLOCK then rw_write_loop buf (Suc socket_timeout) bytes_written evs'
             else (False, bytes_written, evs')
         | (Inr k, evs') \<Rightarrow>
             if k = 0 then (False, bytes_written, evs')
             else rw_write_loop buf socket_timeout (bytes_written + k) evs')
      else if SOCKET_TIMEOUT \<le> socket_timeout then (False, bytes_written, evs)
      else (True, bytes_written, evs))"
  by pat_completeness auto
termination
  by (relation "measure (\<lambda>(buf, t, n, evs). length evs + (SOCKET_TIMEOUT - t))")
    (auto dest!: sys_send_length(1) [OF sym] sys_send_retry [OF sym])

declare rw_write_loop.simps [simp del]

definition rw_Write :: "bytes \<Rightarrow> channel \<Rightarrow> bool \<times> channel" where
  "rw_Write buf ch =
     (case rw_write_loop buf 0 0 (ch_wr ch) of
        (ok, n, evs) \<Rightarrow> (ok, ch\<lparr>ch_wr := evs, ch_sent := ch_sent ch @ take n buf\<rparr>))"

section \<open>Values\<close>

text \<open>\<open>OutgoingStringValue\<close>: what it sends and how long it is.\<close>

record outgoing_value =
  ov_s :: bytes

definition ov_size :: "outgoing_value \<Rightarrow> nat" where
  "ov_size v = length (ov_s v)"

definition ov_TransferToSocket :: "outgoing_value \<Rightarrow> channel \<Rightarrow> bool \<times> channel" where
  "ov_TransferToSocket v ch = rw_Write (ov_s v) ch"

definition ov_ToString :: "outgoing_value \<Rightarrow> bool \<times> bytes" where
  "ov_ToString v = (True, ov_s v)"

text \<open>\<open>IncomingStringValue\<close> hands its contents out at most once.\<close>

record incoming_value =
  iv_s :: bytes
  iv_defunct :: bool

definition IncomingStringValue :: "bytes \<Rightarrow> incoming_value" where
  "IncomingStringValue s = \<lparr>iv_s = s, iv_defunct = False\<rparr>"

definition iv_size :: "incoming_value \<Rightarrow> nat" where
  "iv_size v = length (iv_s v)"

definition iv_TransferToFile :: "incoming_value \<Rightarrow> channel \<Rightarrow> bool \<times> incoming_value \<times> channel" where
  "iv_TransferToFile v file =
     (if iv_defunct v then (False, v, file)
      else (case rw_Write (iv_s v) file of (ok, file') \<Rightarrow> (ok, v\<lparr>iv_defunct := True\<rparr>, file')))"

definition iv_ToString :: "incoming_value \<Rightarrow> bytes \<Rightarrow> bool \<times> bytes \<times> incoming_value" where
  "iv_ToString v result =
     (if iv_defunct v then (False, result, v)
      else (True, iv_s v, v\<lparr>iv_defunct := True\<rparr>))"

definition iv_Consume :: "incoming_value \<Rightarrow> incoming_value" where
  "iv_Consume v = v\<lparr>iv_defunct := True\<rparr>"

section \<open>Byte streams\<close>

text \<open>\<open>PlainByteStream\<close>; the application's factory makes the values out of the descriptor.\<close>

definition plain_Read :: "nat \<Rightarrow> channel \<Rightarrow> bool \<times> bytes \<times> channel" where
  "plain_Read n ch = (case rw_Read n ch of (ok, err, buf, ch') \<Rightarrow> (ok, buf, ch'))"

definition plain_Write :: "bytes \<Rightarrow> channel \<Rightarrow> bool \<times> channel" where
  "plain_Write buf ch = rw_Write buf ch"

definition plain_ReadValue ::
    "(nat \<Rightarrow> channel \<Rightarrow> 'v option \<times> channel) \<Rightarrow> nat \<Rightarrow> channel \<Rightarrow> 'v option \<times> channel" where
  "plain_ReadValue NewValue n ch = NewValue n ch"

definition plain_WriteValue :: "outgoing_value \<Rightarrow> channel \<Rightarrow> bool \<times> channel" where
  "plain_WriteValue v ch = ov_TransferToSocket v ch"

text \<open>
  \<open>SslByteStream\<close>. \<open>SSL_read\<close> and \<open>SSL_write\<close> take the length as an \<open>int\<close>; one that is not positive
  after the conversion is refused. A failure of any kind, also one that only asks to wait, ends the
  loop.
\<close>

definition int_arg :: "nat \<Rightarrow> int" where
  "int_arg n = sint (of_nat n :: 32 word)"

definition SSL_read :: "nat \<Rightarrow> rd_event list \<Rightarrow> (errno + bytes) \<times> rd_event list" where
  "SSL_read n evs = (if int_arg n \<le> 0 then (Inl (Errno 0), evs) else sys_read (nat (int_arg n)) evs)"

definition SSL_write :: "nat \<Rightarrow> wr_event list \<Rightarrow> (errno + nat) \<times> wr_event list" where
  "SSL_write n evs = (if int_arg n \<le> 0 then (Inl (Errno 0), evs) else sys_send (nat (int_arg n)) evs)"

function ssl_read_loop :: "nat \<Rightarrow> bytes \<Rightarrow> rd_event list \<Rightarrow> bool \<times> bytes \<times> rd_event list" where
  "ssl_read_loop n buf evs =
     (if length buf < n then
        (case SSL_read (n - length buf) evs of
           (Inr bs, evs') \<Rightarrow> if bs = [] then (False, buf, evs') else ssl_read_loop n (buf @ bs) evs'
         | (Inl e, evs') \<Rightarrow> (False, buf, evs'))
      else (True, buf, evs))"
  by pat_completeness auto
termination
  by (relation "measure (\<lambda>(n, buf, evs). rd_size evs)")
    (auto simp: SSL_read_def split: if_splits dest!: sys_read_size [OF sym])

declare ssl_read_loop.simps [simp del]

definition ssl_Read :: "nat \<Rightarrow> channel \<Rightarrow> bool \<times> bytes \<times> channel" where
  "ssl_Read n ch =
     (if n = 0 then (True, [], ch)
      else (case ssl_read_loop n [] (ch_rd ch) of (ok, buf, evs) \<Rightarrow> (ok, buf, ch\<lparr>ch_rd := evs\<rparr>)))"

function ssl_write_loop :: "bytes \<Rightarrow> nat \<Rightarrow> wr_event list \<Rightarrow> bool \<times> nat \<times> wr_event list" where
  "ssl_write_loop buf written evs =
     (if written < length buf then
        (case SSL_write (length buf - written) evs of
           (Inr k, evs') \<Rightarrow> if k = 0 then (False, written, evs') else ssl_write_loop buf (written + k) evs'
         | (Inl e, evs') \<Rightarrow> (False, written, evs'))
      else (True, written, evs))"
  by pat_completeness auto
termination
  by (relation "measure (\<lambda>(buf, written, evs). length evs)")
    (auto simp: SSL_write_def split: if_splits dest!: sys_send_length(1) [OF sym])

declare ssl_write_loop.simps [simp del]

definition ssl_Write :: "bytes \<Rightarrow> channel \<Rightarrow> bool \<times> channel" where
  "ssl_Write buf ch =
     (if buf = [] then (True, ch)
      else (case ssl_write_loop buf 0 (ch_wr ch) of
              (ok, n, evs) \<Rightarrow> (ok, ch\<lparr>ch_wr := evs, ch_sent := ch_sent ch @ take n buf\<rparr>)))"

definition ssl_ReadValue :: "nat \<Rightarrow> channel \<Rightarrow> incoming_value option \<times> channel" where
  "ssl_ReadValue n ch =
     (case ssl_Read n ch of
        (ok, buf, ch') \<Rightarrow> if \<not> ok then (None, ch') else (Some (IncomingStringValue buf), ch'))"

definition ssl_WriteValue :: "outgoing_value \<Rightarrow> channel \<Rightarrow> bool \<times> channel" where
  "ssl_WriteValue v ch =
     (case ov_ToString v of (ok, s) \<Rightarrow> if \<not> ok then (False, ch) else ssl_Write s ch)"

section \<open>MessageStream\<close>

datatype read_status =
    MessageStreamReadStatus_SUCCESS
  | MessageStreamReadStatus_INTERNAL_ERROR
  | MessageStreamReadStatus_TOO_LARGE

definition ms_ReadHeader ::
    "(nat \<Rightarrow> 's \<Rightarrow> bool \<times> bytes \<times> 's) \<Rightarrow> 's \<Rightarrow> (uint32 \<times> uint32) option \<times> 's" where
  "ms_ReadHeader Read s =
     (case Read 9 s of
        (ok, header, s') \<Rightarrow>
          if \<not> ok then (None, s')
          else if header ! 0 \<noteq> magic_byte then (None, s')
          else (Some (unbe32 (take 4 (drop 1 header)), unbe32 (take 4 (drop 5 header))), s'))"

definition ms_WriteHeader :: "(bytes \<Rightarrow> 's \<Rightarrow> bool \<times> 's) \<Rightarrow> uint32 \<Rightarrow> uint32 \<Rightarrow> 's \<Rightarrow> bool \<times> 's" where
  "ms_WriteHeader Write message_size value_size s =
     Write (magic_byte # be32 message_size @ be32 value_size) s"

text \<open>The status, the message and the value that the caller gets.\<close>

definition ms_ReadMessage ::
    "(bytes \<Rightarrow> 'm option) \<Rightarrow> (nat \<Rightarrow> 's \<Rightarrow> bool \<times> bytes \<times> 's) \<Rightarrow> (nat \<Rightarrow> 's \<Rightarrow> 'v option \<times> 's) \<Rightarrow> uint32 \<Rightarrow> 's
     \<Rightarrow> read_status \<times> 'm option \<times> 'v option \<times> 's" where
  "ms_ReadMessage parse Read ReadValue max_message_size_bytes s =
     (case ms_ReadHeader Read s of
        (None, s1) \<Rightarrow> (MessageStreamReadStatus_INTERNAL_ERROR, None, None, s1)
      | (Some (message_size, value_size), s1) \<Rightarrow>
          if message_size > max_message_size_bytes then (MessageStreamReadStatus_TOO_LARGE, None, None, s1)
          else
            (case Read (unat message_size) s1 of
               (ok, message_bytes, s2) \<Rightarrow>
                 if \<not> ok then (MessageStreamReadStatus_INTERNAL_ERROR, None, None, s2)
                 else
                   (case parse message_bytes of
                      None \<Rightarrow> (MessageStreamReadStatus_INTERNAL_ERROR, None, None, s2)
                    | Some message \<Rightarrow>
                        (case ReadValue (unat value_size) s2 of
                           (None, s3) \<Rightarrow> (MessageStreamReadStatus_INTERNAL_ERROR, Some message, None, s3)
                         | (Some v, s3) \<Rightarrow> (MessageStreamReadStatus_SUCCESS, Some message, Some v, s3)))))"

text \<open>\<open>ByteSize\<close> and \<open>SerializeToString\<close> belong to the generated message classes.\<close>

definition ms_WriteMessage ::
    "('m \<Rightarrow> int) \<Rightarrow> ('m \<Rightarrow> bytes option) \<Rightarrow> (bytes \<Rightarrow> 's \<Rightarrow> bool \<times> 's) \<Rightarrow> (outgoing_value \<Rightarrow> 's \<Rightarrow> bool \<times> 's)
     \<Rightarrow> 'm \<Rightarrow> outgoing_value \<Rightarrow> 's \<Rightarrow> int \<times> 's" where
  "ms_WriteMessage byte_size serialize Write WriteValue message v s =
     (case ms_WriteHeader Write (of_int (byte_size message)) (of_nat (ov_size v)) s of
        (ok, s1) \<Rightarrow>
          if \<not> ok then (1, s1)
          else
            (case serialize message of
               None \<Rightarrow> (2, s1)
             | Some message_string \<Rightarrow>
                 (case Write message_string s1 of
                    (ok, s2) \<Rightarrow>
                      if \<not> ok then (3, s2)
                      else
                        (case WriteValue v s2 of (ok, s3) \<Rightarrow> if \<not> ok then (4, s3) else (0, s3)))))"

section \<open>MessageStreamFactory\<close>

text \<open>
  The factory owns the SSL object that it made last. An SSL object is known by a number; freeing one
  that is not alive has no defined behaviour and is None.
\<close>

record ssl_heap =
  sh_live :: "nat list"
  sh_next :: nat

definition SSL_new :: "bool \<Rightarrow> ssl_heap \<Rightarrow> nat option \<times> ssl_heap" where
  "SSL_new ok h =
     (if ok then (Some (sh_next h), h\<lparr>sh_live := sh_next h # sh_live h, sh_next := Suc (sh_next h)\<rparr>) else (None, h))"

definition SSL_free :: "nat \<Rightarrow> ssl_heap \<Rightarrow> ssl_heap option" where
  "SSL_free p h = (if p \<in> set (sh_live h) then Some (h\<lparr>sh_live := removeAll p (sh_live h)\<rparr>) else None)"

record stream_factory =
  mf_ssl :: "nat option"
  mf_ssl_created :: bool

definition MessageStreamFactory :: stream_factory where
  "MessageStreamFactory = \<lparr>mf_ssl = None, mf_ssl_created = False\<rparr>"

text \<open>What OpenSSL answers to \<open>SSL_new\<close>, \<open>SSL_set_fd\<close> and \<open>SSL_accept\<close>.\<close>

record accept_env =
  ae_new :: bool
  ae_set_fd :: bool
  ae_accept :: bool

datatype stream_kind = Over_ssl nat | Over_plain

definition NewMessageStream ::
    "accept_env \<Rightarrow> bool \<Rightarrow> nat option \<Rightarrow> stream_factory \<Rightarrow> ssl_heap
     \<Rightarrow> (bool \<times> stream_kind option \<times> stream_factory \<times> ssl_heap) option" where
  "NewMessageStream env use_ssl ssl f h =
     (if use_ssl then
        (case ssl of
           Some p \<Rightarrow> Some (True, Some (Over_ssl p), f, h)
         | None \<Rightarrow>
             (case SSL_new (ae_new env) h of
                (None, h1) \<Rightarrow> Some (False, None, f\<lparr>mf_ssl := None\<rparr>, h1)
              | (Some p, h1) \<Rightarrow>
                  let f1 = f\<lparr>mf_ssl := Some p\<rparr> in
                  if \<not> ae_set_fd env then map_option (\<lambda>h2. (False, None, f1, h2)) (SSL_free p h1)
                  else if \<not> ae_accept env then map_option (\<lambda>h2. (False, None, f1, h2)) (SSL_free p h1)
                  else Some (True, Some (Over_ssl p), f1\<lparr>mf_ssl_created := True\<rparr>, h1)))
      else Some (True, Some Over_plain, f, h))"

definition mf_destroy :: "stream_factory \<Rightarrow> ssl_heap \<Rightarrow> ssl_heap option" where
  "mf_destroy f h =
     (if mf_ssl_created f then (case mf_ssl f of None \<Rightarrow> Some h | Some p \<Rightarrow> SSL_free p h) else Some h)"

text \<open>A factory that is used once gives every SSL object back.\<close>

lemma stream_factory_once:
  assumes "sh_next h \<notin> set (sh_live h)"
  shows "\<exists>ok kind f' h' h''. NewMessageStream env use_ssl None MessageStreamFactory h = Some (ok, kind, f', h') \<and>
    mf_destroy f' h' = Some h'' \<and> sh_live h'' = sh_live h \<and> (ok \<longleftrightarrow> kind \<noteq> None) \<and>
    (ok \<longleftrightarrow> \<not> use_ssl \<or> ae_new env \<and> ae_set_fd env \<and> ae_accept env)"
  using assms
  by (auto simp: NewMessageStream_def SSL_new_def SSL_free_def mf_destroy_def MessageStreamFactory_def Let_def)

text \<open>
  One that is used twice frees an SSL object twice, if the first handshake succeeds and the second one
  fails: \<open>ssl_created_\<close> is still set, and \<open>ssl_\<close> is the object that the second call freed.
\<close>

lemma stream_factory_double_free:
  assumes "sh_next h \<notin> set (sh_live h)" and "ae_new env" "ae_set_fd env" "ae_accept env"
    and "NewMessageStream env True None MessageStreamFactory h = Some (ok, kind, f1, h1)"
    and "NewMessageStream (env\<lparr>ae_accept := False\<rparr>) True None f1 h1 = Some (ok', kind', f2, h2)"
  shows "ok \<and> \<not> ok' \<and> mf_destroy f2 h2 = None"
  using assms
  by (auto simp: NewMessageStream_def SSL_new_def SSL_free_def mf_destroy_def MessageStreamFactory_def Let_def)

section \<open>What the loops do\<close>

lemma rw_read_post:
  "rw_read_loop n t buf evs = (ok, err, buf', evs') \<Longrightarrow> length buf \<le> n \<Longrightarrow> t < SOCKET_TIMEOUT \<or> length buf < n \<Longrightarrow>
     length buf' \<le> n \<and> (ok \<longleftrightarrow> length buf' = n) \<and> buf' @ rd_data evs' = buf @ rd_data evs"
proof (induction n t buf evs rule: rw_read_loop.induct)
  case (1 n t buf evs)
  show ?case
  proof (cases "length buf < n \<and> t < SOCKET_TIMEOUT")
    case False
    with "1.prems" show ?thesis by (auto simp: rw_read_loop.simps [of n t buf evs] split: if_splits)
  next
    case True
    obtain res evs1 where sys: "sys_read (n - length buf) evs = (res, evs1)"
      by (cases "sys_read (n - length buf) evs")
    show ?thesis
    proof (cases res)
      case (Inl e)
      with "1.IH"(1,2) [OF True sys [symmetric] Inl] "1.prems" True sys sys_read_err_data [OF sys [unfolded Inl]]
      show ?thesis by (auto simp: rw_read_loop.simps [of n t buf evs] split: if_splits)
    next
      case (Inr bs)
      with "1.IH"(3) [OF True sys [symmetric] Inr] "1.prems" True sys sys_read_data [OF sys [unfolded Inr]]
        sys_read_length [OF sys [unfolded Inr]]
      show ?thesis by (auto simp: rw_read_loop.simps [of n t buf evs] split: if_splits)
    qed
  qed
qed

lemma rw_write_post:
  "rw_write_loop buf t k evs = (ok, k', evs') \<Longrightarrow> k \<le> length buf \<Longrightarrow> t < SOCKET_TIMEOUT \<or> k < length buf \<Longrightarrow>
     k' \<le> length buf \<and> (ok \<longleftrightarrow> k' = length buf)"
proof (induction buf t k evs rule: rw_write_loop.induct)
  case (1 buf t k evs)
  show ?case
  proof (cases "k < length buf \<and> t < SOCKET_TIMEOUT")
    case False
    with "1.prems" show ?thesis by (auto simp: rw_write_loop.simps [of buf t k evs] split: if_splits)
  next
    case True
    obtain res evs1 where sys: "sys_send (length buf - k) evs = (res, evs1)"
      by (cases "sys_send (length buf - k) evs")
    show ?thesis
    proof (cases res)
      case (Inl e)
      with "1.IH"(1,2) [OF True sys [symmetric] Inl] "1.prems" True sys
      show ?thesis by (auto simp: rw_write_loop.simps [of buf t k evs] split: if_splits)
    next
      case (Inr j)
      with "1.IH"(3) [OF True sys [symmetric] Inr] "1.prems" True sys sys_send_bound [OF sys [unfolded Inr]]
      show ?thesis by (auto simp: rw_write_loop.simps [of buf t k evs] split: if_splits)
    qed
  qed
qed

lemma int_arg_le: "int_arg n \<le> int n"
  by (simp add: int_arg_def signed_of_nat signed_take_bit_int_less_eq_self_iff)

lemma int_arg_small: "n < 2 ^ 31 \<Longrightarrow> int_arg n = int n"
  by (simp add: int_arg_def signed_of_nat signed_take_bit_int_eq_self)

lemma SSL_read_data:
  "SSL_read n evs = (Inr bs, evs') \<Longrightarrow> bs @ rd_data evs' = rd_data evs \<and> length bs \<le> n"
  using int_arg_le [of n]
  by (auto simp: SSL_read_def split: if_splits dest: sys_read_data sys_read_length)

lemma SSL_write_bound: "SSL_write n evs = (Inr k, evs') \<Longrightarrow> k \<le> n"
  using int_arg_le [of n] by (auto simp: SSL_write_def split: if_splits dest!: sys_send_bound)

lemma ssl_read_post:
  "ssl_read_loop n buf evs = (ok, buf', evs') \<Longrightarrow> length buf \<le> n \<Longrightarrow>
     length buf' \<le> n \<and> (ok \<longleftrightarrow> length buf' = n) \<and> buf' @ rd_data evs' = buf @ rd_data evs"
proof (induction n buf evs rule: ssl_read_loop.induct)
  case (1 n buf evs)
  obtain res evs1 where sys: "SSL_read (n - length buf) evs = (res, evs1)" by (cases "SSL_read (n - length buf) evs")
  show ?case
  proof (cases res)
    case (Inl e)
    then have "rd_data evs1 = rd_data evs" using sys
      by (auto simp: SSL_read_def split: if_splits dest: sys_read_err_data)
    with "1.prems" sys Inl show ?thesis by (auto simp: ssl_read_loop.simps [of n buf evs] split: if_splits)
  next
    case (Inr bs)
    with sys have "bs @ rd_data evs1 = rd_data evs" "length bs \<le> n - length buf"
      by (auto dest: SSL_read_data)
    with "1.IH" [OF _ sys [symmetric] Inr] "1.prems" sys Inr show ?thesis
      by (auto simp: ssl_read_loop.simps [of n buf evs] split: if_splits)
  qed
qed

lemma ssl_write_post:
  "ssl_write_loop buf k evs = (ok, k', evs') \<Longrightarrow> k \<le> length buf \<Longrightarrow>
     k' \<le> length buf \<and> (ok \<longleftrightarrow> k' = length buf)"
proof (induction buf k evs rule: ssl_write_loop.induct)
  case (1 buf k evs)
  obtain res evs1 where sys: "SSL_write (length buf - k) evs = (res, evs1)" by (cases "SSL_write (length buf - k) evs")
  show ?case
  proof (cases res)
    case (Inl e)
    with "1.prems" sys show ?thesis by (auto simp: ssl_write_loop.simps [of buf k evs] split: if_splits)
  next
    case (Inr j)
    with "1.IH" [OF _ sys [symmetric] Inr] "1.prems" sys SSL_write_bound [OF sys [unfolded Inr]] show ?thesis
      by (auto simp: ssl_write_loop.simps [of buf k evs] split: if_splits)
  qed
qed

text \<open>A script that brings data, or makes the reader wait or try again, but never ends or fails.\<close>

fun calm_event :: "rd_event \<Rightarrow> bool" where
  "calm_event (Rd_bytes bs) = (bs \<noteq> [])"
| "calm_event (Rd_err e) = (e = EINTR \<or> e = EAGAIN \<or> e = EWOULDBLOCK)"

fun would_block :: "rd_event \<Rightarrow> bool" where
  "would_block (Rd_err e) = (e = EAGAIN \<or> e = EWOULDBLOCK)"
| "would_block _ = False"

definition waits :: "rd_event list \<Rightarrow> nat" where
  "waits evs = length (filter would_block evs)"

lemma sys_read_calm:
  "sys_read n evs = (Inr bs, evs') \<Longrightarrow> list_all calm_event evs \<Longrightarrow> 0 < n \<Longrightarrow>
     bs \<noteq> [] \<and> list_all calm_event evs' \<and> waits evs' = waits evs"
  by (induction n evs rule: sys_read.induct) (auto simp: waits_def split: if_splits)

lemma sys_read_calm_err:
  "sys_read n evs = (Inl e, evs') \<Longrightarrow> list_all calm_event evs \<Longrightarrow> evs \<noteq> [] \<Longrightarrow>
     list_all calm_event evs' \<and> (e = EINTR \<and> waits evs' = waits evs \<or>
       (e = EAGAIN \<or> e = EWOULDBLOCK) \<and> waits evs = Suc (waits evs'))"
  by (induction n evs rule: sys_read.induct) (auto simp: waits_def split: if_splits)

lemma rw_read_calm:
  "list_all calm_event evs \<Longrightarrow> t + waits evs < SOCKET_TIMEOUT \<Longrightarrow> length buf \<le> n \<Longrightarrow>
     n \<le> length buf + length (rd_data evs) \<Longrightarrow>
     \<exists>buf' evs'. rw_read_loop n t buf evs = (True, None, buf', evs') \<and> list_all calm_event evs' \<and>
       waits evs' \<le> waits evs"
proof (induction n t buf evs rule: rw_read_loop.induct)
  case (1 n t buf evs)
  show ?case
  proof (cases "length buf < n")
    case False
    with "1.prems" show ?thesis by (simp add: rw_read_loop.simps [of n t buf evs])
  next
    case True
    with "1.prems" have c: "length buf < n \<and> t < SOCKET_TIMEOUT" and ne: "evs \<noteq> []" by auto
    obtain res evs1 where sys: "sys_read (n - length buf) evs = (res, evs1)"
      by (cases "sys_read (n - length buf) evs")
    show ?thesis
    proof (cases res)
      case (Inl e)
      note s = sys_read_calm_err [OF sys [unfolded Inl] "1.prems"(1) ne] sys_read_err_data [OF sys [unfolded Inl]]
      show ?thesis
      proof (cases "e = EINTR")
        case True
        with "1.IH"(1) [OF c sys [symmetric] Inl True] s "1.prems" c sys Inl show ?thesis
          by (simp add: rw_read_loop.simps [of n t buf evs])
      next
        case False
        with s have b: "e = EAGAIN \<or> e = EWOULDBLOCK" "waits evs = Suc (waits evs1)" by auto
        from "1.IH"(2) [OF c sys [symmetric] Inl False b(1)] s b "1.prems" obtain buf' evs' where
          "rw_read_loop n (Suc t) buf evs1 = (True, None, buf', evs')" "list_all calm_event evs'" "waits evs' \<le> waits evs1"
          by auto
        with False b c sys Inl show ?thesis by (simp add: rw_read_loop.simps [of n t buf evs])
      qed
    next
      case (Inr bs)
      have s: "bs \<noteq> []" "list_all calm_event evs1" "waits evs1 = waits evs"
        using sys_read_calm [OF sys [unfolded Inr] "1.prems"(1)] True by auto
      have d: "bs @ rd_data evs1 = rd_data evs" "length bs \<le> n - length buf"
        using sys_read_data [OF sys [unfolded Inr]] sys_read_length [OF sys [unfolded Inr]] by auto
      then have "length (rd_data evs) = length bs + length (rd_data evs1)" by (metis length_append)
      with "1.IH"(3) [OF c sys [symmetric] Inr s(1)] s d "1.prems" True sys Inr c show ?thesis
        by (simp add: rw_read_loop.simps [of n t buf evs])
    qed
  qed
qed

lemma ssl_read_calm:
  "list_all (\<lambda>e. \<exists>bs. e = Rd_bytes bs \<and> bs \<noteq> []) evs \<Longrightarrow> n < 2 ^ 31 \<Longrightarrow> length buf \<le> n \<Longrightarrow>
     n \<le> length buf + length (rd_data evs) \<Longrightarrow>
     \<exists>buf' evs'. ssl_read_loop n buf evs = (True, buf', evs') \<and> list_all (\<lambda>e. \<exists>bs. e = Rd_bytes bs \<and> bs \<noteq> []) evs'"
proof (induction n buf evs rule: ssl_read_loop.induct)
  case (1 n buf evs)
  show ?case
  proof (cases "length buf < n")
    case False
    with "1.prems" show ?thesis by (simp add: ssl_read_loop.simps [of n buf evs])
  next
    case True
    with "1.prems" obtain bs0 rest where evs: "evs = Rd_bytes bs0 # rest" "bs0 \<noteq> []" by (cases evs) auto
    have "int_arg (n - length buf) = int (n - length buf)" using "1.prems"(2) by (intro int_arg_small) simp
    then have ssl: "SSL_read (n - length buf) evs = sys_read (n - length buf) evs" using True
      unfolding SSL_read_def by (simp del: of_nat_diff)
    then obtain bs evs1 where sys: "SSL_read (n - length buf) evs = (Inr bs, evs1)"
      by (cases "length bs0 \<le> io_limit (n - length buf)") (simp_all add: evs)
    have s: "bs \<noteq> []" "list_all (\<lambda>e. \<exists>bs. e = Rd_bytes bs \<and> bs \<noteq> []) evs1"
      using sys "1.prems"(1) True unfolding ssl by (auto simp: evs split: if_splits)
    have d: "bs @ rd_data evs1 = rd_data evs" "length bs \<le> n - length buf" using SSL_read_data [OF sys] by auto
    then have "length (rd_data evs) = length bs + length (rd_data evs1)" by (metis length_append)
    with "1.IH" [OF True sys [symmetric] refl s(1)] s d "1.prems" True sys show ?thesis
      by (simp add: ssl_read_loop.simps [of n buf evs])
  qed
qed

section \<open>The interface of a byte stream\<close>

text \<open>
  What \<open>MessageStream\<close> relies on: a read that succeeds gives exactly the next bytes, a write that
  succeeds has sent exactly the given ones, and one that fails a proper part of them. \<open>ready\<close> says of
  a stream that its reads succeed as long as there are enough bytes.
\<close>

locale byte_stream =
  fixes Read :: "nat \<Rightarrow> 's \<Rightarrow> bool \<times> bytes \<times> 's"
    and Write :: "bytes \<Rightarrow> 's \<Rightarrow> bool \<times> 's"
    and ReadValue :: "nat \<Rightarrow> 's \<Rightarrow> 'v option \<times> 's"
    and WriteValue :: "outgoing_value \<Rightarrow> 's \<Rightarrow> bool \<times> 's"
    and incoming :: "'s \<Rightarrow> bytes"
    and sent :: "'s \<Rightarrow> bytes"
    and contents :: "'v \<Rightarrow> bytes"
    and ready :: "'s \<Rightarrow> bool"
  assumes Read_gives: "Read n s = (True, buf, s') \<Longrightarrow> length buf = n \<and> incoming s = buf @ incoming s'"
    and Write_sends: "Write b s = (True, s') \<Longrightarrow> sent s' = sent s @ b"
    and Write_fails: "Write b s = (False, s') \<Longrightarrow> \<exists>p q. b = p @ q \<and> q \<noteq> [] \<and> sent s' = sent s @ p"
    and ReadValue_gives: "ReadValue n s = (Some v, s') \<Longrightarrow>
      length (contents v) = n \<and> incoming s = contents v @ incoming s'"
    and WriteValue_sends: "WriteValue ov s = (True, s') \<Longrightarrow> sent s' = sent s @ ov_s ov"
    and WriteValue_fails: "WriteValue ov s = (False, s') \<Longrightarrow> \<exists>p q. ov_s ov = p @ q \<and> q \<noteq> [] \<and> sent s' = sent s @ p"
    and Read_ready: "ready s \<Longrightarrow> n < 2 ^ 31 \<Longrightarrow> n \<le> length (incoming s) \<Longrightarrow>
      \<exists>buf s'. Read n s = (True, buf, s') \<and> ready s'"
    and ReadValue_ready: "ready s \<Longrightarrow> n < 2 ^ 31 \<Longrightarrow> n \<le> length (incoming s) \<Longrightarrow>
      \<exists>v s'. ReadValue n s = (Some v, s') \<and> ready s'"
begin

text \<open>What a written message is: the packet that the non-blocking writer sends, too.\<close>

lemma WriteMessage_sends:
  assumes "ms_WriteMessage byte_size serialize Write WriteValue m v s = (code, s')"
    and "serialize m = Some b" and "byte_size m = int (length b)"
  shows "code \<in> {0, 1, 3, 4} \<and>
    (if code = 0 then sent s' = sent s @ wire_packet b (ov_s v)
     else \<exists>p q. wire_packet b (ov_s v) = p @ q \<and> q \<noteq> [] \<and> sent s' = sent s @ p)"
proof -
  let ?h = "magic_byte # be32 (of_nat (length b)) @ be32 (of_nat (length (ov_s v)))"
  have w: "wire_packet b (ov_s v) = ?h @ b @ ov_s v" by (simp add: wire_packet_def)
  have h: "ms_WriteHeader Write (of_int (byte_size m)) (of_nat (ov_size v)) s = Write ?h s"
    by (simp add: ms_WriteHeader_def assms(3) ov_size_def)
  obtain ok s1 where 1: "Write ?h s = (ok, s1)" by (cases "Write ?h s")
  show ?thesis
  proof (cases ok)
    case False
    with 1 Write_fails [of ?h s s1] obtain p q where "?h = p @ q" "q \<noteq> []" "sent s1 = sent s @ p" by auto
    moreover have "code = 1" "s' = s1" using assms(1) 1 False by (simp_all add: ms_WriteMessage_def h)
    ultimately show ?thesis unfolding w by (auto intro!: exI [of _ p] exI [of _ "q @ b @ ov_s v"])
  next
    case True
    with 1 have s1: "sent s1 = sent s @ ?h" by (auto dest: Write_sends)
    obtain ok2 s2 where 2: "Write b s1 = (ok2, s2)" by (cases "Write b s1")
    show ?thesis
    proof (cases ok2)
      case False
      with 2 Write_fails [of b s1 s2] obtain p q where "b = p @ q" "q \<noteq> []" "sent s2 = sent s1 @ p" by auto
      moreover have "code = 3" "s' = s2" using assms(1,2) 1 2 True False by (simp_all add: ms_WriteMessage_def h)
      ultimately show ?thesis unfolding w s1 by (auto intro!: exI [of _ "?h @ p"] exI [of _ "q @ ov_s v"])
    next
      case T2: True
      with 2 s1 have s2: "sent s2 = sent s @ ?h @ b" by (auto dest: Write_sends)
      obtain ok3 s3 where 3: "WriteValue v s2 = (ok3, s3)" by (cases "WriteValue v s2")
      show ?thesis
      proof (cases ok3)
        case False
        with 3 WriteValue_fails [of v s2 s3] obtain p q where "ov_s v = p @ q" "q \<noteq> []" "sent s3 = sent s2 @ p" by auto
        moreover have "code = 4" "s' = s3" using assms(1,2) 1 2 3 True T2 False by (simp_all add: ms_WriteMessage_def h)
        ultimately show ?thesis unfolding w s2 by (auto intro!: exI [of _ "?h @ b @ p"] exI [of _ q])
      next
        case T3: True
        have "code = 0" "s' = s3" using assms(1,2) 1 2 3 True T2 T3 by (simp_all add: ms_WriteMessage_def h)
        with 3 T3 s2 show ?thesis unfolding w by (auto dest: WriteValue_sends)
      qed
    qed
  qed
qed

text \<open>Reading a header off a packet.\<close>

lemma ReadHeader_reads:
  assumes "incoming s = wire_packet b v @ rest" and "ms_ReadHeader Read s = (res, s1)"
  shows "(res = None \<or> res = Some (of_nat (length b), of_nat (length v)) \<and> incoming s1 = b @ v @ rest) \<and>
    (ready s \<longrightarrow> res \<noteq> None \<and> ready s1)"
proof -
  let ?h = "magic_byte # be32 (of_nat (length b)) @ be32 (of_nat (length v))"
  have w: "incoming s = ?h @ b @ v @ rest" using assms(1) by (simp add: wire_packet_def)
  obtain ok hdr s2 where r: "Read 9 s = (ok, hdr, s2)" by (metis prod_cases3)
  have good: "hdr = ?h \<and> incoming s2 = b @ v @ rest" if ok
  proof -
    from that r Read_gives [of 9 s hdr s2] have "length hdr = length ?h" "hdr @ incoming s2 = ?h @ b @ v @ rest"
      by (simp_all add: w)
    then show ?thesis by (metis append_eq_prefix_length)
  qed
  have "ready s \<Longrightarrow> ok \<and> ready s2" using r Read_ready [of s 9] w by auto
  then show ?thesis using assms(2) r good by (auto simp: ms_ReadHeader_def split: if_splits)
qed

lemma ReadMessage_reads:
  assumes "ms_ReadMessage parse Read ReadValue max_size s = (st, m', v', s')"
    and "incoming s = wire_packet b v @ rest" and "length b < 2 ^ 32" and "length v < 2 ^ 32" and "parse b = Some m"
  shows "(st = MessageStreamReadStatus_SUCCESS \<longrightarrow>
       m' = Some m \<and> map_option contents v' = Some v \<and> incoming s' = rest \<and> length b \<le> unat max_size) \<and>
    (st = MessageStreamReadStatus_TOO_LARGE \<longrightarrow> unat max_size < length b) \<and>
    (ready s \<and> length b \<le> unat max_size \<and> length b < 2 ^ 31 \<and> length v < 2 ^ 31 \<longrightarrow>
       st = MessageStreamReadStatus_SUCCESS)"
proof -
  have sz: "unat (of_nat (length b) :: uint32) = length b" "unat (of_nat (length v) :: uint32) = length v"
    using assms(3,4) by (simp_all add: unat_of_length32)
  have big: "max_size < (of_nat (length b) :: uint32) \<longleftrightarrow> unat max_size < length b" by (simp add: word_less_nat_alt sz)
  obtain res s1 where h: "ms_ReadHeader Read s = (res, s1)" by (cases "ms_ReadHeader Read s")
  note hr = ReadHeader_reads [OF assms(2) h]
  obtain ok buf s2 where r: "Read (length b) s1 = (ok, buf, s2)" by (metis prod_cases3)
  obtain val s3 where rv: "ReadValue (length v) s2 = (val, s3)" by (cases "ReadValue (length v) s2")
  have b: "buf = b \<and> incoming s2 = v @ rest" if "res \<noteq> None" ok
    using that r hr Read_gives [of "length b" s1 buf s2] by (auto dest: append_eq_prefix_length)
  have v: "contents x = v \<and> incoming s3 = rest" if "res \<noteq> None" ok "val = Some x" for x
    using that b rv ReadValue_gives [of "length v" s2 x s3] by (auto dest: append_eq_prefix_length)
  have rdy: "ok \<and> (length v < 2 ^ 31 \<longrightarrow> val \<noteq> None)" if "ready s" "length b < 2 ^ 31"
  proof -
    from that hr have "ready s1" "incoming s1 = b @ v @ rest" by auto
    with that r Read_ready [of s1 "length b"] have "ok" "ready s2" by auto
    moreover have "incoming s2 = v @ rest" using b hr that calculation by auto
    ultimately show ?thesis using rv ReadValue_ready [of s2 "length v"] by auto
  qed
  show ?thesis
  proof (cases res)
    case None
    with assms(1) h hr show ?thesis by (auto simp: ms_ReadMessage_def)
  next
    case (Some sizes)
    with hr have "res = Some (of_nat (length b), of_nat (length v))" by simp
    with assms(1,5) h r rv b v rdy hr show ?thesis
      by (auto simp: ms_ReadMessage_def sz big split: if_splits option.splits)
  qed
qed

end

section \<open>The two streams\<close>

lemma rw_Read_gives:
  "rw_Read n ch = (True, err, buf, ch') \<Longrightarrow> length buf = n \<and> ch_incoming ch = buf @ ch_incoming ch'"
  by (auto simp: rw_Read_def ch_incoming_def SOCKET_TIMEOUT_def split: prod.splits dest!: rw_read_post)

lemma rw_Write_result:
  assumes "rw_Write b ch = (ok, ch')"
  shows "if ok then ch_sent ch' = ch_sent ch @ b
    else (\<exists>p q. b = p @ q \<and> q \<noteq> [] \<and> ch_sent ch' = ch_sent ch @ p)"
proof -
  obtain n evs where l: "rw_write_loop b 0 0 (ch_wr ch) = (ok, n, evs)"
    and ch': "ch_sent ch' = ch_sent ch @ take n b" using assms by (auto simp: rw_Write_def split: prod.splits)
  from rw_write_post [OF l] have "n \<le> length b \<and> (ok \<longleftrightarrow> n = length b)" by (simp add: SOCKET_TIMEOUT_def)
  with ch' show ?thesis by (auto intro!: exI [of _ "take n b"] exI [of _ "drop n b"])
qed

lemma ssl_Read_gives:
  "ssl_Read n ch = (True, buf, ch') \<Longrightarrow> length buf = n \<and> ch_incoming ch = buf @ ch_incoming ch'"
  by (auto simp: ssl_Read_def ch_incoming_def split: if_splits prod.splits dest!: ssl_read_post)

lemma ssl_Write_result:
  assumes "ssl_Write b ch = (ok, ch')"
  shows "if ok then ch_sent ch' = ch_sent ch @ b
    else (\<exists>p q. b = p @ q \<and> q \<noteq> [] \<and> ch_sent ch' = ch_sent ch @ p)"
proof (cases "b = []")
  case True
  with assms show ?thesis by (simp add: ssl_Write_def)
next
  case False
  then obtain n evs where l: "ssl_write_loop b 0 (ch_wr ch) = (ok, n, evs)"
    and ch': "ch_sent ch' = ch_sent ch @ take n b" using assms by (auto simp: ssl_Write_def split: prod.splits)
  from ssl_write_post [OF l] have "n \<le> length b \<and> (ok \<longleftrightarrow> n = length b)" by simp
  with ch' show ?thesis by (auto intro!: exI [of _ "take n b"] exI [of _ "drop n b"])
qed

text \<open>The data that the streams can go on reading.\<close>

definition ssl_ready :: "channel \<Rightarrow> bool" where
  "ssl_ready ch \<longleftrightarrow> list_all (\<lambda>e. \<exists>bs. e = Rd_bytes bs \<and> bs \<noteq> []) (ch_rd ch)"

definition plain_ready :: "channel \<Rightarrow> bool" where
  "plain_ready ch \<longleftrightarrow> list_all calm_event (ch_rd ch) \<and> waits (ch_rd ch) < SOCKET_TIMEOUT"

lemma ssl_Read_ready:
  "ssl_ready ch \<Longrightarrow> n < 2 ^ 31 \<Longrightarrow> n \<le> length (ch_incoming ch) \<Longrightarrow>
     \<exists>buf ch'. ssl_Read n ch = (True, buf, ch') \<and> ssl_ready ch'"
  using ssl_read_calm [of "ch_rd ch" n "[]"] by (auto simp: ssl_Read_def ssl_ready_def ch_incoming_def)

lemma plain_Read_ready:
  "plain_ready ch \<Longrightarrow> n \<le> length (ch_incoming ch) \<Longrightarrow> \<exists>buf ch'. plain_Read n ch = (True, buf, ch') \<and> plain_ready ch'"
  using rw_read_calm [of "ch_rd ch" 0 "[]" n]
  by (auto simp: plain_Read_def rw_Read_def plain_ready_def ch_incoming_def)

interpretation ssl: byte_stream ssl_Read ssl_Write ssl_ReadValue ssl_WriteValue ch_incoming ch_sent iv_s ssl_ready
proof (unfold_locales, goal_cases)
  case (1 n s buf s')
  then show ?case by (rule ssl_Read_gives)
next
  case (4 n s v s')
  then show ?case by (auto simp: ssl_ReadValue_def IncomingStringValue_def split: prod.splits if_splits dest!: ssl_Read_gives)
next
  case (7 s n)
  then show ?case by (rule ssl_Read_ready)
next
  case (8 s n)
  from ssl_Read_ready [OF this] show ?case by (auto simp: ssl_ReadValue_def)
qed (use ssl_Write_result in \<open>force simp: ssl_WriteValue_def ov_ToString_def\<close>)+

text \<open>A plain stream is one, too, if the application's factory reads its values off the descriptor.\<close>

definition value_factory :: "(nat \<Rightarrow> channel \<Rightarrow> 'v option \<times> channel) \<Rightarrow> ('v \<Rightarrow> bytes) \<Rightarrow> bool" where
  "value_factory NewValue contents \<longleftrightarrow>
     (\<forall>n s v s'. NewValue n s = (Some v, s') \<longrightarrow> length (contents v) = n \<and> ch_incoming s = contents v @ ch_incoming s') \<and>
     (\<forall>n s. plain_ready s \<longrightarrow> n \<le> length (ch_incoming s) \<longrightarrow> (\<exists>v s'. NewValue n s = (Some v, s') \<and> plain_ready s'))"

lemma plain_byte_stream:
  assumes "value_factory NewValue contents"
  shows "byte_stream plain_Read plain_Write (plain_ReadValue NewValue) plain_WriteValue ch_incoming ch_sent contents plain_ready"
proof (unfold_locales, goal_cases)
  case (1 n s buf s')
  then show ?case by (auto simp: plain_Read_def split: prod.splits dest!: rw_Read_gives)
next
  case (4 n s v s')
  with assms show ?case by (auto simp: value_factory_def plain_ReadValue_def)
next
  case (7 s n)
  then show ?case by (intro plain_Read_ready)
next
  case (8 s n)
  with assms show ?case by (simp add: value_factory_def plain_ReadValue_def)
qed (use rw_Write_result in \<open>force simp: plain_Write_def plain_WriteValue_def ov_TransferToSocket_def\<close>)+

section \<open>What the streams promise\<close>

text \<open>
  \<open>ReaderWriter::Read\<close> reads all or nothing of use, and waits ten seconds for a slow peer. It always
  returns; what it took off the descriptor is in the buffer; it returns true exactly if the buffer is
  full. If the data come at all, in pieces of any size, interrupted any number of times, without end of
  file or error, and the socket would block fewer than 20000 times, then it returns true; with too
  little data it returns false.
\<close>

lemma read_waits_for_slow_peer:
  assumes "rw_Read n ch = (ok, err, buf, ch')"
  shows "buf @ ch_incoming ch' = ch_incoming ch \<and> (ok \<longleftrightarrow> length buf = n) \<and>
    (length (ch_incoming ch) < n \<longrightarrow> \<not> ok) \<and>
    (n \<le> length (ch_incoming ch) \<and> list_all calm_event (ch_rd ch) \<and> waits (ch_rd ch) < 20000 \<longrightarrow>
       ok \<and> buf = take n (ch_incoming ch))"
proof -
  obtain evs where l: "rw_read_loop n 0 [] (ch_rd ch) = (ok, err, buf, evs)" and ch': "ch_incoming ch' = rd_data evs"
    using assms by (auto simp: rw_Read_def ch_incoming_def split: prod.splits)
  have b: "length buf \<le> n \<and> (ok \<longleftrightarrow> length buf = n) \<and> buf @ rd_data evs = ch_incoming ch"
    using rw_read_post [OF l] by (simp add: SOCKET_TIMEOUT_def ch_incoming_def)
  then have "length buf \<le> length (ch_incoming ch)" by (metis le_add1 length_append)
  moreover have "ok" if "n \<le> length (ch_incoming ch)" "list_all calm_event (ch_rd ch)" "waits (ch_rd ch) < 20000"
    using rw_read_calm [of "ch_rd ch" 0 "[]" n] that l by (auto simp: SOCKET_TIMEOUT_def ch_incoming_def)
  moreover have "buf = take n (ch_incoming ch)" if "length buf = n"
    using b that by (metis append_eq_conv_conj)
  ultimately show ?thesis using b unfolding ch' by fastforce
qed

text \<open>
  C20: What one message stream writes another one reads, and so does the non-blocking client. If
  \<open>WriteMessage\<close> over SSL returns 0, then the bytes it sent are one packet: a \<open>MessageStream\<close> to which
  they arrive, followed by anything, gets the same message and value and stops at the first byte after
  the packet; and a \<open>NonblockingPacketReader\<close> that they reach in any pieces reads the same. The
  message and the value are shorter than \<open>2 ^ 31\<close> bytes, the length that \<open>SSL_read\<close> can be asked for,
  and the message is not longer than the stream allows; the generated classes measure and parse what
  they serialize.
\<close>

theorem message_stream_roundtrip:
  assumes "ms_WriteMessage byte_size serialize ssl_Write ssl_WriteValue m v s = (0, s')"
    and "serialize m = Some b" and "byte_size m = int (length b)" and "parse b = Some M"
    and "length b < 2 ^ 31" and "length (ov_s v) < 2 ^ 31" and "length b \<le> unat max_size"
    and "packet = drop (length (ch_sent s)) (ch_sent s')"
  shows "(ch_incoming r = packet @ rest \<and> ssl_ready r \<longrightarrow>
      (\<exists>r'. ms_ReadMessage parse ssl_Read ssl_ReadValue max_size r =
           (MessageStreamReadStatus_SUCCESS, Some M, Some (IncomingStringValue (ov_s v)), r') \<and> ch_incoming r' = rest)) \<and>
    (rd_benign evs \<and> rd_data evs = packet @ rest \<longrightarrow>
      (\<exists>pr evs'. pr_poll (Suc (rd_size evs)) parse new_packet_reader evs resp val = (kDone, pr, evs', M, Some (ov_s v)) \<and>
         rd_data evs' = rest))"
proof -
  have p: "packet = wire_packet b (ov_s v)" using ssl.WriteMessage_sends [OF assms(1-3)] assms(8) by simp
  have "\<exists>r'. ms_ReadMessage parse ssl_Read ssl_ReadValue max_size r =
      (MessageStreamReadStatus_SUCCESS, Some M, Some (IncomingStringValue (ov_s v)), r') \<and> ch_incoming r' = rest"
    if r: "ch_incoming r = packet @ rest" "ssl_ready r"
  proof -
    obtain st m' v' r' where run: "ms_ReadMessage parse ssl_Read ssl_ReadValue max_size r = (st, m', v', r')"
      by (metis prod_cases4)
    from ssl.ReadMessage_reads [OF run r(1) [unfolded p] _ _ assms(4)] r(2) assms(5-7)
    obtain x where x: "st = MessageStreamReadStatus_SUCCESS" "m' = Some M" "v' = Some x" "iv_s x = ov_s v" "ch_incoming r' = rest"
      by auto
    then have "\<not> iv_defunct x" using run
      by (auto simp: ms_ReadMessage_def ssl_ReadValue_def IncomingStringValue_def split: prod.splits option.splits if_splits)
    with x run show ?thesis by (simp add: IncomingStringValue_def)
  qed
  moreover have "\<exists>pr evs'. pr_poll (Suc (rd_size evs)) parse new_packet_reader evs resp val = (kDone, pr, evs', M, Some (ov_s v)) \<and>
      rd_data evs' = rest" if "rd_benign evs" "rd_data evs = packet @ rest"
    using that assms(4-6) by (intro pr_poll_expected) (auto simp: pr_expects_def p)
  ultimately show ?thesis by blast
qed

theorem message_stream_roundtrip_witness:
  "\<exists>s' r'. ms_WriteMessage (\<lambda>m. int (length m)) Some ssl_Write ssl_WriteValue [9] \<lparr>ov_s = [8, 7]\<rparr>
        \<lparr>ch_rd = [], ch_wr = [Wr_accept 4, Wr_accept 9, Wr_accept 1, Wr_accept 7], ch_sent = [5]\<rparr> = (0, s') \<and>
     ms_ReadMessage Some ssl_Read ssl_ReadValue 100 \<lparr>ch_rd = [Rd_bytes (tl (ch_sent s'))], ch_wr = [], ch_sent = []\<rparr> =
        (MessageStreamReadStatus_SUCCESS, Some [9], Some (IncomingStringValue [8, 7]), r')"
proof -
  let ?s = "\<lparr>ch_rd = [], ch_wr = [Wr_accept 4, Wr_accept 9, Wr_accept 1, Wr_accept 7], ch_sent = [5]\<rparr>"
  obtain code s' where run: "ms_WriteMessage (\<lambda>m. int (length m)) Some ssl_Write ssl_WriteValue [9] \<lparr>ov_s = [8, 7]\<rparr> ?s = (code, s')"
    by (cases "ms_WriteMessage (\<lambda>m. int (length m)) Some ssl_Write ssl_WriteValue [9] \<lparr>ov_s = [8, 7]\<rparr> ?s")
  have "case ms_WriteMessage (\<lambda>m. int (length m)) Some ssl_Write ssl_WriteValue [9] \<lparr>ov_s = [8, 7]\<rparr> ?s of
      (code, s') \<Rightarrow> code = 0 \<and> length (ch_sent s') = 13" by code_simp
  with run have c: "code = 0" "length (ch_sent s') = 13" by simp_all
  then have "tl (ch_sent s') \<noteq> []" by (cases "ch_sent s'") auto
  with message_stream_roundtrip [OF run [unfolded c(1)] refl, of Some "[9]" 100 "tl (ch_sent s')"
      "\<lparr>ch_rd = [Rd_bytes (tl (ch_sent s'))], ch_wr = [], ch_sent = []\<rparr>" "[]" "[]" "[]" None] run c
  show ?thesis by (auto simp: ssl_ready_def ch_incoming_def drop_Suc)
qed

end
