(* ===== verification/Reentrancy.thy ===== *)
theory Reentrancy
  imports Service "HOL-Library.Monad_Syntax"
begin

text \<open>
  Callbacks that call back. A handler that the packet service calls may submit new requests to the
  same service (\<open>Submit\<close> in \<open>nonblocking_packet_service.cc\<close>), which then changes the sender in the
  middle of its \<open>Send\<close> or of the receiver's \<open>Receive\<close>. This theory follows the same functions as
  \<open>Sender\<close>, \<open>Receiver\<close> and \<open>Service\<close>, with the place of every callback kept: what the client does
  there is a parameter, a function from the calls made so far to the requests that the last of them
  submits. Functions that may not return take fuel and are None without it.

  The functions take the call of a handler as an argument. \<open>re_call\<close> is the one of clients that only
  submit; \<open>Callback_Removal\<close> has clients that also call \<open>Remove\<close>, \<open>Nested_Run\<close> has
  callbacks that call \<open>Run\<close>. Requests to a service that is being destroyed are not covered.
\<close>

section \<open>Calling a handler\<close>

record 'h submission =
  su_message :: message
  su_command :: command
  su_value :: bytes
  su_handler :: 'h

type_synonym 'h reaction = "'h callback list \<Rightarrow> 'h submission list"
type_synonym 'h calling = "'h callback \<Rightarrow> 'h service \<Rightarrow> 'h world \<Rightarrow> ('h service \<times> 'h world) option"

text \<open>\<open>Submit\<close>, where a service that has failed calls the handler at once.\<close>

definition re_Submit ::
    "codec \<Rightarrow> 'h calling \<Rightarrow> 'h submission \<Rightarrow> 'h service \<Rightarrow> 'h world
     \<Rightarrow> (handler_key \<times> 'h service \<times> 'h world) option" where
  "re_Submit cx call u v w =
     (let key = v_next_key v; v1 = v\<lparr>v_next_key := v_next_key v + 1\<rparr> in
      if v_failed v
      then do {
        (v2, w2) \<leftarrow> call (Errored (su_handler u) already_shut_down None) v1 w;
        Some (key, v2, w2) }
      else Some (key,
        v1\<lparr>v_sender := s_Enqueue cx (connection_id (v_receiver v)) (su_message u) (su_command u)
             (su_value u) (su_handler u) key (v_sender v)\<rparr>, w))"

primrec re_submits ::
    "codec \<Rightarrow> 'h calling \<Rightarrow> 'h submission list \<Rightarrow> 'h service \<Rightarrow> 'h world \<Rightarrow> ('h service \<times> 'h world) option" where
  "re_submits cx call [] v w = Some (v, w)"
| "re_submits cx call (u # us) v w =
     do { (key, v1, w1) \<leftarrow> re_Submit cx call u v w; re_submits cx call us v1 w1 }"

text \<open>The fuel is the depth of calls inside calls.\<close>

primrec re_call :: "nat \<Rightarrow> codec \<Rightarrow> 'h reaction \<Rightarrow> 'h calling" where
  "re_call 0 cx react c v w = None"
| "re_call (Suc n) cx react c v w =
     (let w1 = log_call c w in re_submits cx (re_call n cx react) (react (w_log w1)) v w1)"

section \<open>Sending\<close>

text \<open>
  After a failed write: the loop that pops requests off the queue and tells their handlers, until
  the queue is empty.
\<close>

fun re_fail_loop :: "nat \<Rightarrow> 'h calling \<Rightarrow> 'h service \<Rightarrow> 'h world \<Rightarrow> ('h service \<times> 'h world) option" where
  "re_fail_loop 0 call v w = None"
| "re_fail_loop (Suc n) call v w =
     (case s_request_queue (v_sender v) of
        [] \<Rightarrow> Some (v, w)
      | rq # rqs \<Rightarrow>
          do { (v1, w1) \<leftarrow> call (Errored (rq_handler rq) write_error None)
                 (v\<lparr>v_sender := (v_sender v)\<lparr>s_request_queue := rqs\<rparr>\<rparr>) w;
               re_fail_loop n call v1 w1 })"

definition v_reset_handler :: "'h service \<Rightarrow> 'h service" where
  "v_reset_handler v = v\<lparr>v_sender := (v_sender v)\<lparr>s_handler := None\<rparr>\<rparr>"

definition re_fail :: "nat \<Rightarrow> 'h calling \<Rightarrow> 'h \<Rightarrow> 'h service \<Rightarrow> 'h world \<Rightarrow> ('h service \<times> 'h world) option" where
  "re_fail n call h v w =
     do { (v1, w1) \<leftarrow> call (Errored h write_error None) v w;
          re_fail_loop n call (v_reset_handler v1) w1 }"

text \<open>A written request passes its handler on to the receiver.\<close>

definition re_pass_on :: "'h calling \<Rightarrow> 'h \<Rightarrow> 'h service \<Rightarrow> 'h world \<Rightarrow> ('h service \<times> 'h world) option" where
  "re_pass_on call h v w =
     (let v1 = v\<lparr>v_sender := (v_sender v)\<lparr>s_current_writer := None\<rparr>\<rparr> in
      case r_Enqueue h (s_message_sequence (v_sender v)) (s_handler_key (v_sender v)) (v_receiver v) of
        (ok, r') \<Rightarrow>
          do { (v2, w2) \<leftarrow> (if ok then Some (v1\<lparr>v_receiver := r'\<rparr>, w)
                 else call (Errored h enqueue_error None) (v1\<lparr>v_receiver := r'\<rparr>) w);
               Some (v_reset_handler v2, w2) })"

definition re_s_turn ::
    "nat \<Rightarrow> codec \<Rightarrow> 'h calling \<Rightarrow> 'h service \<Rightarrow> 'h world
     \<Rightarrow> (service_status option \<times> 'h service \<times> 'h world) option" where
  "re_s_turn n cx call v w =
     (case s_next (v_sender v) of
        None \<Rightarrow> Some (Some kIdle, v, w)
      | Some (s1, pw) \<Rightarrow>
          (case pw_Write (cx_ser_message cx) pw (w_wr w) (w_out w) of
             (st, pw', wr', out') \<Rightarrow>
               let v2 = v\<lparr>v_sender := s1\<lparr>s_current_writer := Some pw'\<rparr>\<rparr>;
                   w1 = w\<lparr>w_wr := wr', w_out := out'\<rparr>
               in if st = kInProgress then Some (Some kIoWait, v2, w1)
               else
                 (case s_handler s1 of
                    None \<Rightarrow> Some (Some kCrash, v2, w1)
                  | Some h \<Rightarrow>
                      if st = kFailed
                      then do { (v3, w3) \<leftarrow> re_fail n call h v2 w1; Some (Some kError, v3, w3) }
                      else if st = kAbort then Some (Some kCrash, v2, w1)
                      else do { (v3, w3) \<leftarrow> re_pass_on call h v2 w1; Some (None, v3, w3) })))"

fun re_Send ::
    "nat \<Rightarrow> codec \<Rightarrow> 'h calling \<Rightarrow> 'h service \<Rightarrow> 'h world
     \<Rightarrow> (service_status \<times> 'h service \<times> 'h world) option" where
  "re_Send 0 cx call v w = None"
| "re_Send (Suc n) cx call v w =
     do { (res, v1, w1) \<leftarrow> re_s_turn n cx call v w;
          (case res of Some st \<Rightarrow> Some (st, v1, w1) | None \<Rightarrow> re_Send n cx call v1 w1) }"

section \<open>Receiving\<close>

text \<open>
  \<open>CallAllErrorHandlers\<close>. The first component of the result is false after a failed \<open>CHECK\<close>. The loop
  runs over the map, of which callbacks may erase entries but to which none adds: the iterator goes over
  the entries of the start that are still there. It is invalid when its own entry has been erased by the
  handler it called, and going on is then undefined. Each key is erased before its handler is called.
\<close>

primrec re_error_loop ::
    "'h calling \<Rightarrow> kinetic_status \<Rightarrow> 'h wait_entry list \<Rightarrow> 'h service \<Rightarrow> 'h world
     \<Rightarrow> (bool \<times> 'h service \<times> 'h world) option" where
  "re_error_loop call e [] v w = Some (True, v, w)"
| "re_error_loop call e (entry # es) v w =
     (case entry of (seq, h, key) \<Rightarrow>
        if um_find seq (r_map (v_receiver v)) = None then re_error_loop call e es v w
        else
        (case um_erase key (r_key_map (v_receiver v)) of
           (n, km) \<Rightarrow>
             if n \<noteq> 1 then Some (False, v, w)
             else do {
               (v1, w1) \<leftarrow> call (Errored h e None)
                  (v\<lparr>v_receiver := (v_receiver v)\<lparr>r_key_map := km\<rparr>\<rparr>) w;
               (if um_find seq (r_map (v_receiver v1)) = None then Some (False, v1, w1)
                else re_error_loop call e es v1 w1) }))"

definition r_reset_handler :: "'h service \<Rightarrow> 'h service" where
  "r_reset_handler v = v\<lparr>v_receiver := (v_receiver v)\<lparr>r_handler := None\<rparr>\<rparr>"

definition re_CallAllErrorHandlers ::
    "'h calling \<Rightarrow> kinetic_status \<Rightarrow> 'h service \<Rightarrow> 'h world \<Rightarrow> (bool \<times> 'h service \<times> 'h world) option" where
  "re_CallAllErrorHandlers call e v w =
     do { (v1, w1) \<leftarrow> (case r_handler (v_receiver v) of
              Some h \<Rightarrow> do { (v1, w1) \<leftarrow> call (Errored h e None) v w; Some (r_reset_handler v1, w1) }
            | None \<Rightarrow> Some (v, w));
          (ok, v2, w2) \<leftarrow> re_error_loop call e (r_map (v_receiver v1)) v1 w1;
          Some (ok, if ok then v2\<lparr>v_receiver := (v_receiver v2)\<lparr>r_map := []\<rparr>\<rparr> else v2, w2) }"

definition re_give_up ::
    "'h calling \<Rightarrow> service_status \<Rightarrow> kinetic_status \<Rightarrow> 'h service \<Rightarrow> 'h world
     \<Rightarrow> (service_status option \<times> 'h service \<times> 'h world) option" where
  "re_give_up call st e v w =
     do { (ok, v1, w1) \<leftarrow> re_CallAllErrorHandlers call e v w;
          Some (Some (if ok then st else kCrash), v1, w1) }"

text \<open>The handler of an acknowledged sequence number; a success moves the value out before the call.\<close>

definition re_r_call ::
    "'h calling \<Rightarrow> int64 \<Rightarrow> command \<Rightarrow> 'h service \<Rightarrow> 'h world
     \<Rightarrow> (service_status option \<times> 'h service \<times> 'h world) option" where
  "re_r_call call ack cmd v w =
     (let r = v_receiver v in
      case um_find ack (r_map r) of
        None \<Rightarrow> Some (None, v, w)
      | Some (h, key) \<Rightarrow>
          let r1 = r\<lparr>r_handler := Some h, r_map := snd (um_erase ack (r_map r))\<rparr> in
          (case um_erase key (r_key_map r1) of
             (n, km) \<Rightarrow>
               let r2 = r1\<lparr>r_key_map := km\<rparr> in
               if n \<noteq> 1 then Some (Some kCrash, v\<lparr>v_receiver := r2\<rparr>, w)
               else do {
                 (v1, w1) \<leftarrow> call (r_answer h cmd (r_value r2))
                   (v\<lparr>v_receiver := r2\<lparr>r_value :=
                      (if os_code (cmd_status cmd) = PROTO_SUCCESS then None else r_value r2)\<rparr>\<rparr>) w;
                 Some (None, r_reset_handler v1, w1) }))"

definition re_dispatch ::
    "codec \<Rightarrow> 'h calling \<Rightarrow> 'h service \<Rightarrow> 'h world
     \<Rightarrow> (service_status option \<times> 'h service \<times> 'h world) option" where
  "re_dispatch cx call v w =
     (let r = v_receiver v; m = r_message r in
      if msg_hmacauth m \<noteq> None \<and> \<not> ValidateHmac (cx_hmac_sha1 cx) m (co_hmac_key (r_options r))
      then re_give_up call kIdle hmac_error v w
      else (case cx_parse_command cx (msg_commandbytes m) of
         None \<Rightarrow> re_give_up call kError parse_error v w
       | Some cmd \<Rightarrow>
           let r1 = (case h_connectionid (cmd_header cmd) of
                       Some c \<Rightarrow> r\<lparr>r_connection_id := c\<rparr> | None \<Rightarrow> r);
               cmd1 = (if msg_authtype m = UNSOLICITEDSTATUS
                       then cmd\<lparr>cmd_header := (cmd_header cmd)\<lparr>h_acksequence := Some (- 1)\<rparr>\<rparr>
                       else cmd)
           in case h_acksequence (cmd_header cmd1) of
                None \<Rightarrow> re_give_up call kIdle no_ack_error (v\<lparr>v_receiver := r1\<rparr>) w
              | Some ack \<Rightarrow> re_r_call call ack cmd1 (v\<lparr>v_receiver := r1\<rparr>) w))"

definition re_r_turn ::
    "codec \<Rightarrow> 'h calling \<Rightarrow> 'h service \<Rightarrow> 'h world
     \<Rightarrow> (service_status option \<times> 'h service \<times> 'h world) option" where
  "re_r_turn cx call v w =
     (let r = v_receiver v in
      case r_next r of
        None \<Rightarrow> Some (Some kIdle, v, w)
      | Some pr \<Rightarrow>
          (case pr_Read (cx_parse_message cx) pr (w_rd w) (r_message r) (r_value r) of
             (st, pr', rd', m', val') \<Rightarrow>
               let r1 = r\<lparr>r_response := Some pr', r_message := m', r_value := val'\<rparr>;
                   v1 = v\<lparr>v_receiver := r1\<rparr>;
                   w1 = w\<lparr>w_rd := rd'\<rparr>
               in case st of
                    kInProgress \<Rightarrow> Some (Some kIoWait, v1, w1)
                  | kAbort \<Rightarrow> Some (Some kCrash, v1, w1)
                  | kFailed \<Rightarrow> re_give_up call kError read_error v1 w1
                  | kDone \<Rightarrow> re_dispatch cx call (v\<lparr>v_receiver := r1\<lparr>r_response := None\<rparr>\<rparr>) w1))"

fun re_Receive ::
    "nat \<Rightarrow> codec \<Rightarrow> 'h calling \<Rightarrow> 'h service \<Rightarrow> 'h world
     \<Rightarrow> (service_status \<times> 'h service \<times> 'h world) option" where
  "re_Receive 0 cx call v w = None"
| "re_Receive (Suc n) cx call v w =
     do { (res, v1, w1) \<leftarrow> re_r_turn cx call v w;
          (case res of Some st \<Rightarrow> Some (st, v1, w1) | None \<Rightarrow> re_Receive n cx call v1 w1) }"

section \<open>Run\<close>

definition run_calling ::
    "nat \<Rightarrow> codec \<Rightarrow> 'h calling \<Rightarrow> 'h service \<Rightarrow> 'h world
     \<Rightarrow> (run_result \<times> 'h service \<times> 'h world) option" where
  "run_calling n cx call v w =
     (if v_failed v then Some (Run_false, v, w)
      else do {
        (sender_status, v1, w1) \<leftarrow> re_Send n cx call v w;
        (if sender_status = kCrash then Some (Run_crash, v1, w1)
         else if sender_status = kError then Some (Run_false, v_CleanUp v1, w1)
         else do {
           (receiver_status, v2, w2) \<leftarrow> re_Receive n cx call v1 w1;
           (if receiver_status = kCrash then Some (Run_crash, v2, w2)
            else if receiver_status = kError then Some (Run_false, v_CleanUp v2, w2)
            else Some (Run_true (if receiver_status = kIoWait then {v_fd v} else {})
                         (if sender_status = kIoWait then {v_fd v} else {})
                         (if sender_status = kIoWait \<or> receiver_status = kIoWait
                          then v_fd v + 1 else 0), v2, w2)) }) })"

definition re_Run ::
    "nat \<Rightarrow> codec \<Rightarrow> 'h reaction \<Rightarrow> 'h service \<Rightarrow> 'h world
     \<Rightarrow> (run_result \<times> 'h service \<times> 'h world) option" where
  "re_Run n cx react = run_calling n cx (re_call n cx react)"

lemmas re_Run_unfold = re_Run_def run_calling_def

section \<open>What a live service makes of a reaction\<close>

text \<open>The requests that the reactions to the new calls \<open>ds\<close> submit, after the calls \<open>cs\<close>.\<close>

primrec reactions :: "'h reaction \<Rightarrow> 'h callback list \<Rightarrow> 'h callback list \<Rightarrow> 'h submission list" where
  "reactions react cs [] = []"
| "reactions react cs (d # ds) = react (cs @ [d]) @ reactions react (cs @ [d]) ds"

lemma reactions_append [simp]:
  "reactions react cs (ds @ es) = reactions react cs ds @ reactions react (cs @ ds) es"
  by (induction ds arbitrary: cs) simp_all

text \<open>Submitting to a service that has not failed only changes the queue and the counters.\<close>

definition submit_live :: "codec \<Rightarrow> 'h submission \<Rightarrow> 'h service \<Rightarrow> 'h service" where
  "submit_live cx u v =
     v\<lparr>v_next_key := v_next_key v + 1,
       v_sender := s_Enqueue cx (connection_id (v_receiver v)) (su_message u) (su_command u)
          (su_value u) (su_handler u) (v_next_key v) (v_sender v)\<rparr>"

definition submit_all :: "codec \<Rightarrow> 'h submission list \<Rightarrow> 'h service \<Rightarrow> 'h service" where
  "submit_all cx us v = fold (submit_live cx) us v"

lemma submit_all_simps [simp]:
  "submit_all cx [] v = v" "submit_all cx (u # us) v = submit_all cx us (submit_live cx u v)"
  by (simp_all add: submit_all_def)

lemma re_submits_live:
  "\<not> v_failed v \<Longrightarrow> re_submits cx call us v w = Some (submit_all cx us v, w)"
  by (induction us arbitrary: v) (simp_all add: re_Submit_def Let_def submit_live_def)

lemma re_call_live:
  "\<not> v_failed v \<Longrightarrow>
    re_call (Suc n) cx react c v w = Some (submit_all cx (react (w_log w @ [c])) v, log_call c w)"
  by (simp add: Let_def re_submits_live)

text \<open>
  What is left of submissions: \<open>queued us v v'\<close> says that \<open>v'\<close> is \<open>v\<close> with the requests \<open>us\<close> at the
  end of the queue, whatever has become of the receiver.
\<close>

definition queued :: "'h submission list \<Rightarrow> 'h service \<Rightarrow> 'h service \<Rightarrow> bool" where
  "queued us v v' \<longleftrightarrow>
     (\<exists>rqs. v_sender v' = (v_sender v)\<lparr>s_sequence_number := s_sequence_number (v_sender v) + of_nat (length us),
                                s_request_queue := s_request_queue (v_sender v) @ rqs\<rparr> \<and>
        map rq_handler rqs = map su_handler us \<and> map rq_value rqs = map su_value us) \<and>
     v_next_key v' = v_next_key v + of_nat (length us) \<and> v_fd v' = v_fd v \<and> v_failed v' = v_failed v"

lemma queued_refl [simp]: "queued [] v v"
  by (simp add: queued_def)

lemma queued_receiver [simp]:
  "queued us (v\<lparr>v_receiver := r\<rparr>) v' = queued us v v'" "queued us v (v'\<lparr>v_receiver := r\<rparr>) = queued us v v'"
  by (simp_all add: queued_def)

lemma queued_trans:
  assumes "queued us v v1" and "queued us' v1 v2"
  shows "queued (us @ us') v v2"
proof -
  obtain rqs where a: "v_sender v1 = (v_sender v)\<lparr>s_sequence_number := s_sequence_number (v_sender v) + of_nat (length us),
      s_request_queue := s_request_queue (v_sender v) @ rqs\<rparr>"
      "map rq_handler rqs = map su_handler us" "map rq_value rqs = map su_value us"
    using assms(1) by (auto simp: queued_def)
  obtain rqs' where b: "v_sender v2 = (v_sender v1)\<lparr>s_sequence_number := s_sequence_number (v_sender v1) + of_nat (length us'),
      s_request_queue := s_request_queue (v_sender v1) @ rqs'\<rparr>"
      "map rq_handler rqs' = map su_handler us'" "map rq_value rqs' = map su_value us'"
    using assms(2) by (auto simp: queued_def)
  have "v_sender v2 = (v_sender v)\<lparr>s_sequence_number := s_sequence_number (v_sender v) + of_nat (length (us @ us')),
      s_request_queue := s_request_queue (v_sender v) @ (rqs @ rqs')\<rparr>"
    by (simp add: a b)
  with a b assms show ?thesis by (auto simp: queued_def)
qed

lemma queued_submit_live: "queued [u] v (submit_live cx u v)"
  by (simp add: queued_def submit_live_def s_Enqueue_def Let_def, rule exI, rule conjI, rule refl, simp)

lemma queued_submit_all: "queued us v (submit_all cx us v)"
proof (induction us arbitrary: v)
  case (Cons u us)
  from queued_trans [OF queued_submit_live [of u v cx] Cons.IH] show ?case by simp
qed simp

lemma submit_all_receiver [simp]: "v_receiver (submit_all cx us v) = v_receiver v"
  by (induction us arbitrary: v) (simp_all add: submit_live_def)

lemma submit_all_failed [simp]: "v_failed (submit_all cx us v) = v_failed v"
  using queued_submit_all [of us v cx] by (simp add: queued_def)

text \<open>
  One service follows another: its receiver and the world are those of a run without reactions,
  and its sender has the requests that the reactions submitted at the end of its queue.
\<close>

definition follows :: "'h reaction \<Rightarrow> 'h service \<Rightarrow> 'h world \<Rightarrow> 'h receiver \<Rightarrow> 'h world \<Rightarrow> 'h service \<Rightarrow> bool" where
  "follows react v w r' w' v' \<longleftrightarrow> v_receiver v' = r' \<and>
     (\<exists>ds. w_log w' = w_log w @ ds \<and> queued (reactions react (w_log w) ds) v v')"

lemma follows_refl [simp]: "follows react v w (v_receiver v) w v"
  by (auto simp: follows_def intro: exI [of _ "[]"])

lemma follows_start [simp]:
  "follows react (v\<lparr>v_receiver := r\<rparr>) w r' w' v' = follows react v w r' w' v'"
  "follows react v (w\<lparr>w_rd := x\<rparr>) r' w' v' = follows react v w r' w' v'"
  by (simp_all add: follows_def)

lemma follows_live: "follows react v w r' w' v' \<Longrightarrow> v_failed v' = v_failed v"
  by (auto simp: follows_def queued_def)

lemma follows_trans:
  assumes "follows react v w r1 w1 v1" and "follows react v1 w1 r2 w2 v2"
  shows "follows react v w r2 w2 v2"
proof -
  obtain ds where d: "w_log w1 = w_log w @ ds" "queued (reactions react (w_log w) ds) v v1"
    using assms(1) by (auto simp: follows_def)
  obtain es where e: "w_log w2 = w_log w1 @ es" "queued (reactions react (w_log w1) es) v1 v2"
    using assms(2) by (auto simp: follows_def)
  from queued_trans [OF d(2) e(2)] d(1) e(1) assms(2) show ?thesis
    by (auto simp: follows_def intro!: exI [of _ "ds @ es"])
qed

lemma follows_set_receiver:
  "follows react v w (v_receiver v') w' v' \<Longrightarrow> follows react v w r w' (v'\<lparr>v_receiver := r\<rparr>)"
  by (simp add: follows_def)

section \<open>A caller that reacts\<close>

text \<open>
  What the sender and the receiver rely on when they call a handler of a live service: exactly this
  call is made, and what it submits is queued.
\<close>

locale reacting_caller =
  fixes cx :: codec and react :: "'h reaction" and call :: "'h calling"
  assumes call_live: "\<not> v_failed v \<Longrightarrow>
    call c v w = Some (submit_all cx (react (w_log w @ [c])) v, log_call c w)"
begin

lemma call_follows:
  assumes "\<not> v_failed v"
  obtains v' where "call c v w = Some (v', log_call c w)" and "v_receiver v' = v_receiver v"
    and "follows react v w (v_receiver v) (log_call c w) v'"
proof
  show "call c v w = Some (submit_all cx (react (w_log w @ [c])) v, log_call c w)"
    using assms by (rule call_live)
  show "follows react v w (v_receiver v) (log_call c w) (submit_all cx (react (w_log w @ [c])) v)"
    using queued_submit_all by (auto simp: follows_def intro!: exI [of _ "[c]"])
qed simp

lemma error_loop_follows:
  assumes "r_error_loop e es (r_key_map (v_receiver v)) w = Some (km, w')" and "\<not> v_failed v"
    and "\<forall>(seq, h, key) \<in> set es. um_find seq (r_map (v_receiver v)) \<noteq> None"
  shows "\<exists>v'. re_error_loop call e es v w = Some (True, v', w') \<and>
    follows react v w ((v_receiver v)\<lparr>r_key_map := km\<rparr>) w' v'"
  using assms
proof (induction es arbitrary: v w)
  case Nil
  then have "km = r_key_map (v_receiver v)" "w' = w" by auto
  then show ?case using follows_refl [of react v w] by simp
next
  case (Cons x es)
  obtain seq h key where x: "x = (seq, h, key)" by (cases x)
  obtain n km1 where k: "um_erase key (r_key_map (v_receiver v)) = (n, km1)"
    by (cases "um_erase key (r_key_map (v_receiver v))")
  with Cons.prems x have n: "n = 1" and l: "r_error_loop e es km1 (log_call (Errored h e None) w) = Some (km, w')"
    by (auto split: if_splits)
  let ?v = "v\<lparr>v_receiver := (v_receiver v)\<lparr>r_key_map := km1\<rparr>\<rparr>" and ?w = "log_call (Errored h e None) w"
  obtain v1 where c: "call (Errored h e None) ?v w = Some (v1, ?w)" and r: "v_receiver v1 = v_receiver ?v"
    and f: "follows react ?v w (v_receiver ?v) ?w v1"
    by (rule call_follows [of ?v "Errored h e None" w]) (use Cons.prems in simp_all)
  from follows_live [OF f] Cons.prems have live: "\<not> v_failed v1" by simp
  from l r have "r_error_loop e es (r_key_map (v_receiver v1)) ?w = Some (km, w')" by simp
  moreover have "\<forall>(seq, h, key) \<in> set es. um_find seq (r_map (v_receiver v1)) \<noteq> None"
    using Cons.prems(3) r by auto
  ultimately obtain v' where
    v': "re_error_loop call e es v1 ?w = Some (True, v', w')"
      "follows react v1 ?w ((v_receiver v1)\<lparr>r_key_map := km\<rparr>) w' v'" using Cons.IH [OF _ live] by blast
  from follows_trans [OF f v'(2)] r have "follows react v w ((v_receiver v)\<lparr>r_key_map := km\<rparr>) w' v'" by simp
  moreover have "re_error_loop call e (x # es) v w = Some (True, v', w')"
    using x k n c v' r Cons.prems(3) by auto
  ultimately show ?case by blast
qed

lemma CallAll_follows:
  assumes "r_maps_ok (v_receiver v)" and "\<not> v_failed v"
    and "r_CallAllErrorHandlers e (v_receiver v) w = Some (r', w')"
  shows "\<exists>v'. re_CallAllErrorHandlers call e v w = Some (True, v', w') \<and> follows react v w r' w' v'"
proof -
  have h: "r_handler (v_receiver v) = None" using assms(1) by (simp add: r_maps_ok_def)
  with assms(3) obtain km where l: "r_error_loop e (r_map (v_receiver v)) (r_key_map (v_receiver v)) w = Some (km, w')"
    and r': "r' = (v_receiver v)\<lparr>r_map := [], r_key_map := km\<rparr>"
    by (auto simp: r_CallAllErrorHandlers_def split: option.splits)
  have "\<forall>(seq, h, key) \<in> set (r_map (v_receiver v)). um_find seq (r_map (v_receiver v)) \<noteq> None"
    using um_find_member by fastforce
  from error_loop_follows [OF l assms(2) this] obtain v' where
    v': "re_error_loop call e (r_map (v_receiver v)) v w = Some (True, v', w')"
      "follows react v w ((v_receiver v)\<lparr>r_key_map := km\<rparr>) w' v'" by blast
  then have "v_receiver v' = (v_receiver v)\<lparr>r_key_map := km\<rparr>" by (simp add: follows_def)
  with v' h r' show ?thesis
    by (simp add: re_CallAllErrorHandlers_def follows_def)
qed

lemma give_up_follows:
  assumes "r_maps_ok (v_receiver v)" and "\<not> v_failed v" and "r_give_up st e (v_receiver v) w = (res, r', w')"
  shows "\<exists>v'. re_give_up call st e v w = Some (res, v', w') \<and> follows react v w r' w' v'"
proof -
  have "r_CallAllErrorHandlers e (v_receiver v) w = Some (r', w')" "res = Some st"
    using assms by (auto simp: r_give_up_def r_CallAll_ok)
  with CallAll_follows [OF assms(1,2)] show ?thesis by (fastforce simp: re_give_up_def)
qed

end

section \<open>Receiving with reactions\<close>

context reacting_caller
begin

lemma r_call_follows:
  assumes "r_maps_ok (v_receiver v)" and "\<not> v_failed v" and "r_call ack cmd (v_receiver v) w = (res, r', w')"
  shows "\<exists>v'. re_r_call call ack cmd v w = Some (res, v', w') \<and> follows react v w r' w' v'"
proof (cases "um_find ack (r_map (v_receiver v))")
  case None
  with assms(3) follows_refl [of react v w] show ?thesis by (auto simp: r_call_def re_r_call_def)
next
  case (Some a)
  obtain h key where a: "a = (h, key)" by (cases a)
  let ?r = "v_receiver v"
  from r_maps_ok_entry(1) [OF assms(1) Some [unfolded a]] obtain km
    where km: "um_erase key (r_key_map ?r) = (1, km)" by (auto simp: um_erase_def)
  let ?ok = "os_code (cmd_status cmd) = PROTO_SUCCESS" and ?c = "r_answer h cmd (r_value ?r)"
  let ?r2 = "?r\<lparr>r_handler := Some h, r_map := snd (um_erase ack (r_map ?r)), r_key_map := km,
      r_value := (if ?ok then None else r_value ?r)\<rparr>"
  obtain v1 where c: "call ?c (v\<lparr>v_receiver := ?r2\<rparr>) w = Some (v1, log_call ?c w)"
    and r1: "v_receiver v1 = ?r2" and f: "follows react (v\<lparr>v_receiver := ?r2\<rparr>) w ?r2 (log_call ?c w) v1"
    by (rule call_follows [of "v\<lparr>v_receiver := ?r2\<rparr>" ?c w]) (use assms in simp_all)
  have res: "res = None" "w' = log_call ?c w" "r' = ?r2\<lparr>r_handler := None\<rparr>"
    using assms(3) Some a km by (auto simp: r_call_def Let_def)
  have "re_r_call call ack cmd v w = Some (None, r_reset_handler v1, log_call ?c w)"
    using Some a km c by (cases ?ok) (simp_all add: re_r_call_def Let_def)
  moreover have "follows react v w r' (log_call ?c w) (r_reset_handler v1)"
    using f r1 res(3) by (simp add: r_reset_handler_def follows_def)
  ultimately show ?thesis using res by blast
qed

lemma dispatch_follows:
  assumes "r_maps_ok (v_receiver v)" and "\<not> v_failed v" and "r_dispatch cx (v_receiver v) w = (res, r', w')"
  shows "\<exists>v'. re_dispatch cx call v w = Some (res, v', w') \<and> follows react v w r' w' v'"
proof -
  define r1 where "r1 = (\<lambda>cmd :: command. case h_connectionid (cmd_header cmd) of
      Some c \<Rightarrow> (v_receiver v)\<lparr>r_connection_id := c\<rparr> | None \<Rightarrow> v_receiver v)"
  have ok: "r_maps_ok (v_receiver (v\<lparr>v_receiver := r1 cmd\<rparr>))" for cmd
    using assms(1) by (simp add: r1_def split: option.splits)
  have live: "\<not> v_failed (v\<lparr>v_receiver := r1 cmd\<rparr>)" for cmd using assms(2) by simp
  note give = give_up_follows [OF assms(1,2)]
  note give1 = give_up_follows [OF ok live] and call1 = r_call_follows [OF ok live]
  define bad where "bad \<longleftrightarrow> msg_hmacauth (r_message (v_receiver v)) \<noteq> None \<and> \<not> ValidateHmac (cx_hmac_sha1 cx)
      (r_message (v_receiver v)) (co_hmac_key (r_options (v_receiver v)))"
  note d = r_dispatch_def [of cx "v_receiver v" w, unfolded Let_def, folded bad_def]
    and e = re_dispatch_def [of cx call v w, unfolded Let_def, folded bad_def]
  show ?thesis
  proof (cases bad)
    case True
    with assms(3) give show ?thesis by (simp add: d e)
  next
    case False
    show ?thesis
    proof (cases "cx_parse_command cx (msg_commandbytes (r_message (v_receiver v)))")
      case None
      with False assms(3) give show ?thesis by (simp add: d e)
    next
      case (Some cmd)
      let ?cmd = "if msg_authtype (r_message (v_receiver v)) = UNSOLICITEDSTATUS
          then cmd\<lparr>cmd_header := (cmd_header cmd)\<lparr>h_acksequence := Some (- 1)\<rparr>\<rparr> else cmd"
      show ?thesis
      proof (cases "h_acksequence (cmd_header ?cmd)")
        case None
        from Some False None assms(3) have "r_give_up kIdle no_ack_error (r1 cmd) w = (res, r', w')"
          by (simp add: d r1_def)
        with give1 [of kIdle no_ack_error cmd w res r' w'] obtain v' where
          "re_give_up call kIdle no_ack_error (v\<lparr>v_receiver := r1 cmd\<rparr>) w = Some (res, v', w')"
          "follows react v w r' w' v'" by auto
        with Some False None show ?thesis by (simp add: e r1_def)
      next
        case (Some ack)
        note ack = this
        from \<open>cx_parse_command cx _ = Some cmd\<close> False ack assms(3)
        have "r_call ack ?cmd (r1 cmd) w = (res, r', w')"
          by (simp add: d r1_def del: if_split)
        with call1 [of ack ?cmd cmd w res r' w'] obtain v' where
          "re_r_call call ack ?cmd (v\<lparr>v_receiver := r1 cmd\<rparr>) w = Some (res, v', w')"
          "follows react v w r' w' v'" by auto
        with \<open>cx_parse_command cx _ = Some cmd\<close> False ack show ?thesis
          by (simp add: e r1_def del: if_split)
      qed
    qed
  qed
qed

lemma r_turn_follows:
  assumes "r_maps_ok (v_receiver v)" and "\<not> v_failed v" and "r_turn cx (v_receiver v) w = (res, r', w')"
  shows "\<exists>v'. re_r_turn cx call v w = Some (res, v', w') \<and> follows react v w r' w' v'"
proof (cases "r_next (v_receiver v)")
  case None
  with assms(3) follows_refl [of react v w] show ?thesis by (simp add: r_turn_def re_r_turn_def Let_def)
next
  case (Some pr)
  let ?r = "v_receiver v"
  obtain st pr' rd' m' x where rd: "pr_Read (cx_parse_message cx) pr (w_rd w) (r_message ?r) (r_value ?r)
      = (st, pr', rd', m', x)" by (metis prod_cases5)
  let ?r1 = "?r\<lparr>r_response := Some pr', r_message := m', r_value := x\<rparr>" and ?w = "w\<lparr>w_rd := rd'\<rparr>"
  let ?r2 = "?r1\<lparr>r_response := None\<rparr>"
  have ok: "r_maps_ok (v_receiver (v\<lparr>v_receiver := ?r1\<rparr>))" "r_maps_ok (v_receiver (v\<lparr>v_receiver := ?r2\<rparr>))"
    using assms(1) by simp_all
  have live: "\<not> v_failed (v\<lparr>v_receiver := ?r1\<rparr>)" "\<not> v_failed (v\<lparr>v_receiver := ?r2\<rparr>)" using assms(2) by simp_all
  have f: "follows react v w ?r1 ?w (v\<lparr>v_receiver := ?r1\<rparr>)"
    by (auto simp: follows_def intro: exI [of _ "[]"])
  show ?thesis
  proof (cases st)
    case kDone
    with assms(3) Some rd have "r_dispatch cx (v_receiver (v\<lparr>v_receiver := ?r2\<rparr>)) ?w = (res, r', w')"
      by (simp add: r_turn_def Let_def)
    from dispatch_follows [OF ok(2) live(2) this] kDone Some rd show ?thesis
      by (simp add: re_r_turn_def Let_def)
  next
    case kFailed
    with assms(3) Some rd have "r_give_up kError read_error (v_receiver (v\<lparr>v_receiver := ?r1\<rparr>)) ?w = (res, r', w')"
      by (simp add: r_turn_def Let_def)
    from give_up_follows [OF ok(1) live(1) this] kFailed Some rd show ?thesis
      by (simp add: re_r_turn_def Let_def)
  qed (use assms(3) Some rd f in \<open>auto simp: r_turn_def re_r_turn_def Let_def\<close>)
qed

lemma Receive_follows:
  assumes "r_Receive cx (v_receiver v) w = (st, r', w')" and "r_maps_ok (v_receiver v)" and "r_live (v_receiver v)"
    and "\<not> v_failed v" and "r_load (v_receiver v) w < n"
  shows "\<exists>v'. re_Receive n cx call v w = Some (st, v', w') \<and> follows react v w r' w' v'"
  using assms
proof (induction n arbitrary: v w)
  case (Suc n)
  obtain res r1 w1 where t: "r_turn cx (v_receiver v) w = (res, r1, w1)" by (metis prod_cases3)
  from r_turn_follows [OF Suc.prems(2,4) t] obtain v1 where
    v1: "re_r_turn cx call v w = Some (res, v1, w1)" "follows react v w r1 w1 v1" by blast
  then have r1: "v_receiver v1 = r1" by (simp add: follows_def)
  show ?case
  proof (cases res)
    case None
    with Suc.prems(1) t have R: "r_Receive cx (v_receiver v1) w1 = (st, r', w')"
      by (simp add: r_Receive.simps [of cx "v_receiver v"] r1)
    have "r_maps_ok r1" "r_live r1" using r_turn_conserves [OF t Suc.prems(2,3)] None by auto
    moreover have "r_load r1 w1 < n" using r_turn_load [OF t [unfolded None]] Suc.prems(5) by simp
    ultimately obtain v' where "re_Receive n cx call v1 w1 = Some (st, v', w')" "follows react v1 w1 r' w' v'"
      using Suc.IH [OF R] follows_live [OF v1(2)] Suc.prems(4) r1 by blast
    with v1 None follows_trans [OF v1(2)] show ?thesis by auto
  next
    case (Some x)
    with Suc.prems(1) t have "x = st" "r' = r1" "w' = w1" by (simp_all add: r_Receive.simps [of cx "v_receiver v"])
    with v1 Some show ?thesis by simp
  qed
qed simp

end

section \<open>Sending with reactions\<close>

text \<open>
  Handlers are accounted for: between two states of a live service, what was owned or called before
  and what the reactions submitted is what is owned or called after.
\<close>

definition accounts :: "'h reaction \<Rightarrow> 'h service \<Rightarrow> 'h world \<Rightarrow> 'h service \<Rightarrow> 'h world \<Rightarrow> bool" where
  "accounts react v w v' w' \<longleftrightarrow>
     (\<exists>ds. w_log w' = w_log w @ ds \<and>
        v_pending v' + called w' = v_pending v + called w + mset (map su_handler (reactions react (w_log w) ds)))"

lemma accounts_refl [simp]: "accounts react v w v w"
  by (auto simp: accounts_def intro: exI [of _ "[]"])

lemma accounts_silent: "v_pending v' = v_pending v \<Longrightarrow> w_log w' = w_log w \<Longrightarrow> accounts react v w v' w'"
  by (auto simp: accounts_def called_def intro: exI [of _ "[]"])

lemma accounts_trans:
  assumes "accounts react v w v1 w1" and "accounts react v1 w1 v2 w2"
  shows "accounts react v w v2 w2"
proof -
  obtain ds where d: "w_log w1 = w_log w @ ds"
      "v_pending v1 + called w1 = v_pending v + called w + mset (map su_handler (reactions react (w_log w) ds))"
    using assms(1) by (auto simp: accounts_def)
  obtain es where e: "w_log w2 = w_log w1 @ es"
      "v_pending v2 + called w2 = v_pending v1 + called w1 + mset (map su_handler (reactions react (w_log w1) es))"
    using assms(2) by (auto simp: accounts_def)
  show ?thesis unfolding accounts_def using d e by (intro exI [of _ "ds @ es"]) (simp add: ac_simps)
qed

lemma queued_sender:
  assumes "queued us v v'"
  shows "s_handler (v_sender v') = s_handler (v_sender v)" "s_current_writer (v_sender v') = s_current_writer (v_sender v)"
    "s_wf (v_sender v') = s_wf (v_sender v)" "s_pending (v_sender v') = s_pending (v_sender v) + mset (map su_handler us)"
    "v_failed v' = v_failed v" "v_fd v' = v_fd v"
proof -
  obtain rqs where a: "v_sender v' = (v_sender v)\<lparr>s_sequence_number := s_sequence_number (v_sender v) + of_nat (length us),
      s_request_queue := s_request_queue (v_sender v) @ rqs\<rparr>" "map rq_handler rqs = map su_handler us"
    using assms by (auto simp: queued_def)
  show "s_handler (v_sender v') = s_handler (v_sender v)" "s_current_writer (v_sender v') = s_current_writer (v_sender v)"
    "s_wf (v_sender v') = s_wf (v_sender v)" by (simp_all add: a s_wf_def)
  have "mset (map rq_handler rqs) = mset (map su_handler us)" using a(2) by simp
  then show "s_pending (v_sender v') = s_pending (v_sender v) + mset (map su_handler us)"
    by (simp add: a(1) s_pending_def ac_simps)
qed (use assms in \<open>simp_all add: queued_def\<close>)

lemmas submit_all_sender [simp] = queued_sender [OF queued_submit_all]

lemma follows_accounts:
  assumes "follows react v w r' w' v'"
    and "r_pending r' + called w' = r_pending (v_receiver v) + called w"
  shows "accounts react v w v' w'"
proof -
  obtain ds where d: "w_log w' = w_log w @ ds" "queued (reactions react (w_log w) ds) v v'" and r: "v_receiver v' = r'"
    using assms(1) by (auto simp: follows_def)
  have "v_pending v' + called w' = s_pending (v_sender v') + (r_pending r' + called w')"
    by (simp add: v_pending_def r add.assoc)
  also have "\<dots> = v_pending v + called w + mset (map su_handler (reactions react (w_log w) ds))"
    by (simp add: assms(2) queued_sender(4) [OF d(2)] v_pending_def ac_simps)
  finally show ?thesis using d(1) by (auto simp: accounts_def)
qed

text \<open>A live service that can go on: what every turn of \<open>Send\<close> and \<open>Receive\<close> starts from.\<close>

definition v_good :: "'h service \<Rightarrow> bool" where
  "v_good v \<longleftrightarrow> \<not> v_failed v \<and> s_wf (v_sender v) \<and> r_maps_ok (v_receiver v) \<and> r_live (v_receiver v)"

context reacting_caller
begin

lemma fail_loop_accounts:
  assumes "re_fail_loop n call v w = Some (v', w')" and "\<not> v_failed v"
  shows "s_request_queue (v_sender v') = [] \<and> accounts react v w v' w' \<and> v_receiver v' = v_receiver v \<and>
    v_failed v' = v_failed v \<and> v_fd v' = v_fd v \<and> s_handler (v_sender v') = s_handler (v_sender v)"
  using assms
proof (induction n arbitrary: v w)
  case (Suc n)
  show ?case
  proof (cases "s_request_queue (v_sender v)")
    case Nil
    with Suc.prems show ?thesis by simp
  next
    case (Cons rq rqs)
    let ?c = "Errored (rq_handler rq) write_error None"
    let ?v = "v\<lparr>v_sender := (v_sender v)\<lparr>s_request_queue := rqs\<rparr>\<rparr>"
    let ?v1 = "submit_all cx (react (w_log w @ [?c])) ?v"
    have "re_fail_loop n call ?v1 (log_call ?c w) = Some (v', w')"
      using Suc.prems Cons by (simp add: call_live)
    from Suc.IH [OF this] Suc.prems(2) have IH: "s_request_queue (v_sender v') = []"
      "accounts react ?v1 (log_call ?c w) v' w'" "v_receiver v' = v_receiver v" "v_failed v' = v_failed v"
      "v_fd v' = v_fd v" "s_handler (v_sender v') = s_handler (v_sender v)" by simp_all
    have "accounts react v w ?v1 (log_call ?c w)"
      using Cons by (auto simp: accounts_def v_pending_def s_pending_def [of "v_sender v"]
          s_pending_def [of "(v_sender v)\<lparr>s_request_queue := rqs\<rparr>"] intro!: exI [of _ "[?c]"])
    with IH accounts_trans show ?thesis by blast
  qed
qed simp

lemma fail_accounts:
  assumes "re_fail n call h v w = Some (v', w')" and "\<not> v_failed v" and "s_handler (v_sender v) = Some h"
  shows "s_pending (v_sender v') = {#} \<and> accounts react v w v' w' \<and> v_receiver v' = v_receiver v \<and>
    v_failed v' = v_failed v \<and> v_fd v' = v_fd v"
proof -
  let ?c = "Errored h write_error None"
  let ?v1 = "submit_all cx (react (w_log w @ [?c])) v"
  have l: "re_fail_loop n call (v_reset_handler ?v1) (log_call ?c w) = Some (v', w')"
    using assms(1,2) by (simp add: re_fail_def call_live)
  have f: "\<not> v_failed (v_reset_handler ?v1)" using assms(2) by (simp add: v_reset_handler_def)
  note * = fail_loop_accounts [OF l f]
  have "s_pending (v_sender ?v1) = add_mset h (s_pending (v_sender (v_reset_handler ?v1)))"
    using assms(3) by (simp add: v_reset_handler_def s_pending_def)
  then have "accounts react v w (v_reset_handler ?v1) (log_call ?c w)"
    by (auto simp: accounts_def v_pending_def v_reset_handler_def intro!: exI [of _ "[?c]"])
  with accounts_trans * show ?thesis
    by (auto simp: v_reset_handler_def s_pending_def)
qed

lemma pass_on_accounts:
  assumes "re_pass_on call h v w = Some (v', w')" and "\<not> v_failed v" and "s_handler (v_sender v) = Some h"
    and "r_maps_ok (v_receiver v)" and "r_live (v_receiver v)"
  shows "v_good v' \<and> accounts react v w v' w' \<and> v_fd v' = v_fd v"
proof -
  let ?c = "Errored h enqueue_error None" and ?s = "v_sender v"
  obtain ok r1 where e: "r_Enqueue h (s_message_sequence ?s) (s_handler_key ?s) (v_receiver v) = (ok, r1)"
    by (cases "r_Enqueue h (s_message_sequence ?s) (s_handler_key ?s) (v_receiver v)")
  let ?v1 = "v\<lparr>v_sender := ?s\<lparr>s_current_writer := None\<rparr>, v_receiver := r1\<rparr>"
  let ?v2 = "if ok then ?v1 else submit_all cx (react (w_log w @ [?c])) ?v1"
  have res: "v' = v_reset_handler ?v2" "w' = (if ok then w else log_call ?c w)"
    using assms(1,2) e by (cases ok; simp add: re_pass_on_def call_live Let_def)+
  have r1: "r_maps_ok r1" "r_pending r1 = (if ok then add_mset h (r_pending (v_receiver v)) else r_pending (v_receiver v))"
    using r_Enqueue_accepts [OF assms(4), of h _ _ r1] r_Enqueue_rejects [OF assms(4), of h _ _ r1] e assms(4)
    by (metis (full_types))+
  have "r_live r1" using r_Enqueue_live [OF e] assms(5) by simp
  with res r1(1) assms(2) have good: "v_good v'" "v_fd v' = v_fd v"
    by (auto simp: v_good_def v_reset_handler_def s_wf_def)
  have p: "s_pending (?s\<lparr>s_current_writer := None\<rparr>) = add_mset h (s_pending (?s\<lparr>s_current_writer := None, s_handler := None\<rparr>))"
    using assms(3) by (simp add: s_pending_def)
  have p2: "s_pending (v_sender v) = s_pending (?s\<lparr>s_current_writer := None\<rparr>)" by (simp add: s_pending_def)
  have reset: "s_handler s = Some h \<Longrightarrow> s_pending s = add_mset h (s_pending (s\<lparr>s_handler := None\<rparr>))" for s :: "'h sender"
    by (simp add: s_pending_def)
  have "accounts react v w v' w'"
  proof (cases ok)
    case True
    with res r1(2) p p2 show ?thesis by (auto simp: accounts_def v_pending_def v_reset_handler_def intro!: exI [of _ "[]"])
  next
    case False
    have "s_pending (v_sender (submit_all cx (react (w_log w @ [?c])) ?v1)) =
        add_mset h (s_pending ((v_sender (submit_all cx (react (w_log w @ [?c])) ?v1))\<lparr>s_handler := None\<rparr>))"
      using assms(3) by (intro reset) simp
    with False res r1(2) p p2 show ?thesis
      by (auto simp: accounts_def v_pending_def v_reset_handler_def intro!: exI [of _ "[?c]"])
  qed
  with good show ?thesis by simp
qed

lemma s_turn_accounts:
  assumes "re_s_turn n cx call v w = Some (res, v', w')" and "v_good v"
  shows "accounts react v w v' w' \<and> v_fd v' = v_fd v \<and> \<not> v_failed v' \<and> r_maps_ok (v_receiver v') \<and>
    r_live (v_receiver v') \<and> res \<noteq> Some kCrash \<and> (res \<noteq> Some kError \<longrightarrow> s_wf (v_sender v')) \<and>
    (res = Some kError \<or> res = Some kIdle \<longrightarrow> s_pending (v_sender v') = {#})"
proof (cases "s_next (v_sender v)")
  case None
  with assms show ?thesis by (auto simp: re_s_turn_def v_good_def s_next_None s_wf_def s_pending_def)
next
  case (Some a)
  obtain s1 pw where a: "a = (s1, pw)" by (cases a)
  have wf: "s_wf (v_sender v)" using assms(2) by (simp add: v_good_def)
  from s_next_pending [OF wf Some [unfolded a]] obtain h where n: "s_wf s1" "s_pending s1 = s_pending (v_sender v)"
    "s_current_writer s1 = Some pw" "sw_wf (pw_writer pw)" "s_handler s1 = Some h" by blast
  obtain st pw' wr' out' where wr: "pw_Write (cx_ser_message cx) pw (w_wr w) (w_out w) = (st, pw', wr', out')"
    by (metis prod_cases4)
  from pw_Write_no_abort [OF wr n(4)] have st: "st \<noteq> kAbort" and wf': "sw_wf (pw_writer pw')" by auto
  let ?v = "v\<lparr>v_sender := s1\<lparr>s_current_writer := Some pw'\<rparr>\<rparr>" and ?w = "w\<lparr>w_wr := wr', w_out := out'\<rparr>"
  have sil: "accounts react v w ?v ?w"
    using n(2) by (intro accounts_silent) (simp_all add: v_pending_def s_pending_def)
  have g: "\<not> v_failed ?v" "s_handler (v_sender ?v) = Some h" "r_maps_ok (v_receiver ?v)" "r_live (v_receiver ?v)"
    "s_wf (v_sender ?v)"
    using assms(2) n wf' by (simp_all add: v_good_def s_wf_def)
  note t = assms(1) [unfolded re_s_turn_def Some a option.case prod.case wr Let_def n(5)]
  show ?thesis
  proof (cases st)
    case kInProgress
    with t have "res = Some kIoWait" "v' = ?v" "w' = ?w" by auto
    with sil g show ?thesis by simp
  next
    case kDone
    with t obtain v3 w3 where p: "re_pass_on call h ?v ?w = Some (v3, w3)" and r: "res = None" "v' = v3" "w' = w3"
      by (auto simp: bind_eq_Some_conv)
    from pass_on_accounts [OF p g(1-4)] r accounts_trans [OF sil] show ?thesis by (auto simp: v_good_def)
  next
    case kFailed
    with t obtain v3 w3 where p: "re_fail n call h ?v ?w = Some (v3, w3)" and r: "res = Some kError" "v' = v3" "w' = w3"
      by (auto simp: bind_eq_Some_conv)
    from fail_accounts [OF p g(1,2)] r accounts_trans [OF sil] g show ?thesis by auto
  qed (use st in simp)
qed

lemma Send_accounts:
  assumes "re_Send n cx call v w = Some (st, v', w')" and "v_good v"
  shows "accounts react v w v' w' \<and> v_fd v' = v_fd v \<and> \<not> v_failed v' \<and> r_maps_ok (v_receiver v') \<and>
    r_live (v_receiver v') \<and> st \<noteq> kCrash \<and> (st \<noteq> kError \<longrightarrow> s_wf (v_sender v')) \<and>
    (st = kError \<or> st = kIdle \<longrightarrow> s_pending (v_sender v') = {#})"
  using assms
proof (induction n arbitrary: v w)
  case (Suc n)
  from Suc.prems(1) obtain res v1 w1 where t: "re_s_turn n cx call v w = Some (res, v1, w1)"
    and k: "(case res of Some st \<Rightarrow> Some (st, v1, w1) | None \<Rightarrow> re_Send n cx call v1 w1) = Some (st, v', w')"
    by (auto simp: bind_eq_Some_conv)
  note s = s_turn_accounts [OF t Suc.prems(2)]
  show ?case
  proof (cases res)
    case None
    with s have "v_good v1" by (simp add: v_good_def)
    from Suc.IH [OF _ this] None k s accounts_trans [of react v w v1 w1] show ?thesis by auto
  next
    case (Some x)
    with k s show ?thesis by auto
  qed
qed simp

end

section \<open>Fuel\<close>

text \<open>On a live service every caller behaves like this one, whatever its depth of calls.\<close>

definition live_call :: "codec \<Rightarrow> 'h reaction \<Rightarrow> 'h calling" where
  "live_call cx react c v w = Some (submit_all cx (react (w_log w @ [c])) v, log_call c w)"

interpretation live: reacting_caller cx react "live_call cx react" for cx react
  by unfold_locales (simp add: live_call_def)

interpretation reentrant: reacting_caller cx react "re_call (Suc n) cx react" for cx react n
  by unfold_locales (simp add: re_call_live del: re_call.simps)

context reacting_caller
begin

lemma fail_loop_live: "\<not> v_failed v \<Longrightarrow> re_fail_loop n call v w = re_fail_loop n (live_call cx react) v w"
  by (induction n arbitrary: v w) (auto simp: call_live live_call_def split: list.splits)

lemma fail_live:
  "\<not> v_failed v \<Longrightarrow> re_fail n call h v w = re_fail n (live_call cx react) h v w"
  by (simp add: re_fail_def call_live live_call_def fail_loop_live v_reset_handler_def)

lemma pass_on_live: "\<not> v_failed v \<Longrightarrow> re_pass_on call h v w = re_pass_on (live_call cx react) h v w"
  by (simp add: re_pass_on_def call_live live_call_def Let_def split: prod.splits)

lemma s_turn_live: "\<not> v_failed v \<Longrightarrow> re_s_turn n cx call v w = re_s_turn n cx (live_call cx react) v w"
  by (simp add: re_s_turn_def Let_def fail_live pass_on_live split: prod.splits option.splits)

lemma Send_live: "v_good v \<Longrightarrow> re_Send n cx call v w = re_Send n cx (live_call cx react) v w"
proof (induction n arbitrary: v w)
  case (Suc n)
  have t: "re_s_turn n cx call v w = re_s_turn n cx (live_call cx react) v w"
    using Suc.prems by (simp add: s_turn_live v_good_def)
  show ?case
  proof (cases "re_s_turn n cx call v w")
    case (Some x)
    obtain res v1 w1 where x: "x = (res, v1, w1)" by (cases x)
    note s = s_turn_accounts [OF Some [unfolded x] Suc.prems]
    have l: "re_s_turn n cx (live_call cx react) v w = Some (res, v1, w1)" using t Some x by simp
    show ?thesis
    proof (cases res)
      case None
      with s have "v_good v1" by (simp add: v_good_def)
      with Suc.IH [OF this] Some x None l show ?thesis by simp
    qed (use l Some x in simp)
  qed (use t in simp)
qed simp

lemma error_loop_live:
  "\<not> v_failed v \<Longrightarrow> re_error_loop call e es v w = re_error_loop (live_call cx react) e es v w"
  by (induction es arbitrary: v w) (auto simp: call_live live_call_def split: prod.splits)

lemma give_up_live:
  "\<not> v_failed v \<Longrightarrow> re_give_up call st e v w = re_give_up (live_call cx react) st e v w"
  by (simp add: re_give_up_def re_CallAllErrorHandlers_def call_live live_call_def error_loop_live
      r_reset_handler_def split: option.splits)

lemma r_call_live:
  "\<not> v_failed v \<Longrightarrow> re_r_call call ack cmd v w = re_r_call (live_call cx react) ack cmd v w"
  by (simp add: re_r_call_def call_live live_call_def Let_def split: option.splits prod.splits)

lemma re_turn_live: "\<not> v_failed v \<Longrightarrow> re_r_turn cx call v w = re_r_turn cx (live_call cx react) v w"
  by (simp add: re_r_turn_def re_dispatch_def Let_def give_up_live r_call_live
      split: option.splits prod.splits nb_string_status.splits)

lemma r_turn_live:
  assumes "r_maps_ok (v_receiver v)" and "\<not> v_failed v"
  obtains res r' w' v' where "r_turn cx (v_receiver v) w = (res, r', w')"
    and "re_r_turn cx call v w = Some (res, v', w')" and "follows react v w r' w' v'"
  using r_turn_follows [OF assms] by (metis prod_cases3)

lemma r_turn_good:
  assumes "re_r_turn cx call v w = Some (None, v1, w1)" and "v_good v"
  shows "v_good v1"
proof -
  have ok: "r_maps_ok (v_receiver v)" "\<not> v_failed v" "r_live (v_receiver v)"
    using assms(2) by (simp_all add: v_good_def)
  obtain r1 where t: "r_turn cx (v_receiver v) w = (None, r1, w1)" and f: "follows react v w r1 w1 v1"
    by (rule r_turn_live [OF ok(1,2), of w]) (use assms(1) in auto)
  have "r_maps_ok (v_receiver v1)" "r_live (v_receiver v1)"
    using r_turn_conserves [OF t ok(1,3)] f by (auto simp: follows_def)
  moreover have "s_wf (v_sender v1)" "\<not> v_failed v1"
    using f assms(2) by (auto simp: follows_def v_good_def queued_sender)
  ultimately show ?thesis by (simp add: v_good_def)
qed

lemma Receive_live: "v_good v \<Longrightarrow> re_Receive n cx call v w = re_Receive n cx (live_call cx react) v w"
proof (induction n arbitrary: v w)
  case (Suc n)
  have t: "re_r_turn cx call v w = re_r_turn cx (live_call cx react) v w"
    using Suc.prems by (simp add: re_turn_live v_good_def)
  show ?case
  proof (cases "re_r_turn cx call v w")
    case (Some x)
    obtain res v1 w1 where x: "x = (res, v1, w1)" by (cases x)
    have l: "re_r_turn cx (live_call cx react) v w = Some (res, v1, w1)" using t Some x by simp
    show ?thesis
    proof (cases res)
      case None
      from r_turn_good [OF Some [unfolded x None] Suc.prems] have "v_good v1" .
      with Suc.IH [OF this] Some x None l show ?thesis by simp
    qed (use l Some x in simp)
  qed (use t in simp)
qed simp

text \<open>If \<open>Receive\<close> returns with reactions, it is the \<open>Receive\<close> without them; and it always returns.\<close>

lemma Receive_sound:
  assumes "re_Receive n cx call v w = Some (st, v', w')" and "v_good v"
  shows "r_Receive cx (v_receiver v) w = (st, v_receiver v', w') \<and> follows react v w (v_receiver v') w' v'"
  using assms
proof (induction n arbitrary: v w)
  case (Suc n)
  have ok: "r_maps_ok (v_receiver v)" "\<not> v_failed v" "r_live (v_receiver v)"
    using Suc.prems(2) by (simp_all add: v_good_def)
  obtain res r1 w1 v1 where t: "r_turn cx (v_receiver v) w = (res, r1, w1)"
    and v1: "re_r_turn cx call v w = Some (res, v1, w1)" "follows react v w r1 w1 v1"
    by (rule r_turn_live [OF ok(1,2)])
  have r1: "v_receiver v1 = r1" using v1(2) by (simp add: follows_def)
  show ?case
  proof (cases res)
    case None
    with r_turn_good v1(1) Suc.prems(2) have "v_good v1" by blast
    from Suc.IH [OF _ this] Suc.prems(1) v1 None r1 t follows_trans [OF v1(2)] show ?thesis
      by (simp add: r_Receive.simps [of cx "v_receiver v"])
  next
    case (Some x)
    with Suc.prems(1) v1 r1 t show ?thesis by (simp add: r_Receive.simps [of cx "v_receiver v"])
  qed
qed simp

end

lemma fail_loop_mono:
  "re_fail_loop n call v w = Some x \<Longrightarrow> n \<le> m \<Longrightarrow> re_fail_loop m call v w = Some x"
proof (induction n arbitrary: m v w)
  case (Suc n)
  then show ?case by (cases m) (auto split: list.splits simp: bind_eq_Some_conv)
qed simp

lemma fail_mono: "re_fail n call h v w = Some x \<Longrightarrow> n \<le> m \<Longrightarrow> re_fail m call h v w = Some x"
  by (auto simp: re_fail_def bind_eq_Some_conv intro: fail_loop_mono)

lemma s_turn_mono:
  assumes "re_s_turn n cx call v w = Some x" and "n \<le> m"
  shows "re_s_turn m cx call v w = Some x"
proof -
  have "re_fail n call h u z = None \<or> re_fail m call h u z = re_fail n call h u z" for h u z
    using fail_mono [OF _ assms(2)] by (cases "re_fail n call h u z") simp_all
  then show ?thesis using assms(1) unfolding re_s_turn_def Let_def
    by (auto split: option.splits prod.splits if_splits simp: bind_eq_Some_conv) (metis option.distinct(1))
qed

lemma Send_mono: "re_Send n cx call v w = Some x \<Longrightarrow> n \<le> m \<Longrightarrow> re_Send m cx call v w = Some x"
proof (induction n arbitrary: m v w)
  case (Suc n)
  from Suc.prems(1) obtain res v1 w1 where t: "re_s_turn n cx call v w = Some (res, v1, w1)"
    and k: "(case res of Some st \<Rightarrow> Some (st, v1, w1) | None \<Rightarrow> re_Send n cx call v1 w1) = Some x"
    by (auto simp: bind_eq_Some_conv)
  obtain m' where m: "m = Suc m'" "n \<le> m'" using Suc.prems(2) by (cases m) auto
  from s_turn_mono [OF t m(2)] k Suc.IH [OF _ m(2), of v1 w1] show ?case
    by (cases res) (auto simp: m(1))
qed simp

section \<open>Returning\<close>

text \<open>Reactions that stop: after \<open>N\<close> calls, no callback submits anything.\<close>

definition stops_after :: "nat \<Rightarrow> 'h reaction \<Rightarrow> bool" where
  "stops_after N react \<longleftrightarrow> (\<forall>cs. N \<le> length cs \<longrightarrow> react cs = [])"

text \<open>A call either brings the end of the reactions closer or submits nothing.\<close>

lemma stops_after_call:
  assumes "stops_after N react"
  shows "N - length (w_log w @ [c]) < N - length (w_log w) \<or>
    N - length (w_log w @ [c]) = N - length (w_log w) \<and> react (w_log w @ [c]) = []"
  using assms by (auto simp: stops_after_def)

lemma fail_loop_returns:
  assumes "stops_after N react" and "\<not> v_failed v"
  shows "\<exists>n x. re_fail_loop n (live_call cx react) v w = Some x"
  using assms(2)
proof (induction "(N - length (w_log w), length (s_request_queue (v_sender v)))" arbitrary: v w
    rule: wf_induct_rule [OF wf_lex_prod [OF wf_measure [of "\<lambda>x. x"] wf_measure [of "\<lambda>x. x"]]])
  case 1
  show ?case
  proof (cases "s_request_queue (v_sender v)")
    case Nil
    then have "re_fail_loop 1 (live_call cx react) v w = Some (v, w)" by simp
    then show ?thesis by blast
  next
    case (Cons rq rqs)
    let ?c = "Errored (rq_handler rq) write_error None"
    let ?v1 = "submit_all cx (react (w_log w @ [?c])) (v\<lparr>v_sender := (v_sender v)\<lparr>s_request_queue := rqs\<rparr>\<rparr>)"
    have "react (w_log w @ [?c]) = [] \<Longrightarrow> s_request_queue (v_sender ?v1) = rqs" by simp
    then have "((N - length (w_log (log_call ?c w)), length (s_request_queue (v_sender ?v1))),
        (N - length (w_log w), length (s_request_queue (v_sender v)))) \<in> measure (\<lambda>x. x) <*lex*> measure (\<lambda>x. x)"
      using stops_after_call [OF assms(1), of w ?c] Cons by auto
    from 1(1) [OF this] 1(2) obtain n x where "re_fail_loop n (live_call cx react) ?v1 (log_call ?c w) = Some x"
      by auto
    then have "re_fail_loop (Suc n) (live_call cx react) v w = Some x"
      using Cons by (simp add: live_call_def)
    then show ?thesis by blast
  qed
qed

lemma fail_returns:
  assumes "stops_after N react" and "\<not> v_failed v"
  shows "\<exists>n x. re_fail n (live_call cx react) h v w = Some x"
  using fail_loop_returns [OF assms(1)] assms(2)
  by (simp add: re_fail_def live_call_def v_reset_handler_def)

lemma pass_on_progress:
  assumes "re_pass_on (live_call cx react) h v w = Some (v', w')" and "stops_after N react"
  shows "N - length (w_log w') < N - length (w_log w) \<or>
    N - length (w_log w') = N - length (w_log w) \<and> s_load (v_sender v') = 2 * length (s_request_queue (v_sender v))"
proof -
  obtain ok r1 where e: "r_Enqueue h (s_message_sequence (v_sender v)) (s_handler_key (v_sender v)) (v_receiver v) = (ok, r1)"
    by (cases "r_Enqueue h (s_message_sequence (v_sender v)) (s_handler_key (v_sender v)) (v_receiver v)")
  show ?thesis
  proof (cases ok)
    case True
    with assms(1) e show ?thesis by (auto simp: re_pass_on_def v_reset_handler_def s_load_def)
  next
    case False
    let ?c = "Errored h enqueue_error None"
    have w': "w' = log_call ?c w" using assms(1) e False by (auto simp: re_pass_on_def live_call_def Let_def)
    have "react (w_log w @ [?c]) = [] \<Longrightarrow> s_load (v_sender v') = 2 * length (s_request_queue (v_sender v))"
      using assms(1) e False by (auto simp: re_pass_on_def live_call_def Let_def v_reset_handler_def s_load_def)
    with stops_after_call [OF assms(2), of w ?c] w' show ?thesis by auto
  qed
qed

lemma s_turn_progress:
  assumes "re_s_turn n cx (live_call cx react) v w = Some (None, v', w')" and "stops_after N react"
  shows "((N - length (w_log w'), s_load (v_sender v')), (N - length (w_log w), s_load (v_sender v)))
    \<in> measure (\<lambda>x. x) <*lex*> measure (\<lambda>x. x)"
proof -
  obtain s1 pw where n: "s_next (v_sender v) = Some (s1, pw)"
    using assms(1) by (auto simp: re_s_turn_def split: option.splits)
  obtain st pw' wr' out' where wr: "pw_Write (cx_ser_message cx) pw (w_wr w) (w_out w) = (st, pw', wr', out')"
    by (metis prod_cases4)
  let ?v = "v\<lparr>v_sender := s1\<lparr>s_current_writer := Some pw'\<rparr>\<rparr>" and ?w = "w\<lparr>w_wr := wr', w_out := out'\<rparr>"
  obtain h where "re_pass_on (live_call cx react) h ?v ?w = Some (v', w')"
    using assms(1) n wr by (auto simp: re_s_turn_def Let_def bind_eq_Some_conv split: option.splits if_splits)
  from pass_on_progress [OF this assms(2)]
  have "N - length (w_log w') < N - length (w_log w) \<or>
    N - length (w_log w') = N - length (w_log w) \<and> s_load (v_sender v') = 2 * length (s_request_queue s1)" by simp
  moreover have "2 * length (s_request_queue s1) < s_load (v_sender v)"
    using n by (auto simp: s_next_def s_load_def Let_def split: option.splits list.splits)
  ultimately show ?thesis by auto
qed

lemma s_turn_returns:
  assumes "stops_after N react" and "v_good v"
  shows "\<exists>n x. re_s_turn n cx (live_call cx react) v w = Some x"
proof (cases "s_next (v_sender v)")
  case None
  then show ?thesis by (simp add: re_s_turn_def)
next
  case (Some a)
  obtain s1 pw where a: "a = (s1, pw)" by (cases a)
  obtain st pw' wr' out' where wr: "pw_Write (cx_ser_message cx) pw (w_wr w) (w_out w) = (st, pw', wr', out')"
    by (metis prod_cases4)
  from s_next_pending Some a assms(2) obtain h where h: "s_handler s1 = Some h" by (metis v_good_def)
  let ?v = "v\<lparr>v_sender := s1\<lparr>s_current_writer := Some pw'\<rparr>\<rparr>" and ?w = "w\<lparr>w_wr := wr', w_out := out'\<rparr>"
  have live: "\<not> v_failed ?v" using assms(2) by (simp add: v_good_def)
  obtain n x where "re_fail n (live_call cx react) h ?v ?w = Some x"
    using fail_returns [OF assms(1) live] by blast
  moreover have "\<exists>y. re_pass_on (live_call cx react) h ?v ?w = Some y"
    by (auto simp: re_pass_on_def live_call_def Let_def split: prod.splits)
  ultimately show ?thesis
    by (intro exI [of _ n]) (cases x; auto simp: re_s_turn_def Some a wr h Let_def)
qed

lemma Send_returns:
  assumes "stops_after N react" and "v_good v"
  shows "\<exists>n x. re_Send n cx (live_call cx react) v w = Some x"
  using assms(2)
proof (induction "(N - length (w_log w), s_load (v_sender v))" arbitrary: v w
    rule: wf_induct_rule [OF wf_lex_prod [OF wf_measure [of "\<lambda>x. x"] wf_measure [of "\<lambda>x. x"]]])
  case 1
  obtain n res v1 w1 where t: "re_s_turn n cx (live_call cx react) v w = Some (res, v1, w1)"
    using s_turn_returns [OF assms(1) 1(2)] by (metis prod_cases3)
  show ?case
  proof (cases res)
    case (Some st)
    with t have "re_Send (Suc n) cx (live_call cx react) v w = Some (st, v1, w1)" by simp
    then show ?thesis by blast
  next
    case None
    from live.s_turn_accounts [OF t 1(2)] None have "v_good v1" by (simp add: v_good_def)
    with 1(1) [OF s_turn_progress [OF t [unfolded None] assms(1)]] obtain m x
      where m: "re_Send m cx (live_call cx react) v1 w1 = Some x" by blast
    have "re_Send (Suc (max n m)) cx (live_call cx react) v w = Some x"
      using s_turn_mono [OF t, of "max n m"] Send_mono [OF m, of "max n m"] None by simp
    then show ?thesis by blast
  qed
qed

section \<open>Run with reactions\<close>

lemma v_good_ok: "v_ok v \<Longrightarrow> \<not> v_failed v \<Longrightarrow> v_good v"
  by (simp add: v_ok_def v_good_def)

text \<open>What a returned \<open>Run\<close> is made of.\<close>

lemma re_Run_cases:
  assumes "re_Run n cx react v w = Some (res, v', w')" and "v_ok v" and "\<not> v_failed v"
  obtains (send_failed) v1 where "re_Send n cx (live_call cx react) v w = Some (kError, v1, w')"
      and "res = Run_false" and "v' = v_CleanUp v1"
  | (received) st v1 w1 rt v2 where "re_Send n cx (live_call cx react) v w = Some (st, v1, w1)" and "st \<noteq> kError"
      and "st \<noteq> kCrash" and "v_good v1" and "accounts react v w v1 w1"
      and "r_Receive cx (v_receiver v1) w1 = (rt, v_receiver v2, w')"
      and "follows react v1 w1 (v_receiver v2) w' v2" and "rt \<noteq> kCrash"
      and "(res, v') = (if rt = kError then (Run_false, v_CleanUp v2)
        else (Run_true (if rt = kIoWait then {v_fd v} else {}) (if st = kIoWait then {v_fd v} else {})
           (if st = kIoWait \<or> rt = kIoWait then v_fd v + 1 else 0), v2))"
proof -
  note good = v_good_ok [OF assms(2,3)]
  from assms(1,3) obtain m where m: "n = Suc m" by (cases n) (auto simp: re_Run_unfold)
  note eq = reentrant.Send_live [OF good, of n cx m react w, folded m]
  from assms(1,3) obtain st v1 w1 where s: "re_Send n cx (live_call cx react) v w = Some (st, v1, w1)"
    and k: "(if st = kCrash then Some (Run_crash, v1, w1)
         else if st = kError then Some (Run_false, v_CleanUp v1, w1)
         else do {
           (receiver_status, v2, w2) \<leftarrow> re_Receive n cx (re_call n cx react) v1 w1;
           (if receiver_status = kCrash then Some (Run_crash, v2, w2)
            else if receiver_status = kError then Some (Run_false, v_CleanUp v2, w2)
            else Some (Run_true (if receiver_status = kIoWait then {v_fd v} else {})
                         (if st = kIoWait then {v_fd v} else {})
                         (if st = kIoWait \<or> receiver_status = kIoWait
                          then v_fd v + 1 else 0), v2, w2)) }) = Some (res, v', w')"
    by (auto simp: re_Run_unfold eq bind_eq_Some_conv)
  note a = live.Send_accounts [OF s good]
  show ?thesis
  proof (cases "st = kError")
    case True
    with k s show ?thesis by (intro send_failed) auto
  next
    case False
    with a have good1: "v_good v1" by (simp add: v_good_def)
    from k False a obtain rt v2 w2 where r: "re_Receive n cx (re_call n cx react) v1 w1 = Some (rt, v2, w2)"
      and k2: "(if rt = kCrash then Some (Run_crash, v2, w2)
            else if rt = kError then Some (Run_false, v_CleanUp v2, w2)
            else Some (Run_true (if rt = kIoWait then {v_fd v} else {})
                         (if st = kIoWait then {v_fd v} else {})
                         (if st = kIoWait \<or> rt = kIoWait
                          then v_fd v + 1 else 0), v2, w2)) = Some (res, v', w')"
      by (auto simp: bind_eq_Some_conv split: if_splits)
    from reentrant.Receive_sound [OF r [unfolded m] good1]
    have R: "r_Receive cx (v_receiver v1) w1 = (rt, v_receiver v2, w2)"
      and f: "follows react v1 w1 (v_receiver v2) w2 v2" by simp_all
    have crash: "rt \<noteq> kCrash" using r_Receive_conserves [OF R] good1 by (simp add: v_good_def)
    from k2 crash have w2: "w2 = w'" and res: "(res, v') = (if rt = kError then (Run_false, v_CleanUp v2)
        else (Run_true (if rt = kIoWait then {v_fd v} else {}) (if st = kIoWait then {v_fd v} else {})
           (if st = kIoWait \<or> rt = kIoWait then v_fd v + 1 else 0), v2))"
      by (auto split: if_splits)
    from a have "st \<noteq> kCrash" "accounts react v w v1 w1" by simp_all
    from received [OF s False this(1) good1 this(2) R [unfolded w2] f [unfolded w2] crash res] show ?thesis .
  qed
qed

lemma re_Run_ok:
  assumes "re_Run n cx react v w = Some (res, v', w')" and "v_ok v"
  shows "v_ok v' \<and> accounts react v w v' w' \<and> res \<noteq> Run_crash"
proof (cases "v_failed v")
  case True
  with assms show ?thesis by (simp add: re_Run_unfold)
next
  case False
  show ?thesis
  proof (rule re_Run_cases [OF assms False])
    fix v1
    assume "re_Send n cx (live_call cx react) v w = Some (kError, v1, w')" and res: "res = Run_false" "v' = v_CleanUp v1"
    from live.Send_accounts [OF this(1) v_good_ok [OF assms(2) False]] res show ?thesis
      by (auto simp: v_ok_def v_CleanUp_def accounts_def v_pending_def)
  next
    fix st v1 w1 rt v2
    assume good: "v_good v1" and a: "accounts react v w v1 w1"
      and R: "r_Receive cx (v_receiver v1) w1 = (rt, v_receiver v2, w')"
      and f: "follows react v1 w1 (v_receiver v2) w' v2" and rt: "rt \<noteq> kCrash"
      and res: "(res, v') = (if rt = kError then (Run_false, v_CleanUp v2)
        else (Run_true (if rt = kIoWait then {v_fd v} else {}) (if st = kIoWait then {v_fd v} else {})
           (if st = kIoWait \<or> rt = kIoWait then v_fd v + 1 else 0), v2))"
    have ok1: "r_maps_ok (v_receiver v1)" "r_live (v_receiver v1)" "s_wf (v_sender v1)"
      using good by (simp_all add: v_good_def)
    note c = r_Receive_conserves [OF R ok1(1,2)]
    have "accounts react v1 w1 v2 w'" using c by (intro follows_accounts [OF f]) simp
    from accounts_trans [OF a this] have acc: "accounts react v w v2 w'" .
    have "s_wf (v_sender v2)" "\<not> v_failed v2"
      using f good ok1(3) by (auto simp: follows_def queued_sender v_good_def)
    with c acc res show ?thesis
      by (auto simp: v_ok_def v_CleanUp_def accounts_def v_pending_def split: if_splits)
  qed
qed

lemma Receive_mono: "re_Receive n cx call v w = Some x \<Longrightarrow> n \<le> m \<Longrightarrow> re_Receive m cx call v w = Some x"
proof (induction n arbitrary: m v w)
  case (Suc n)
  from Suc.prems(1) obtain res v1 w1 where t: "re_r_turn cx call v w = Some (res, v1, w1)"
    and k: "(case res of Some st \<Rightarrow> Some (st, v1, w1) | None \<Rightarrow> re_Receive n cx call v1 w1) = Some x"
    by (auto simp: bind_eq_Some_conv)
  obtain m' where m: "m = Suc m'" "n \<le> m'" using Suc.prems(2) by (cases m) auto
  from t k Suc.IH [OF _ m(2), of v1 w1] show ?case by (cases res) (auto simp: m(1))
qed simp

text \<open>\<open>Run\<close> written with the caller of a live service, which needs no fuel.\<close>

lemma re_Run_live:
  assumes "v_ok v" and "\<not> v_failed v" and "0 < n"
  shows "re_Run n cx react v w = do {
        (sender_status, v1, w1) \<leftarrow> re_Send n cx (live_call cx react) v w;
        (if sender_status = kError then Some (Run_false, v_CleanUp v1, w1)
         else do {
           (receiver_status, v2, w2) \<leftarrow> re_Receive n cx (live_call cx react) v1 w1;
           (if receiver_status = kCrash then Some (Run_crash, v2, w2)
            else if receiver_status = kError then Some (Run_false, v_CleanUp v2, w2)
            else Some (Run_true (if receiver_status = kIoWait then {v_fd v} else {})
                         (if sender_status = kIoWait then {v_fd v} else {})
                         (if sender_status = kIoWait \<or> receiver_status = kIoWait
                          then v_fd v + 1 else 0), v2, w2)) }) }"
proof -
  obtain m where m: "n = Suc m" using assms(3) by (cases n) auto
  note good = v_good_ok [OF assms(1,2)]
  note eq = reentrant.Send_live [OF good, of n cx m react w, folded m]
  show ?thesis
  proof (cases "re_Send n cx (live_call cx react) v w")
    case None
    with eq assms(2) show ?thesis by (simp add: re_Run_unfold)
  next
    case (Some x)
    obtain st v1 w1 where x: "x = (st, v1, w1)" by (cases x)
    note a = live.Send_accounts [OF Some [unfolded x] good]
    show ?thesis
    proof (cases "st = kError")
      case True
      with Some x eq assms(2) a show ?thesis by (simp add: re_Run_unfold)
    next
      case False
      with a have "v_good v1" by (simp add: v_good_def)
      from reentrant.Receive_live [OF this, of n cx m react w1, folded m] False Some x eq assms(2) a
      show ?thesis by (simp add: re_Run_unfold)
    qed
  qed
qed

lemma re_Run_returns:
  assumes "stops_after N react" and "v_ok v"
  shows "\<exists>n0 x. \<forall>n \<ge> n0. re_Run n cx react v w = Some x"
proof (cases "v_failed v")
  case True
  then show ?thesis by (simp add: re_Run_unfold)
next
  case False
  note good = v_good_ok [OF assms(2) False]
  obtain k st v1 w1 where k: "re_Send k cx (live_call cx react) v w = Some (st, v1, w1)"
    using Send_returns [OF assms(1) good] by (metis prod_cases3)
  note a = live.Send_accounts [OF k good]
  show ?thesis
  proof (cases "st = kError")
    case True
    have "re_Run n cx react v w = Some (Run_false, v_CleanUp v1, w1)" if "Suc k \<le> n" for n
      using that True Send_mono [OF k, of n] by (simp add: re_Run_live [OF assms(2) False])
    then show ?thesis by blast
  next
    case no: False
    with a have good1: "v_good v1" by (simp add: v_good_def)
    obtain rt r2 w2 where R: "r_Receive cx (v_receiver v1) w1 = (rt, r2, w2)" by (metis prod_cases3)
    have "\<exists>v2. re_Receive (Suc (r_load (v_receiver v1) w1)) cx (live_call cx react) v1 w1 = Some (rt, v2, w2)"
      using live.Receive_follows [OF R _ _ _ lessI] good1 unfolding v_good_def by blast
    then obtain m v2 where m: "re_Receive m cx (live_call cx react) v1 w1 = Some (rt, v2, w2)" by blast
    obtain K where K: "k \<le> K" "m \<le> K" "0 < K" by (metis max.cobounded1 max.cobounded2 le_SucI zero_less_Suc)
    have "re_Run n cx react v w = re_Run K cx react v w" if "K \<le> n" for n
      using that no K Send_mono [OF k] Receive_mono [OF m] by (simp add: re_Run_live [OF assms(2) False])
    moreover have "\<exists>x. re_Run K cx react v w = Some x"
      using no K Send_mono [OF k] Receive_mono [OF m] by (simp add: re_Run_live [OF assms(2) False])
    ultimately show ?thesis by metis
  qed
qed

text \<open>On a failed service a call answers every request that it submits, and those that they submit.\<close>

definition answered :: "'h reaction \<Rightarrow> 'h submission list \<Rightarrow> 'h service \<Rightarrow> 'h world \<Rightarrow> 'h service \<Rightarrow> 'h world \<Rightarrow> bool" where
  "answered react us v w v' w' \<longleftrightarrow>
     (\<exists>ds. w' = log_calls ds w \<and>
        mset (map cb_handler ds) = mset (map su_handler us) + mset (map su_handler (reactions react (w_log w) ds)) \<and>
        (\<forall>c \<in> set ds. \<exists>h. c = Errored h already_shut_down None)) \<and>
     (\<exists>k. v' = v\<lparr>v_next_key := k\<rparr>)"

lemma answered_Nil [simp]: "answered react [] v w v w"
  unfolding answered_def
  by (rule conjI, rule exI [of _ "[]"], simp add: log_calls_def, rule exI [of _ "v_next_key v"], simp)

lemma answered_Cons:
  assumes "answered react (react (w_log w @ [c])) v (log_call c w) v1 w1" and "answered react us v1 w1 v2 w2"
    and "c = Errored (su_handler u) already_shut_down None"
  shows "answered react (u # us) v w v2 w2"
proof -
  obtain ds k where d: "w1 = log_calls ds (log_call c w)" "mset (map cb_handler ds) =
      mset (map su_handler (react (w_log w @ [c]))) + mset (map su_handler (reactions react (w_log w @ [c]) ds))"
      "\<forall>c \<in> set ds. \<exists>h. c = Errored h already_shut_down None" "v1 = v\<lparr>v_next_key := k\<rparr>"
    using assms(1) by (auto simp: answered_def)
  obtain es k' where e: "w2 = log_calls es w1" "mset (map cb_handler es) =
      mset (map su_handler us) + mset (map su_handler (reactions react (w_log w1) es))"
      "\<forall>c \<in> set es. \<exists>h. c = Errored h already_shut_down None" "v2 = v1\<lparr>v_next_key := k'\<rparr>"
    using assms(2) by (auto simp: answered_def)
  have h: "su_handler u = cb_handler c" using assms(3) by simp
  have w: "w2 = log_calls (c # ds @ es) w" unfolding e(1) d(1) log_calls_def log_call_def by simp
  have m: "mset (map cb_handler (c # ds @ es)) = add_mset (cb_handler c)
      (mset (map su_handler (react (w_log w @ [c]))) + mset (map su_handler (reactions react (w_log w @ [c]) ds)) +
       (mset (map su_handler us) + mset (map su_handler (reactions react (w_log w @ c # ds) es))))"
    using d(2) e(2) by (simp add: d(1))
  have "mset (map su_handler (u # us)) + mset (map su_handler (reactions react (w_log w) (c # ds @ es))) = \<dots>"
    by (simp add: h ac_simps)
  with m have "mset (map cb_handler (c # ds @ es)) = mset (map su_handler (u # us)) +
      mset (map su_handler (reactions react (w_log w) (c # ds @ es)))" by simp
  moreover have "v2 = v\<lparr>v_next_key := k'\<rparr>" using d e by simp
  ultimately show ?thesis unfolding answered_def using w d(3) e(3) assms(3)
    by (auto intro!: exI [of _ "c # ds @ es"])
qed

lemma re_submits_failed:
  assumes "re_submits cx (re_call n cx react) us v w = Some (v', w')" and "v_failed v"
  shows "answered react us v w v' w'"
  using assms
proof (induction n arbitrary: us v w v' w')
  case 0
  then show ?case by (cases us) (simp_all add: re_Submit_def Let_def)
next
  case (Suc n)
  note outer = Suc.IH
  from Suc.prems show ?case
  proof (induction us arbitrary: v w)
    case (Cons u us)
    let ?c = "Errored (su_handler u) already_shut_down None" and ?v = "v\<lparr>v_next_key := v_next_key v + 1\<rparr>"
    from Cons.prems obtain v1 w1 where call: "re_call (Suc n) cx react ?c ?v w = Some (v1, w1)"
      and r: "re_submits cx (re_call (Suc n) cx react) us v1 w1 = Some (v', w')"
      by (auto simp: re_Submit_def Let_def bind_eq_Some_conv simp del: re_call.simps)
    from call have
      s: "re_submits cx (re_call n cx react) (react (w_log w @ [?c])) ?v (log_call ?c w) = Some (v1, w1)"
      by (simp add: Let_def)
    from outer [OF s] Cons.prems(2) have a: "answered react (react (w_log w @ [?c])) ?v (log_call ?c w) v1 w1" by simp
    then have "v_failed v1" using Cons.prems(2) by (auto simp: answered_def)
    from answered_Cons [OF a Cons.IH [OF r this] refl] show ?case by (auto simp: answered_def)
  qed simp
qed

lemma re_Submit_ok:
  assumes "re_Submit cx (re_call n cx react) u v w = Some (key, v', w')" and "v_ok v"
  shows "v_ok v' \<and> v_failed v' = v_failed v \<and> key = v_next_key v \<and>
    (\<exists>ds. w_log w' = w_log w @ ds \<and> v_pending v' + called w' =
       add_mset (su_handler u) (v_pending v + called w + mset (map su_handler (reactions react (w_log w) ds))))"
proof (cases "v_failed v")
  case True
  from assms(1) True have "re_submits cx (re_call n cx react) [u] v w = Some (v', w')" and k: "key = v_next_key v"
    by (auto simp: re_Submit_def Let_def bind_eq_Some_conv)
  from re_submits_failed [OF this(1) True] obtain ds k where d: "w' = log_calls ds w" "v' = v\<lparr>v_next_key := k\<rparr>"
    "mset (map cb_handler ds) = add_mset (su_handler u) (mset (map su_handler (reactions react (w_log w) ds)))"
    by (auto simp: answered_def)
  show ?thesis using d k assms(2) by (auto simp: v_ok_def v_pending_def intro!: exI [of _ ds])
next
  case False
  with assms(1) have "v' = submit_live cx u v" "w' = w" "key = v_next_key v"
    by (auto simp: re_Submit_def submit_live_def Let_def)
  with assms(2) queued_sender [OF queued_submit_live [of u v cx]] show ?thesis
    by (auto simp: v_ok_def v_pending_def submit_live_def intro!: exI [of _ "[]"])
qed

section \<open>Every history with reactions\<close>

text \<open>
  The states that a service reaches when its callbacks submit: as \<open>v_reach\<close>, with the calls of
  \<open>Submit\<close> and \<open>Run\<close> that return. \<open>S\<close> counts the requests submitted from outside.
\<close>

inductive re_reach ::
    "codec \<Rightarrow> 'h reaction \<Rightarrow> 'h service \<Rightarrow> 'h world \<Rightarrow> 'h multiset \<Rightarrow> 'h multiset \<Rightarrow> bool" for cx react where
  re_start: "r_map r = [] \<Longrightarrow> r_key_map r = [] \<Longrightarrow> r_handler r = None \<Longrightarrow> r_live r \<Longrightarrow> w_log w = [] \<Longrightarrow>
     re_reach cx react (new_service fd (new_sender opts) r) w {#} {#}"
| re_submit: "re_reach cx react v w S R \<Longrightarrow>
     re_Submit cx (re_call n cx react) u v w = Some (key, v', w') \<Longrightarrow>
     re_reach cx react v' w' (add_mset (su_handler u) S) R"
| re_run: "re_reach cx react v w S R \<Longrightarrow>
     re_Run n cx react v (w\<lparr>w_rd := w_rd w @ arrivals, w_wr := accepts\<rparr>) = Some (res, v', w') \<Longrightarrow>
     re_reach cx react v' w' S R"
| re_remove: "re_reach cx react v w S R \<Longrightarrow> v_Remove key v = Some (b, v') \<Longrightarrow>
     re_reach cx react v' w S (R + (v_pending v - v_pending v'))"

lemma re_reach_conserves:
  assumes "re_reach cx react v w S R"
  shows "v_ok v \<and> v_pending v + called w + R = S + mset (map su_handler (reactions react [] (w_log w)))"
  using assms
proof (induction rule: re_reach.induct)
  case (re_start r w fd opts)
  then show ?case
    by (simp add: v_ok_def v_pending_def new_service_def r_maps_ok_def r_pending_def called_def)
next
  case (re_submit v w S R n u key v' w')
  from re_Submit_ok [OF re_submit.hyps(2)] re_submit.IH obtain ds where "v_ok v'" "w_log w' = w_log w @ ds"
    "v_pending v' + called w' =
       add_mset (su_handler u) (v_pending v + called w + mset (map su_handler (reactions react (w_log w) ds)))" by blast
  moreover from this(3) have "v_pending v' + called w' + R = add_mset (su_handler u)
      (v_pending v + called w + R + mset (map su_handler (reactions react (w_log w) ds)))" by (simp add: ac_simps)
  ultimately show ?case using re_submit.IH by simp
next
  case (re_run v w S R n arrivals accepts res v' w')
  from re_Run_ok [OF re_run.hyps(2)] re_run.IH obtain ds where "v_ok v'" "w_log w' = w_log w @ ds"
    "v_pending v' + called w' = v_pending v + called w + mset (map su_handler (reactions react (w_log w) ds))"
    by (auto simp: accounts_def)
  moreover from this(3) have "v_pending v' + called w' + R =
      v_pending v + called w + R + mset (map su_handler (reactions react (w_log w) ds))" by (simp add: ac_simps)
  ultimately show ?case using re_run.IH by simp
next
  case (re_remove v w S R key b v')
  from v_Remove_ok [of v key] re_remove have ok: "v_ok v'"
    and d: "(\<exists>h. v_pending v = add_mset h (v_pending v')) \<or> v' = v" by (auto split: if_splits)
  from d have "v_pending v' + (v_pending v - v_pending v') = v_pending v" by auto
  then have "v_pending v' + called w + (R + (v_pending v - v_pending v')) = v_pending v + called w + R"
    by (simp add: ac_simps)
  with ok re_remove.IH show ?case by simp
qed

text \<open>
  Callbacks may submit requests of their own. Whatever each callback submits, in every state
  that a history of submissions, runs and removals reaches, each handler, submitted from outside or
  by a callback made so far, waits, has been called once, or was removed. No \<open>Run\<close> crashes, and if the
  reactions stop after some number of calls, \<open>Run\<close> returns, whatever the network does.
\<close>

lemma reentrant_handlers_once:
  assumes "re_reach cx react v w S R"
  shows "v_pending v + called w + R = S + mset (map su_handler (reactions react [] (w_log w))) \<and>
    (\<forall>n w1. case re_Run n cx react v w1 of None \<Rightarrow> True | Some (res, v', w') \<Rightarrow> res \<noteq> Run_crash) \<and>
    (\<forall>N w1. stops_after N react \<longrightarrow> (\<exists>n0 x. \<forall>n \<ge> n0. re_Run n cx react v w1 = Some x))"
proof -
  have ok: "v_ok v" using re_reach_conserves [OF assms] by simp
  have "case re_Run n cx react v w1 of None \<Rightarrow> True | Some (res, v', w') \<Rightarrow> res \<noteq> Run_crash" for n w1
    using re_Run_ok [OF _ ok, of n cx react w1] by (auto split: option.splits)
  with re_reach_conserves [OF assms] re_Run_returns [OF _ ok] show ?thesis by blast
qed

definition example_submission :: "char list \<Rightarrow> char list submission" where
  "example_submission h = \<lparr>su_message = new_message, su_command = empty_command, su_value = [6], su_handler = h\<rparr>"

definition example_reaction :: "char list reaction" where
  "example_reaction cs = (if length cs = 1 then [example_submission ''c''] else [])"

section \<open>Without reactions\<close>

text \<open>When no callback submits anything, the functions above are those of the service.\<close>

abbreviation silent :: "'h reaction" where
  "silent \<equiv> \<lambda>_. []"

lemma fail_loop_silent:
  "length (s_request_queue (v_sender v)) < n \<Longrightarrow>
    re_fail_loop n (live_call cx silent) v w =
      Some (v\<lparr>v_sender := (v_sender v)\<lparr>s_request_queue := []\<rparr>\<rparr>,
        log_calls (map (\<lambda>rq. Errored (rq_handler rq) write_error None) (s_request_queue (v_sender v))) w)"
proof (induction n arbitrary: v w)
  case (Suc n)
  show ?case
  proof (cases "s_request_queue (v_sender v)")
    case Nil
    then have "v\<lparr>v_sender := (v_sender v)\<lparr>s_request_queue := []\<rparr>\<rparr> = v" by (cases v; cases "v_sender v") simp
    with Nil show ?thesis by (simp add: log_calls_def)
  next
    case (Cons rq rqs)
    with Suc show ?thesis by (simp add: live_call_def log_calls_def log_call_def)
  qed
qed simp

lemma fail_silent:
  assumes "length (s_request_queue (v_sender v)) < n" and "s_fail h (v_sender v) w = (s', w')"
  shows "re_fail n (live_call cx silent) h v w = Some (v\<lparr>v_sender := s'\<rparr>, w')"
proof -
  have "length (s_request_queue (v_sender (v_reset_handler v))) < n" using assms(1) by (simp add: v_reset_handler_def)
  from fail_loop_silent [OF this] assms(2) show ?thesis
    by (auto simp: re_fail_def live_call_def s_fail_def v_reset_handler_def log_calls_def log_call_def)
qed

lemma s_turn_silent:
  assumes "s_turn cx r_Enqueue (v_sender v) (v_receiver v) w = (res, s', r', w')" and "s_load (v_sender v) \<le> n"
  shows "re_s_turn n cx (live_call cx silent) v w = Some (res, v\<lparr>v_sender := s', v_receiver := r'\<rparr>, w')"
proof (cases "s_next (v_sender v)")
  case None
  with assms show ?thesis by (simp add: s_turn_def re_s_turn_def)
next
  case (Some a)
  obtain s1 pw where a: "a = (s1, pw)" by (cases a)
  obtain st pw' wr' out' where wr: "pw_Write (cx_ser_message cx) pw (w_wr w) (w_out w) = (st, pw', wr', out')"
    by (metis prod_cases4)
  let ?s = "s1\<lparr>s_current_writer := Some pw'\<rparr>" and ?w = "w\<lparr>w_wr := wr', w_out := out'\<rparr>"
  let ?v = "v\<lparr>v_sender := ?s\<rparr>"
  have q: "length (s_request_queue (v_sender ?v)) < n"
    using Some a assms(2) by (auto simp: s_next_def s_load_def Let_def split: option.splits list.splits)
  obtain s3 w3 where f: "s_fail h ?s ?w = (s3 h, w3 h)" for h by (simp add: s_fail_def)
  show ?thesis
  proof (cases "s_handler s1")
    case None
    with assms(1) Some a wr show ?thesis by (simp add: s_turn_def re_s_turn_def Let_def split: if_splits)
  next
    case h: (Some h)
    obtain ok r1 where e: "r_Enqueue h (s_message_sequence s1) (s_handler_key s1) (v_receiver v) = (ok, r1)"
      by (cases "r_Enqueue h (s_message_sequence s1) (s_handler_key s1) (v_receiver v)")
    have "re_pass_on (live_call cx silent) h ?v ?w = Some (v\<lparr>v_sender := ?s\<lparr>s_current_writer := None, s_handler := None\<rparr>,
        v_receiver := r1\<rparr>, if ok then ?w else log_call (Errored h enqueue_error None) ?w)"
      using e by (simp add: re_pass_on_def live_call_def v_reset_handler_def Let_def)
    with assms(1) Some a wr h e fail_silent [OF q, of h ?w] show ?thesis
      by (cases st) (auto simp: s_turn_def re_s_turn_def Let_def split: prod.splits)
  qed
qed

lemma Send_silent:
  assumes "s_Send cx r_Enqueue (v_sender v) (v_receiver v) w = (st, s', r', w')" and "s_load (v_sender v) < n"
  shows "re_Send n cx (live_call cx silent) v w = Some (st, v\<lparr>v_sender := s', v_receiver := r'\<rparr>, w')"
  using assms
proof (induction n arbitrary: v w)
  case (Suc n)
  obtain res s1 r1 w1 where t: "s_turn cx r_Enqueue (v_sender v) (v_receiver v) w = (res, s1, r1, w1)"
    by (metis prod_cases4)
  have l: "s_load (v_sender v) \<le> n" using Suc.prems(2) by simp
  note r = s_turn_silent [OF t l]
  show ?case
  proof (cases res)
    case None
    let ?v = "v\<lparr>v_sender := s1, v_receiver := r1\<rparr>"
    from Suc.prems(1) t None have "s_Send cx r_Enqueue (v_sender ?v) (v_receiver ?v) w1 = (st, s', r', w')"
      by (simp add: s_Send.simps [of cx r_Enqueue "v_sender v"])
    moreover have "s_load (v_sender ?v) < n" using s_turn_load [OF t [unfolded None]] l by simp
    ultimately have "re_Send n cx (live_call cx silent) ?v w1 = Some (st, ?v\<lparr>v_sender := s', v_receiver := r'\<rparr>, w')"
      by (rule Suc.IH)
    with r None show ?thesis by simp
  next
    case (Some x)
    with Suc.prems(1) t r show ?thesis by (simp add: s_Send.simps [of cx r_Enqueue "v_sender v"])
  qed
qed simp

lemma s_Send_reading:
  assumes "s_Send cx r_Enqueue s r w = (st, s', r', w')"
  shows "w_rd w' = w_rd w \<and> r_response r' = r_response r"
proof (rule s_Send_rule [where I = "\<lambda>s1 r1 w1. w_rd w1 = w_rd w \<and> r_response r1 = r_response r", OF assms])
  have e: "r_Enqueue h seq key q = (ok, q') \<Longrightarrow> r_response q' = r_response q" for h seq key ok q q'
    by (auto simp: r_Enqueue_def split: prod.splits bool.splits)
  show "s_turn cx r_Enqueue s1 r1 w1 = (None, s2, r2, w2) \<Longrightarrow> w_rd w1 = w_rd w \<and> r_response r1 = r_response r \<Longrightarrow>
      w_rd w2 = w_rd w \<and> r_response r2 = r_response r" for s1 r1 w1 s2 r2 w2
    by (auto simp: s_turn_def Let_def s_fail_def split: option.splits prod.splits if_splits dest: e)
  show "s_turn cx r_Enqueue s1 r1 w1 = (Some st, s2, r2, w2) \<Longrightarrow> w_rd w1 = w_rd w \<and> r_response r1 = r_response r \<Longrightarrow>
      w_rd w2 = w_rd w \<and> r_response r2 = r_response r" for s1 r1 w1 st s2 r2 w2
    by (auto simp: s_turn_def Let_def s_fail_def split: option.splits prod.splits if_splits dest: e)
qed simp

lemma re_Run_silent:
  assumes "v_ok v" and "s_load (v_sender v) < n" and "r_load (v_receiver v) w < n"
  shows "re_Run n cx silent v w = Some (v_Run cx v w)"
proof (cases "v_failed v")
  case True
  then show ?thesis by (simp add: re_Run_unfold v_Run_def)
next
  case False
  note good = v_good_ok [OF assms(1) False]
  obtain st s1 r1 w1 where S: "s_Send cx r_Enqueue (v_sender v) (v_receiver v) w = (st, s1, r1, w1)"
    by (metis prod_cases4)
  let ?v1 = "v\<lparr>v_sender := s1, v_receiver := r1\<rparr>"
  note s = Send_silent [OF S assms(2)]
  note run = re_Run_live [OF assms(1) False, of n cx silent w]
  have n: "0 < n" using assms(2) by simp
  from live.Send_accounts [OF s good] have a: "st \<noteq> kCrash" "r_maps_ok r1" "r_live r1" "\<not> v_failed ?v1" by auto
  obtain rt r2 w2 where R: "r_Receive cx r1 w1 = (rt, r2, w2)" by (metis prod_cases3)
  have "r_load r1 w1 < n" using s_Send_reading [OF S] assms(3) by (simp add: r_load_def)
  with live.Receive_follows [of cx ?v1 w1 rt r2 w2 n silent] R a obtain v2 where
    v2: "re_Receive n cx (live_call cx silent) ?v1 w1 = Some (rt, v2, w2)" and f: "follows silent ?v1 w1 r2 w2 v2"
    by auto
  have none: "reactions silent cs ds = []" for cs ds :: "'a callback list"
    by (induction ds arbitrary: cs) simp_all
  have "v2 = ?v1\<lparr>v_receiver := r2\<rparr>"
    using f by (cases v2) (auto simp: follows_def queued_def none)
  with run n s v2 a S R show ?thesis
    by (cases "st = kError") (simp_all add: v_Run_def False Let_def)
qed

section \<open>Reactions that never stop\<close>

text \<open>
  A client that answers every error with a new request. After a failed write the loop of \<open>Send\<close> tells
  the new request too, which submits the next one; the service is marked as failed only after \<open>Send\<close>
  has returned, which it never does.
\<close>

definition answers_errors :: "'h reaction \<Rightarrow> bool" where
  "answers_errors react \<longleftrightarrow> (\<forall>cs h e x. react (cs @ [Errored h e x]) \<noteq> [])"

lemma live_call_queue:
  assumes "answers_errors react" and "live_call cx react (Errored h e x) v w = Some (v', w')"
  shows "s_request_queue (v_sender v') \<noteq> []"
  using assms queued_submit_all [of "react (w_log w @ [Errored h e x])" v cx]
  by (auto simp: live_call_def queued_def answers_errors_def)

lemma fail_loop_diverges:
  assumes "answers_errors react" and "s_request_queue (v_sender v) \<noteq> []"
  shows "re_fail_loop n (live_call cx react) v w = None"
  using assms(2)
proof (induction n arbitrary: v w)
  case (Suc n)
  then obtain rq rqs where q: "s_request_queue (v_sender v) = rq # rqs" by (cases "s_request_queue (v_sender v)") auto
  let ?c = "Errored (rq_handler rq) write_error None" and ?v = "v\<lparr>v_sender := (v_sender v)\<lparr>s_request_queue := rqs\<rparr>\<rparr>"
  obtain v1 w1 where c: "live_call cx react ?c ?v w = Some (v1, w1)" by (simp add: live_call_def)
  from live_call_queue [OF assms(1) c] Suc.IH c q show ?case by simp
qed simp

lemma fail_diverges:
  assumes "answers_errors react"
  shows "re_fail n (live_call cx react) h v w = None"
proof -
  obtain v1 w1 where c: "live_call cx react (Errored h write_error None) v w = Some (v1, w1)"
    by (simp add: live_call_def)
  from live_call_queue [OF assms c] c fail_loop_diverges [OF assms, of "v_reset_handler v1"] show ?thesis
    by (simp add: re_fail_def v_reset_handler_def)
qed

text \<open>So a \<open>Send\<close> that meets a failed write does not return, whichever request it was writing.\<close>

lemma s_turn_no_error:
  assumes "answers_errors react"
    and "re_s_turn n cx (live_call cx react) v w = Some (res, v1, w1)"
  shows "res \<noteq> Some kError"
proof (cases "s_next (v_sender v)")
  case (Some a)
  obtain s1 pw where a: "a = (s1, pw)" by (cases a)
  obtain st pw' wr' out' where wr: "pw_Write (cx_ser_message cx) pw (w_wr w) (w_out w) = (st, pw', wr', out')"
    by (metis prod_cases4)
  note t = assms(2) [unfolded re_s_turn_def Some a option.case prod.case wr Let_def]
  show ?thesis
  proof (cases "s_handler s1")
    case (Some h)
    with t show ?thesis
      by (cases st) (auto simp: fail_diverges [OF assms(1)] bind_eq_Some_conv)
  qed (use t in \<open>auto split: if_splits\<close>)
qed (use assms(2) in \<open>auto simp: re_s_turn_def\<close>)

lemma Send_no_error:
  assumes "answers_errors react"
    and "re_Send n cx (live_call cx react) v w = Some (st, v', w')"
  shows "st \<noteq> kError"
  using assms(2)
proof (induction n arbitrary: v w)
  case (Suc n)
  from Suc.prems obtain res v1 w1 where t: "re_s_turn n cx (live_call cx react) v w = Some (res, v1, w1)"
    and k: "(case res of Some st \<Rightarrow> Some (st, v1, w1) | None \<Rightarrow> re_Send n cx (live_call cx react) v1 w1) = Some (st, v', w')"
    by (auto simp: bind_eq_Some_conv)
  show ?case
  proof (cases res)
    case None
    with k Suc.IH show ?thesis by simp
  next
    case (Some x)
    with k s_turn_no_error [OF assms(1) t] show ?thesis by simp
  qed
qed simp

text \<open>
  Where a \<open>Send\<close> without reactions meets a failed write, so does the one with reactions: up to there
  its sender is the same but for requests at the end of the queue, which callbacks of rejected
  handlers have submitted.
\<close>

definition s_extends :: "'h sender \<Rightarrow> 'h sender \<Rightarrow> bool" where
  "s_extends s s' \<longleftrightarrow> (\<exists>q rqs. s' = s\<lparr>s_sequence_number := q, s_request_queue := s_request_queue s @ rqs\<rparr>)"

lemma s_extends_refl: "s_extends s s"
  unfolding s_extends_def by (intro exI [of _ "s_sequence_number s"] exI [of _ "[]"]) simp

lemma s_extends_next:
  assumes "s_next s = Some (s1, pw)" and "s_extends s s'"
  shows "\<exists>s1'. s_next s' = Some (s1', pw) \<and> s_extends s1 s1'"
  using assms by (cases s) (force simp: s_next_def s_extends_def Let_def split: option.splits list.splits)

lemma queued_extends: "s_extends s (v_sender v) \<Longrightarrow> queued us v v' \<Longrightarrow> s_extends s (v_sender v')"
  by (force simp: s_extends_def queued_def)

lemma s_extends_handler: "s_extends s s' \<Longrightarrow> s_handler s' = s_handler s"
  by (auto simp: s_extends_def)

lemma s_extends_update:
  "s_extends s s' \<Longrightarrow> s_extends (s\<lparr>s_current_writer := x\<rparr>) (s'\<lparr>s_current_writer := x\<rparr>)"
  "s_extends s s' \<Longrightarrow> s_extends (s\<lparr>s_handler := y\<rparr>) (s'\<lparr>s_handler := y\<rparr>)"
  unfolding s_extends_def by (cases s; force)+

lemma pass_on_extends:
  assumes "re_pass_on (live_call cx react) h v w = Some (v', w')" and "s_extends s (v_sender v)"
    and "r_Enqueue h (s_message_sequence s) (s_handler_key s) (v_receiver v) = (ok, r')"
  shows "v_receiver v' = r' \<and> w' = (if ok then w else log_call (Errored h enqueue_error None) w) \<and>
    s_extends (s\<lparr>s_current_writer := None, s_handler := None\<rparr>) (v_sender v')"
proof -
  have e: "r_Enqueue h (s_message_sequence (v_sender v)) (s_handler_key (v_sender v)) (v_receiver v) = (ok, r')"
    using assms(2,3) by (auto simp: s_extends_def)
  let ?v = "v\<lparr>v_sender := (v_sender v)\<lparr>s_current_writer := None\<rparr>, v_receiver := r'\<rparr>"
  have x: "s_extends (s\<lparr>s_current_writer := None\<rparr>) (v_sender ?v)"
    using s_extends_update(1) [OF assms(2)] by simp
  from s_extends_update(2) [OF x] s_extends_update(2) [OF queued_extends [OF x queued_submit_all]] assms(1) e
  show ?thesis by (cases ok) (auto simp: re_pass_on_def live_call_def v_reset_handler_def Let_def)
qed

lemma Send_diverges:
  assumes "answers_errors react"
    and "s_Send cx r_Enqueue s r w = (kError, s', r', w')" and "s_extends s (v_sender v)" and "v_receiver v = r"
  shows "re_Send n cx (live_call cx react) v w = None"
  using assms(2-4)
proof (induction n arbitrary: s v r w)
  case (Suc n)
  obtain res s1 r1 w1 where turn: "s_turn cx r_Enqueue s r w = (res, s1, r1, w1)" by (metis prod_cases4)
  have res: "res = None \<or> res = Some kError"
    using Suc.prems(1) turn by (auto simp: s_Send.simps [of cx r_Enqueue s r w] split: option.splits)
  then have "s_next s \<noteq> None" using turn by (cases "s_next s") (auto simp: s_turn_def)
  then obtain s2 pw where n: "s_next s = Some (s2, pw)" by auto
  obtain s2' where n': "s_next (v_sender v) = Some (s2', pw)" and x: "s_extends s2 s2'"
    using s_extends_next [OF n Suc.prems(2)] by blast
  obtain st pw' wr' out' where wr: "pw_Write (cx_ser_message cx) pw (w_wr w) (w_out w) = (st, pw', wr', out')"
    by (metis prod_cases4)
  let ?w = "w\<lparr>w_wr := wr', w_out := out'\<rparr>"
  note t = turn [unfolded s_turn_def n option.case prod.case wr Let_def]
  obtain h where h: "s_handler s2 = Some h" using t res by (auto split: if_splits option.splits)
  show ?case
  proof (cases "re_s_turn n cx (live_call cx react) v w")
    case (Some y)
    obtain res' v1 w1' where y: "y = (res', v1, w1')" by (cases y)
    note t' = Some [unfolded y re_s_turn_def n' option.case prod.case wr Let_def]
    have "st = kDone"
      using t t' res h s_extends_handler [OF x] by (cases st) (auto simp: fail_diverges [OF assms(1)])
    obtain ok rr where e: "r_Enqueue h (s_message_sequence s2) (s_handler_key s2) r = (ok, rr)" by fastforce
    let ?v = "v\<lparr>v_sender := s2'\<lparr>s_current_writer := Some pw'\<rparr>\<rparr>"
    have p: "re_pass_on (live_call cx react) h ?v ?w = Some (v1, w1')" and "res' = None"
      using t' \<open>st = kDone\<close> h s_extends_handler [OF x] by (auto simp: bind_eq_Some_conv)
    have x': "s_extends (s2\<lparr>s_current_writer := Some pw'\<rparr>) (v_sender ?v)" using s_extends_update(1) [OF x] by simp
    have e': "r_Enqueue h (s_message_sequence (s2\<lparr>s_current_writer := Some pw'\<rparr>))
        (s_handler_key (s2\<lparr>s_current_writer := Some pw'\<rparr>)) (v_receiver ?v) = (ok, rr)"
      using e Suc.prems(3) by simp
    note q = pass_on_extends [OF p x' e']
    have i: "res = None" "s1 = s2\<lparr>s_current_writer := None, s_handler := None\<rparr>" "r1 = rr" "w1 = w1'"
      using t \<open>st = kDone\<close> h e q by auto
    have "s_Send cx r_Enqueue s1 r1 w1 = (kError, s', r', w')"
      using Suc.prems(1) turn i(1) by (simp add: s_Send.simps [of cx r_Enqueue s r w])
    from Suc.IH [OF this] q i Some y \<open>res' = None\<close> show ?thesis by simp
  qed simp
qed simp

lemma re_Run_diverges:
  assumes "v_ok v" and "\<not> v_failed v" and "fst (s_Send cx r_Enqueue (v_sender v) (v_receiver v) w) = kError"
    and "answers_errors react"
  shows "re_Run n cx react v w = None"
proof -
  obtain s' r' w' where "s_Send cx r_Enqueue (v_sender v) (v_receiver v) w = (kError, s', r', w')"
    using assms(3) by (metis fst_conv prod_cases4)
  note d = Send_diverges [OF assms(4) this s_extends_refl refl]
  show ?thesis
  proof (cases "0 < n")
    case True
    with d show ?thesis by (simp add: re_Run_live [OF assms(1,2)])
  qed (use assms(2) in \<open>simp add: re_Run_unfold\<close>)
qed

lemma re_Send_no_error:
  assumes "v_ok v" and "\<not> v_failed v" and "answers_errors react"
    and "re_Send n cx (re_call n cx react) v w = Some (st, v', w')"
  shows "st \<noteq> kError"
proof -
  from assms(4) obtain m where n: "n = Suc m" by (cases n) auto
  have "re_Send n cx (live_call cx react) v w = Some (st, v', w')"
    using assms(4) reentrant.Send_live [OF v_good_ok [OF assms(1,2)], of n cx m react w] unfolding n by simp
  then show ?thesis by (rule Send_no_error [OF assms(3)])
qed

text \<open>On a service that has failed, such a client recurses: every submission calls back at once.\<close>

lemma re_call_diverges:
  assumes "answers_errors react" and "v_failed v"
  shows "re_call n cx react (Errored h e x) v w = None"
  using assms(2)
proof (induction n arbitrary: h e x v w)
  case (Suc n)
  obtain u us where "react (w_log w @ [Errored h e x]) = u # us" 
    using assms(1) unfolding answers_errors_def by (meson list.exhaust)
  with Suc show ?case by (simp add: Let_def re_Submit_def)
qed simp

lemma re_Submit_diverges:
  assumes "answers_errors react" and "v_failed v"
  shows "re_Submit cx (re_call n cx react) u v w = None"
  using assms(2) re_call_diverges [OF assms(1), of "v\<lparr>v_next_key := v_next_key v + 1\<rparr>"]
  by (simp add: re_Submit_def Let_def)

section \<open>Requests of callbacks and the descriptors of Run\<close>

lemma Send_idle:
  "s_next (v_sender v) = None \<Longrightarrow> re_Send n cx call v w = Some (st, v1, w1) \<Longrightarrow> st = kIdle \<and> v1 = v \<and> w1 = w"
  by (cases n) (auto simp: re_s_turn_def)

lemma re_Run_unannounced:
  assumes "v_ok v" and "s_next (v_sender v) = None"
    and "re_Run n cx react v w = Some (Run_true reads writes nfds, v', w')"
  shows "writes = {} \<and> (reads = {} \<longrightarrow> nfds = 0) \<and>
    (\<exists>ds. w_log w' = w_log w @ ds \<and>
       map rq_handler (s_request_queue (v_sender v')) = map su_handler (reactions react (w_log w) ds))"
proof -
  have live: "\<not> v_failed v" using assms(3) by (auto simp: re_Run_unfold)
  show ?thesis
  proof (rule re_Run_cases [OF assms(3,1) live])
    fix st v1 w1 rt v2
    assume s: "re_Send n cx (live_call cx react) v w = Some (st, v1, w1)"
      and f: "follows react v1 w1 (v_receiver v2) w' v2"
      and res: "(Run_true reads writes nfds, v') = (if rt = kError then (Run_false, v_CleanUp v2)
        else (Run_true (if rt = kIoWait then {v_fd v} else {}) (if st = kIoWait then {v_fd v} else {})
           (if st = kIoWait \<or> rt = kIoWait then v_fd v + 1 else 0), v2))"
    from Send_idle [OF assms(2) s] have i: "st = kIdle" "v1 = v" "w1 = w" by simp_all
    have "s_request_queue (v_sender v) = []" using assms(2) by (simp add: s_next_None)
    with f i have "\<exists>ds. w_log w' = w_log w @ ds \<and>
       map rq_handler (s_request_queue (v_sender v2)) = map su_handler (reactions react (w_log w) ds)"
      by (auto simp: follows_def queued_def)
    with res i show ?thesis by (auto split: if_splits)
  qed simp
qed

section \<open>What re-entrant callbacks change\<close>

text \<open>
  Without submissions from callbacks the step-by-step functions are the service: with fuel above
  the number of requests and the size of what there is to read, \<open>Run\<close> with callbacks at their place
  in the code gives the result, state, bytes and calls of \<open>v_Run\<close>.
\<close>

lemma run_without_reactions:
  assumes "v_ok v" and "s_load (v_sender v) < n" and "r_load (v_receiver v) w < n"
  shows "re_Run n cx (\<lambda>_. []) v w = Some (v_Run cx v w)"
  by (rule re_Run_silent [OF assms])

text \<open>
  C22: A client that answers every error with a new request, whatever it does on success. When a write
  of the requests that are waiting at the start of a \<open>Run\<close> fails, \<open>Run\<close> does not return: the loop that
  empties the queue is refilled by the callbacks it makes, because the service is marked as failed
  only when \<open>Send\<close> has returned. No amount of fuel gives a result. Nor does \<open>Send\<close> ever return the
  error that would make \<open>Run\<close> shut the service down, so a failed write of a request that a callback
  has submitted meanwhile ends in the same loop. On a service that has already failed, the client
  makes \<open>Submit\<close> call itself without end.
\<close>

theorem resubmitting_client_never_returns:
  assumes "v_ok v" and "answers_errors react"
  shows "(\<not> v_failed v \<longrightarrow> fst (s_Send cx r_Enqueue (v_sender v) (v_receiver v) w) = kError \<longrightarrow>
      re_Run n cx react v w = None) \<and>
    (\<not> v_failed v \<longrightarrow> re_Send n cx (re_call n cx react) v w = Some (st, v', w') \<longrightarrow> st \<noteq> kError) \<and>
    (v_failed v \<longrightarrow> re_Submit cx (re_call n cx react) u v w = None)"
  using re_Run_diverges [OF assms(1) _ _ assms(2)] re_Send_no_error [OF assms(1) _ assms(2)]
    re_Submit_diverges [OF assms(2)] by blast

text \<open>
  The client resubmits on errors only; the first request is written and the write of the second one
  fails.
\<close>

theorem resubmitting_client_never_returns_witness:
  "re_Run 100 example_codec
     (\<lambda>cs. if cs \<noteq> [] \<and> (case last cs of Errored h e x \<Rightarrow> True | Handled h c b \<Rightarrow> False)
           then [example_submission ''x''] else [])
     (example_service\<lparr>v_sender := example_sender\<rparr>)
     \<lparr>w_rd = [], w_wr = [Wr_accept 100, Wr_accept 100, Wr_accept 100, Wr_accept 100, Wr_err (Errno 32)],
      w_out = [], w_log = []\<rparr> = None"
proof -
  let ?v = "example_service\<lparr>v_sender := example_sender\<rparr>"
  let ?w = "\<lparr>w_rd = [], w_wr = [Wr_accept 100, Wr_accept 100, Wr_accept 100, Wr_accept 100, Wr_err (Errno 32)],
    w_out = [], w_log = []\<rparr>"
  let ?react = "\<lambda>cs. if cs \<noteq> [] \<and> (case last cs of Errored h e x \<Rightarrow> True | Handled h c b \<Rightarrow> False)
    then [example_submission ''x''] else []"
  have ok: "v_ok ?v"
    by (simp add: v_ok_def example_service_def new_service_def example_sender_def r_live_def
        r_after_handshake_def initial_receiver_def r_maps_ok_def)
  have "fst (s_Send example_codec r_Enqueue (v_sender ?v) (v_receiver ?v) ?w) = kError \<and> \<not> v_failed ?v"
    by code_simp
  with resubmitting_client_never_returns [OF ok, of ?react example_codec ?w 100] show ?thesis
    by (simp add: answers_errors_def)
qed

text \<open>
  C24: \<open>Run\<close> does not announce what callbacks submit while it receives. When the sender has nothing to
  send at the start of a \<open>Run\<close> that returns true, the write set is empty, although the queue then
  holds exactly the requests that the callbacks of this \<open>Run\<close> submitted; with nobody left to wait for
  a response the read set is empty too and the bound is 0. A client that selects on these sets waits
  with requests in the queue: it has to call \<open>Run\<close> again first.
\<close>

theorem callback_requests_not_announced:
  assumes "v_ok v" and "s_next (v_sender v) = None"
    and "re_Run n cx react v w = Some (Run_true reads writes nfds, v', w')"
  shows "writes = {} \<and> (reads = {} \<longrightarrow> nfds = 0) \<and>
    (\<exists>ds. w_log w' = w_log w @ ds \<and>
       map rq_handler (s_request_queue (v_sender v')) = map su_handler (reactions react (w_log w) ds))"
  by (rule re_Run_unannounced [OF assms])

definition example_waiting :: "char list service" where
  "example_waiting = example_service\<lparr>v_receiver := snd (r_Enqueue ''a'' 4 1 (v_receiver example_service))\<rparr>"

lemma example_answered_run:
  "case re_Run 3 example_codec example_reaction example_waiting
       \<lparr>w_rd = [Rd_bytes [70, 0, 0, 0, 1, 0, 0, 0, 0, 4]], w_wr = [], w_out = [], w_log = []\<rparr> of
     None \<Rightarrow> False
   | Some (res, v', w') \<Rightarrow> res = Run_true {} {} 0 \<and> map cb_handler (w_log w') = [''a'']"
  by code_simp

theorem callback_requests_not_announced_witness:
  "\<exists>v' w'. re_Run 3 example_codec example_reaction example_waiting
       \<lparr>w_rd = [Rd_bytes [70, 0, 0, 0, 1, 0, 0, 0, 0, 4]], w_wr = [], w_out = [], w_log = []\<rparr> =
       Some (Run_true {} {} 0, v', w') \<and>
     map rq_handler (s_request_queue (v_sender v')) = [''c'']"
proof -
  obtain v' w' where run: "re_Run 3 example_codec example_reaction example_waiting
       \<lparr>w_rd = [Rd_bytes [70, 0, 0, 0, 1, 0, 0, 0, 0, 4]], w_wr = [], w_out = [], w_log = []\<rparr> =
       Some (Run_true {} {} 0, v', w')" and log: "map cb_handler (w_log w') = [''a'']"
    using example_answered_run by (auto split: option.splits prod.splits)
  have "v_ok example_waiting" "s_next (v_sender example_waiting) = None"
    by (simp_all add: v_ok_def example_waiting_def example_service_def new_service_def new_sender_def s_next_def
        s_wf_def r_live_def r_after_handshake_def initial_receiver_def r_maps_ok_def r_Enqueue_def um_insert_def
        um_find_def um_wf_def entry_key_def)
  from callback_requests_not_announced [OF this run] obtain ds where "w_log w' = ds"
    "map rq_handler (s_request_queue (v_sender v')) = map su_handler (reactions example_reaction [] ds)" by auto
  with log run show ?thesis
    by (cases ds) (auto simp: example_reaction_def example_submission_def)
qed

end
