(* ===== verification/Callback_Removal.thy ===== *)
theory Callback_Removal
  imports Reentrancy
begin

text \<open>
  Callbacks that submit and cancel. A handler that the packet service calls may also take other
  requests back (\<open>Remove\<close> in \<open>nonblocking_packet_service.cc\<close>), which then changes the queue of the
  sender, and both maps of the receiver in the middle of the loop that goes over one of them. The
  functions are those of \<open>Reentrancy\<close>, with a caller whose client decides after every call, from all
  calls made so far, on a list of requests to submit and of keys to remove. The keys are whatever the
  client says: of requests that wait, are being written, were answered, or never existed.
\<close>

section \<open>Clients that submit and remove\<close>

datatype 'h api_call =
    Asks_Submit "'h submission"
  | Asks_Remove handler_key

type_synonym 'h client = "'h callback list \<Rightarrow> 'h api_call list"

text \<open>None stands for a failed \<open>CHECK\<close> in \<open>Remove\<close>, as it does in \<open>v_Remove\<close>, or for too little fuel.\<close>

primrec ca_requests ::
    "codec \<Rightarrow> 'h calling \<Rightarrow> 'h api_call list \<Rightarrow> 'h service \<Rightarrow> 'h world \<Rightarrow> ('h service \<times> 'h world) option" where
  "ca_requests cx call [] v w = Some (v, w)"
| "ca_requests cx call (a # as) v w =
     (case a of
        Asks_Submit u \<Rightarrow> do { (key, v1, w1) \<leftarrow> re_Submit cx call u v w; ca_requests cx call as v1 w1 }
      | Asks_Remove key \<Rightarrow> do { (removed, v1) \<leftarrow> v_Remove key v; ca_requests cx call as v1 w })"

primrec ca_call :: "nat \<Rightarrow> codec \<Rightarrow> 'h client \<Rightarrow> 'h calling" where
  "ca_call 0 cx client c v w = None"
| "ca_call (Suc n) cx client c v w =
     (let w1 = log_call c w in ca_requests cx (ca_call n cx client) (client (w_log w1)) v w1)"

definition ca_Run ::
    "nat \<Rightarrow> codec \<Rightarrow> 'h client \<Rightarrow> 'h service \<Rightarrow> 'h world
     \<Rightarrow> (run_result \<times> 'h service \<times> 'h world) option" where
  "ca_Run n cx client = run_calling n cx (ca_call n cx client)"

text \<open>A client that only submits is a reaction.\<close>

lemma ca_requests_submits: "ca_requests cx call (map Asks_Submit us) v w = re_submits cx call us v w"
  by (induction us arbitrary: v w) (auto intro!: Option.bind_cong)

lemma ca_call_submits: "ca_call n cx (\<lambda>cs. map Asks_Submit (react cs)) = re_call n cx react"
  by (induction n) (intro ext; simp add: ca_requests_submits Let_def)+

lemma ca_Run_submits: "ca_Run n cx (\<lambda>cs. map Asks_Submit (react cs)) = re_Run n cx react"
  by (simp add: ca_Run_def re_Run_def ca_call_submits)

text \<open>What a list of requests adds, and how many removals it asks for.\<close>

primrec submitted_by :: "'h api_call list \<Rightarrow> 'h multiset" where
  "submitted_by [] = {#}"
| "submitted_by (a # as) =
     (case a of Asks_Submit u \<Rightarrow> add_mset (su_handler u) (submitted_by as) | Asks_Remove key \<Rightarrow> submitted_by as)"

primrec removals :: "'h api_call list \<Rightarrow> nat" where
  "removals [] = 0"
| "removals (a # as) = (case a of Asks_Submit u \<Rightarrow> removals as | Asks_Remove key \<Rightarrow> Suc (removals as))"

lemma api_calls_append [simp]:
  "submitted_by (as @ bs) = submitted_by as + submitted_by bs" "removals (as @ bs) = removals as + removals bs"
  by (induction as) (auto split: api_call.splits)

text \<open>The requests of a client after the new calls \<open>ds\<close>, made after the calls \<open>cs\<close>.\<close>

primrec requests :: "'h client \<Rightarrow> 'h callback list \<Rightarrow> 'h callback list \<Rightarrow> 'h api_call list" where
  "requests client cs [] = []"
| "requests client cs (d # ds) = client (cs @ [d]) @ requests client (cs @ [d]) ds"

lemma requests_append [simp]:
  "requests client cs (ds @ es) = requests client cs ds @ requests client (cs @ ds) es"
  by (induction ds arbitrary: cs) simp_all

lemma requests_submits:
  "submitted_by (requests (\<lambda>cs. map Asks_Submit (react cs)) cs ds) = mset (map su_handler (reactions react cs ds))"
  "removals (requests (\<lambda>cs. map Asks_Submit (react cs)) cs ds) = 0"
proof -
  have "submitted_by (map Asks_Submit us) = mset (map su_handler us)" "removals (map Asks_Submit us) = 0"
    for us :: "'a submission list" by (induction us) simp_all
  then show "submitted_by (requests (\<lambda>cs. map Asks_Submit (react cs)) cs ds) = mset (map su_handler (reactions react cs ds))"
    "removals (requests (\<lambda>cs. map Asks_Submit (react cs)) cs ds) = 0"
    by (induction ds arbitrary: cs) simp_all
qed

section \<open>The part of the receiver that is left\<close>

text \<open>
  While \<open>CallAllErrorHandlers\<close> goes over the map, the entries that it has visited are still there, but
  their keys are not: what the two maps agree on is the entries that are left. \<open>r_left E\<close> is a receiver
  without the entries outside \<open>E\<close> and without the handler that is being called.
\<close>

definition r_left :: "'h wait_entry set \<Rightarrow> 'h receiver \<Rightarrow> 'h receiver" where
  "r_left E r = r\<lparr>r_handler := None, r_map := filter (\<lambda>e. e \<in> E) (r_map r)\<rparr>"

definition v_left :: "'h wait_entry set \<Rightarrow> 'h service \<Rightarrow> 'h service" where
  "v_left E v = v\<lparr>v_receiver := r_left E (v_receiver v)\<rparr>"

definition r_maps_left :: "'h wait_entry set \<Rightarrow> 'h receiver \<Rightarrow> bool" where
  "r_maps_left E r \<longleftrightarrow> um_wf (r_map r) \<and> r_maps_ok (r_left E r)"

lemma r_maps_left_UNIV: "r_maps_left UNIV r \<longleftrightarrow> r_maps_ok (r\<lparr>r_handler := None\<rparr>)"
  by (auto simp: r_maps_left_def r_left_def r_maps_ok_def)

lemma r_left_idle: "r_handler r = None \<Longrightarrow> r_left UNIV r = r"
  by (simp add: r_left_def)

lemma v_left_pending: "v_pending (v_left E v) = s_pending (v_sender v) + r_pending (r_left E (v_receiver v))"
  by (simp add: v_pending_def v_left_def)

lemma v_left_idle: "r_handler (v_receiver v) = None \<Longrightarrow> v_left UNIV v = v"
  by (simp add: v_left_def r_left_idle)

text \<open>\<open>Remove\<close> finds only what is left, and does not disturb the loop.\<close>

lemma r_Remove_left:
  assumes "r_maps_left E r"
  shows "\<exists>b r'. r_Remove key r = Some (b, r') \<and> r_maps_left E r' \<and> r_handler r' = r_handler r \<and>
    r_response r' = r_response r \<and> set (r_map r') \<subseteq> set (r_map r) \<and> set (r_map r) - E \<subseteq> set (r_map r') \<and>
    (if b then \<exists>h. r_pending (r_left E r) = add_mset h (r_pending (r_left E r')) else r' = r)"
proof (cases "um_find key (r_key_map r)")
  case None
  with assms show ?thesis by (intro exI [of _ False] exI [of _ r]) (simp add: r_Remove_def)
next
  case (Some seq)
  from assms have wf: "um_wf (r_map r)" and ok: "r_maps_ok (r_left E r)" by (simp_all add: r_maps_left_def)
  from um_find_in_set [OF Some] ok obtain h where m: "(seq, h, key) \<in> set (r_map r)" "(seq, h, key) \<in> E"
    by (auto simp: r_maps_ok_def r_left_def entry_key_def)
  have f: "um_find seq (r_map r) = Some (h, key)" using wf m by (simp add: um_find_Some_iff)
  have "um_wf (r_map (r_left E r))" using ok by (simp add: r_maps_ok_def)
  with m have l: "um_find seq (r_map (r_left E r)) = Some (h, key)" by (simp add: um_find_Some_iff r_left_def)
  note e = r_maps_ok_entry [OF ok l]
  let ?r' = "r\<lparr>r_map := snd (um_erase seq (r_map r)), r_key_map := snd (um_erase key (r_key_map r))\<rparr>"
  have left: "r_left E ?r' = (r_left E r)\<lparr>r_map := snd (um_erase seq (r_map (r_left E r))),
      r_key_map := snd (um_erase key (r_key_map (r_left E r)))\<rparr>"
    by (simp add: r_left_def um_erase_def conj_commute)
  have "r_Remove key r = Some (True, ?r')" by (simp add: r_Remove_def Some f)
  moreover have "r_maps_left E ?r'" using e(2) um_erase_wf [OF wf] by (simp add: r_maps_left_def left)
  moreover have "r_pending (r_left E r) = add_mset h (r_pending (r_left E ?r'))"
    by (simp add: r_pending_def e(3) left)
  moreover have "x = (seq, h, key)" if "x \<in> set (r_map r)" and "fst x = seq" for x
    using that m(1) wf by (metis distinct_map fst_conv inj_onD um_wf_def)
  then have "set (r_map r) - E \<subseteq> set (r_map ?r')" using m(2) by (auto simp: um_erase_set)
  moreover have "set (r_map ?r') \<subseteq> set (r_map r)" by (auto simp: um_erase_set)
  ultimately show ?thesis by (intro exI [of _ True] exI [of _ ?r']) auto
qed

text \<open>
  What the requests \<open>as\<close> of one callback make of a live service: some handlers are submitted, at most
  as many removed as the callback asked for, and of the map only entries in \<open>E\<close> are gone.
\<close>

definition moved :: "'h wait_entry set \<Rightarrow> 'h api_call list \<Rightarrow> 'h service \<Rightarrow> 'h service \<Rightarrow> bool" where
  "moved E as v v' \<longleftrightarrow>
     r_maps_left E (v_receiver v') \<and> v_failed v' = v_failed v \<and> v_fd v' = v_fd v \<and>
     s_handler (v_sender v') = s_handler (v_sender v) \<and> s_current_writer (v_sender v') = s_current_writer (v_sender v) \<and>
     r_handler (v_receiver v') = r_handler (v_receiver v) \<and> r_response (v_receiver v') = r_response (v_receiver v) \<and>
     set (r_map (v_receiver v')) \<subseteq> set (r_map (v_receiver v)) \<and>
     set (r_map (v_receiver v)) - E \<subseteq> set (r_map (v_receiver v')) \<and>
     length (s_request_queue (v_sender v')) \<le> length (s_request_queue (v_sender v)) + size (submitted_by as) \<and>
     (\<exists>R. v_pending (v_left E v') + R = v_pending (v_left E v) + submitted_by as \<and> size R \<le> removals as)"

lemma moved_Nil: "r_maps_left E (v_receiver v) \<Longrightarrow> moved E [] v v"
  by (simp add: moved_def)

lemma moved_append:
  assumes "moved E as v v1" and "moved E bs v1 v2"
  shows "moved E (as @ bs) v v2"
proof -
  obtain R where R: "v_pending (v_left E v1) + R = v_pending (v_left E v) + submitted_by as" "size R \<le> removals as"
    using assms(1) by (auto simp: moved_def)
  obtain R' where R': "v_pending (v_left E v2) + R' = v_pending (v_left E v1) + submitted_by bs" "size R' \<le> removals bs"
    using assms(2) by (auto simp: moved_def)
  have "v_pending (v_left E v2) + (R' + R) = (v_pending (v_left E v2) + R') + R" by (simp add: ac_simps)
  also have "\<dots> = (v_pending (v_left E v1) + R) + submitted_by bs" by (simp only: R'(1)) (simp only: ac_simps)
  also have "\<dots> = v_pending (v_left E v) + submitted_by (as @ bs)" by (simp only: R(1)) (simp add: ac_simps)
  finally have "\<exists>R. v_pending (v_left E v2) + R = v_pending (v_left E v) + submitted_by (as @ bs) \<and>
      size R \<le> removals (as @ bs)" using R(2) R'(2) by (intro exI [of _ "R' + R"]) simp
  with assms show ?thesis by (auto simp: moved_def)
qed

lemma moved_Submit:
  assumes "r_maps_left E (v_receiver v)"
  shows "moved E [Asks_Submit u] v (submit_live cx u v)"
  using assms queued_sender(4) [OF queued_submit_live [of u v cx]]
  by (auto simp: moved_def v_left_pending submit_live_def s_Enqueue_def Let_def intro!: exI [of _ "{#}"])

lemma moved_Remove:
  assumes "r_maps_left E (v_receiver v)"
  shows "\<exists>b v'. v_Remove key v = Some (b, v') \<and> moved E [Asks_Remove key] v v'"
proof -
  obtain b s where S: "s_Remove key (v_sender v) = (b, s)" by (cases "s_Remove key (v_sender v)")
  note sr = s_Remove_correct [of key "v_sender v", unfolded S, simplified]
  show ?thesis
  proof (cases b)
    case True
    with sr obtain h where "s_pending (v_sender v) = add_mset h (s_pending s)"
      "length (s_request_queue s) \<le> length (s_request_queue (v_sender v))" by auto
    with S True sr assms show ?thesis
      by (auto simp: v_Remove_def moved_def v_left_pending intro!: exI [of _ "{#h#}"])
  next
    case False
    with sr have s: "s = v_sender v" by simp
    obtain c r where R: "r_Remove key (v_receiver v) = Some (c, r)" "r_maps_left E r"
      "r_handler r = r_handler (v_receiver v)" "r_response r = r_response (v_receiver v)"
      "set (r_map r) \<subseteq> set (r_map (v_receiver v))" "set (r_map (v_receiver v)) - E \<subseteq> set (r_map r)"
      and d: "if c then \<exists>h. r_pending (r_left E (v_receiver v)) = add_mset h (r_pending (r_left E r)) else r = v_receiver v"
      using r_Remove_left [OF assms, of key] by blast
    have "\<exists>R. s_pending s + r_pending (r_left E r) + R = s_pending s + r_pending (r_left E (v_receiver v)) \<and> size R \<le> 1"
    proof (cases c)
      case True
      with d obtain h where "r_pending (r_left E (v_receiver v)) = add_mset h (r_pending (r_left E r))" by auto
      then show ?thesis by (intro exI [of _ "{#h#}"]) simp
    next
      case False
      with d show ?thesis by (intro exI [of _ "{#}"]) simp
    qed
    with S False R s show ?thesis by (auto simp: v_Remove_def moved_def v_left_pending)
  qed
qed

text \<open>So the calls of a client never fail on a live service, and none of its checks does.\<close>

lemma ca_requests_live:
  assumes "\<not> v_failed v" and "r_maps_left E (v_receiver v)"
  shows "\<exists>v'. ca_requests cx call as v w = Some (v', w) \<and> moved E as v v'"
  using assms
proof (induction as arbitrary: v)
  case Nil
  then show ?case by (simp add: moved_Nil)
next
  case (Cons a as)
  have "\<exists>v1. ca_requests cx call (a # as) v w = ca_requests cx call as v1 w \<and> moved E [a] v v1"
  proof (cases a)
    case (Asks_Submit u)
    with moved_Submit [OF Cons.prems(2)] Cons.prems(1) show ?thesis
      by (intro exI [of _ "submit_live cx u v"]) (simp add: re_Submit_def submit_live_def Let_def)
  next
    case (Asks_Remove key)
    with moved_Remove [OF Cons.prems(2), of key] show ?thesis by auto
  qed
  then obtain v1 where v1: "ca_requests cx call (a # as) v w = ca_requests cx call as v1 w" "moved E [a] v v1" by blast
  then have "\<not> v_failed v1" "r_maps_left E (v_receiver v1)" using Cons.prems(1) by (simp_all add: moved_def)
  from Cons.IH [OF this] moved_append [OF v1(2)] v1(1) show ?case by fastforce
qed

section \<open>The caller that the sender and the receiver rely on\<close>

text \<open>
  Handlers are accounted for: what was owned, called or removed in between and what the client
  submitted is what is owned or called after.
\<close>

definition settles :: "'h client \<Rightarrow> 'h service \<Rightarrow> 'h world \<Rightarrow> 'h service \<Rightarrow> 'h world \<Rightarrow> bool" where
  "settles client v w v' w' \<longleftrightarrow>
     (\<exists>ds R. w_log w' = w_log w @ ds \<and>
        v_pending v' + called w' + R = v_pending v + called w + submitted_by (requests client (w_log w) ds) \<and>
        size R \<le> removals (requests client (w_log w) ds))"

lemma settles_silent: "v_pending v' = v_pending v \<Longrightarrow> w_log w' = w_log w \<Longrightarrow> settles client v w v' w'"
  unfolding settles_def called_def by (intro exI [of _ "[]"] exI [of _ "{#}"]) simp

lemma settles_refl [simp]: "settles client v w v w"
  by (simp add: settles_silent)

lemma settles_trans:
  assumes "settles client v w v1 w1" and "settles client v1 w1 v2 w2"
  shows "settles client v w v2 w2"
proof -
  obtain ds R where d: "w_log w1 = w_log w @ ds" "size R \<le> removals (requests client (w_log w) ds)"
    "v_pending v1 + called w1 + R = v_pending v + called w + submitted_by (requests client (w_log w) ds)"
    using assms(1) by (auto simp: settles_def)
  obtain es R' where e: "w_log w2 = w_log w1 @ es" "size R' \<le> removals (requests client (w_log w1) es)"
    "v_pending v2 + called w2 + R' = v_pending v1 + called w1 + submitted_by (requests client (w_log w1) es)"
    using assms(2) by (auto simp: settles_def)
  have "v_pending v2 + called w2 + (R' + R) = (v_pending v2 + called w2 + R') + R" by (simp only: add.assoc)
  also have "\<dots> = (v_pending v1 + called w1 + R) + submitted_by (requests client (w_log w1) es)"
    by (simp only: e(3)) (simp only: ac_simps)
  also have "\<dots> = v_pending v + called w + submitted_by (requests client (w_log w) (ds @ es))"
    by (simp only: d(3)) (simp add: d(1) ac_simps)
  finally show ?thesis
    unfolding settles_def using d e by (intro exI [of _ "ds @ es"] exI [of _ "R' + R"]) simp
qed

text \<open>One call: its handler was owned before, and the client answered.\<close>

lemma settles_call:
  assumes "v_pending v = add_mset (cb_handler c) (v_pending v0)" and "v_pending v' = v_pending v1"
    and "v_pending v1 + R = v_pending v0 + submitted_by (client (w_log w @ [c]))"
    and "size R \<le> removals (client (w_log w @ [c]))"
  shows "settles client v w v' (log_call c w)"
proof -
  have "v_pending v' + called (log_call c w) + R = add_mset (cb_handler c) (v_pending v1 + R + called w)"
    by (simp add: assms(2) ac_simps)
  also have "\<dots> = v_pending v + called w + submitted_by (requests client (w_log w) [c])"
    by (simp only: assms(3)) (simp add: assms(1) ac_simps)
  finally show ?thesis unfolding settles_def using assms(4) by (intro exI [of _ "[c]"] exI [of _ R]) simp
qed

text \<open>
  The contract of a caller: on a live service, wherever the receiver is in its loop, exactly this call
  is made, and the service afterwards is the one before with the client's requests carried out.
\<close>

locale cancelling_caller =
  fixes client :: "'h client" and call :: "'h calling"
  assumes call_moves: "\<not> v_failed v \<Longrightarrow> r_maps_left E (v_receiver v) \<Longrightarrow>
    \<exists>v'. call c v w = Some (v', log_call c w) \<and> moved E (client (w_log w @ [c])) v v'"
begin

lemma call_moved:
  assumes "\<not> v_failed v" and "r_maps_left E (v_receiver v)"
  obtains v' R where "call c v w = Some (v', log_call c w)" and "moved E (client (w_log w @ [c])) v v'"
    and "v_pending (v_left E v') + R = v_pending (v_left E v) + submitted_by (client (w_log w @ [c]))"
    and "size R \<le> removals (client (w_log w @ [c]))"
  using call_moves [OF assms, of c w] by (auto simp: moved_def)

end

text \<open>What stays as it is when a live service calls handlers.\<close>

definition steady :: "'h service \<Rightarrow> 'h service \<Rightarrow> bool" where
  "steady v v' \<longleftrightarrow> v_failed v' = v_failed v \<and> v_fd v' = v_fd v \<and>
     s_handler (v_sender v') = s_handler (v_sender v) \<and> s_current_writer (v_sender v') = s_current_writer (v_sender v) \<and>
     r_response (v_receiver v') = r_response (v_receiver v)"

lemma steady_refl [simp]: "steady v v"
  by (simp add: steady_def)

lemma steady_trans: "steady v v1 \<Longrightarrow> steady v1 v2 \<Longrightarrow> steady v v2"
  by (simp add: steady_def)

lemma moved_steady: "moved E as v v' \<Longrightarrow> steady v v'"
  by (simp add: moved_def steady_def)

section \<open>Calling every handler while some are removed\<close>

text \<open>The head of the loop: the key of the entry is erased, which leaves the rest of the map.\<close>

lemma r_left_visit:
  assumes "r_maps_left (set ((seq, h, key) # es)) r" and "um_find seq (r_map r) = Some (h, key)"
    and "seq \<notin> fst ` set es"
  shows "\<exists>km. um_erase key (r_key_map r) = (1, km) \<and> r_maps_left (set es) (r\<lparr>r_key_map := km\<rparr>) \<and>
    r_pending (r_left (set ((seq, h, key) # es)) r) = add_mset h (r_pending (r_left (set es) (r\<lparr>r_key_map := km\<rparr>)))"
proof -
  let ?E = "set ((seq, h, key) # es)"
  from assms(1) have wf: "um_wf (r_map r)" and ok: "r_maps_ok (r_left ?E r)" by (simp_all add: r_maps_left_def)
  have m: "(seq, h, key) \<in> set (r_map r)" using assms(2) by (rule um_find_in_set)
  have "um_wf (r_map (r_left ?E r))" using ok by (simp add: r_maps_ok_def)
  with m have l: "um_find seq (r_map (r_left ?E r)) = Some (h, key)" by (simp add: um_find_Some_iff r_left_def)
  note e = r_maps_ok_entry [OF ok l]
  have "um_find key (r_key_map r) = Some seq" using e(1) by (simp add: r_left_def)
  then obtain km where km: "um_erase key (r_key_map r) = (1, km)" by (simp add: um_erase_def)
  have one: "x = (seq, h, key)" if "x \<in> set (r_map r)" and "fst x = seq" for x
    using that m wf by (metis distinct_map fst_conv inj_onD um_wf_def)
  have "(x \<in> ?E \<and> fst x \<noteq> seq) = (x \<in> set es)" if "x \<in> set (r_map r)" for x
  proof -
    have "x \<in> set es \<Longrightarrow> fst x \<noteq> seq" using assms(3) by auto
    with one [OF that] show ?thesis by auto
  qed
  then have "filter (\<lambda>x. x \<in> ?E \<and> fst x \<noteq> seq) (r_map r) = filter (\<lambda>e. e \<in> set es) (r_map r)"
    by (intro filter_cong refl) simp
  then have "snd (um_erase seq (r_map (r_left ?E r))) = filter (\<lambda>e. e \<in> set es) (r_map r)"
    by (simp add: r_left_def um_erase_def)
  then have left: "r_left (set es) (r\<lparr>r_key_map := km\<rparr>) = (r_left ?E r)\<lparr>r_map := snd (um_erase seq (r_map (r_left ?E r))),
      r_key_map := snd (um_erase key (r_key_map (r_left ?E r)))\<rparr>"
    using km by (simp add: r_left_def)
  have "r_maps_left (set es) (r\<lparr>r_key_map := km\<rparr>)" unfolding r_maps_left_def left using e(2) wf by simp
  moreover have "r_pending (r_left ?E r) = add_mset h (r_pending (r_left (set es) (r\<lparr>r_key_map := km\<rparr>)))"
    unfolding left by (simp add: r_pending_def e(3) [simplified])
  ultimately show ?thesis using km by blast
qed

text \<open>An entry that was removed before the loop came to it is skipped.\<close>

lemma r_left_skip:
  assumes "um_find seq (r_map r) = None"
  shows "r_left (set ((seq, h, key) # es)) r = r_left (set es) r"
proof -
  have "x \<in> set ((seq, h, key) # es) \<longleftrightarrow> x \<in> set es" if "x \<in> set (r_map r)" for x
    using that assms by (force simp: um_find_None_iff)
  then show ?thesis unfolding r_left_def by (metis (no_types, lifting) filter_cong)
qed

definition r_loop_ok :: "'h wait_entry list \<Rightarrow> 'h receiver \<Rightarrow> bool" where
  "r_loop_ok es r \<longleftrightarrow> r_maps_left (set es) r \<and> r_handler r = None \<and> distinct (map fst es) \<and>
     (\<forall>e \<in> set es. \<forall>x. um_find (fst e) (r_map r) = Some x \<longrightarrow> x = snd e)"

lemma r_loop_ok_moved:
  assumes "r_loop_ok es r" and "r_maps_left (set es') r'" and "set es' \<subseteq> set es" and "distinct (map fst es')"
    and "set (r_map r') \<subseteq> set (r_map r)" and "r_handler r' = None"
  shows "r_loop_ok es' r'"
proof -
  have wf: "um_wf (r_map r)" "um_wf (r_map r')" using assms(1,2) by (simp_all add: r_loop_ok_def r_maps_left_def)
  have "x = snd e" if "e \<in> set es'" and "um_find (fst e) (r_map r') = Some x" for e x
  proof -
    have "um_find (fst e) (r_map r) = Some x" using that(2) assms(5) wf by (auto simp: um_find_Some_iff)
    with that(1) assms(1,3) show ?thesis unfolding r_loop_ok_def by blast
  qed
  with assms show ?thesis by (simp add: r_loop_ok_def)
qed

context cancelling_caller
begin

text \<open>One turn that calls a handler, and the loop.\<close>

lemma error_loop_visit:
  assumes "r_loop_ok ((seq, h, key) # es) (v_receiver v)" and "\<not> v_failed v"
    and "um_find seq (r_map (v_receiver v)) = Some a" and c_def: "c = Errored h e None"
  shows "\<exists>v1. re_error_loop call e ((seq, h, key) # es) v w = re_error_loop call e es v1 (log_call c w) \<and>
    r_loop_ok es (v_receiver v1) \<and> steady v v1 \<and>
    settles client (v_left (set ((seq, h, key) # es)) v) w (v_left (set es) v1) (log_call c w)"
proof -
  let ?r = "v_receiver v"
  from assms(1) have ok: "r_maps_left (set ((seq, h, key) # es)) ?r" and hn: "r_handler ?r = None"
    and d: "seq \<notin> fst ` set es" "distinct (map fst es)" by (auto simp: r_loop_ok_def)
  from assms(1,3) have "a = (h, key)" by (cases a) (auto simp: r_loop_ok_def)
  with assms(3) have f: "um_find seq (r_map ?r) = Some (h, key)" by simp
  obtain km where km: "um_erase key (r_key_map ?r) = (1, km)" "r_maps_left (set es) (?r\<lparr>r_key_map := km\<rparr>)"
    "r_pending (r_left (set ((seq, h, key) # es)) ?r) = add_mset h (r_pending (r_left (set es) (?r\<lparr>r_key_map := km\<rparr>)))"
    using r_left_visit [OF ok f d(1)] by blast
  let ?v = "v\<lparr>v_receiver := ?r\<lparr>r_key_map := km\<rparr>\<rparr>"
  have live: "\<not> v_failed ?v" "r_maps_left (set es) (v_receiver ?v)" using assms(2) km(2) by simp_all
  obtain v1 R where c: "call c ?v w = Some (v1, log_call c w)" "moved (set es) (client (w_log w @ [c])) ?v v1"
    and R: "v_pending (v_left (set es) v1) + R = v_pending (v_left (set es) ?v) + submitted_by (client (w_log w @ [c]))"
    "size R \<le> removals (client (w_log w @ [c]))"
    by (rule call_moved [OF live, of c w])
  from c(2) hn have m: "r_maps_left (set es) (v_receiver v1)" "set (r_map (v_receiver v1)) \<subseteq> set (r_map ?r)"
    "r_handler (v_receiver v1) = None" "set (r_map ?r) - set es \<subseteq> set (r_map (v_receiver v1))"
    by (simp_all add: moved_def)
  have "(seq, h, key) \<in> set (r_map ?r)" using f by (rule um_find_in_set)
  moreover have "(seq, h, key) \<notin> set es" using d(1) by force
  ultimately have there: "um_find seq (r_map (v_receiver v1)) \<noteq> None" using m(4) um_find_member by fastforce
  from r_loop_ok_moved [OF assms(1) m(1) _ d(2) m(2,3)] have "r_loop_ok es (v_receiver v1)" by auto
  moreover have "v_pending (v_left (set ((seq, h, key) # es)) v) = add_mset (cb_handler c) (v_pending (v_left (set es) ?v))"
    unfolding v_left_pending using km(3) by (simp add: c_def)
  from settles_call [where client = client and w = w and c = c, OF this refl R]
  have "settles client (v_left (set ((seq, h, key) # es)) v) w (v_left (set es) v1) (log_call c w)" .
  moreover have "steady v v1" using moved_steady [OF c(2)] by (simp add: steady_def)
  moreover have "re_error_loop call e ((seq, h, key) # es) v w = re_error_loop call e es v1 (log_call c w)"
    using km(1) c(1) there f by (auto simp: c_def)
  ultimately show ?thesis by blast
qed

lemma error_loop_settles:
  assumes "r_loop_ok es (v_receiver v)" and "\<not> v_failed v"
  shows "\<exists>v' w'. re_error_loop call e es v w = Some (True, v', w') \<and> r_loop_ok [] (v_receiver v') \<and> steady v v' \<and>
    settles client (v_left (set es) v) w (v_left {} v') w' \<and> w_rd w' = w_rd w"
  using assms
proof (induction es arbitrary: v w)
  case (Cons x es)
  obtain seq h key where x: "x = (seq, h, key)" by (cases x)
  show ?case
  proof (cases "um_find seq (r_map (v_receiver v))")
    case None
    note skip = r_left_skip [OF None, of h key es]
    from Cons.prems(1) x have l: "r_maps_left (set es) (v_receiver v)" "distinct (map fst es)"
      "r_handler (v_receiver v) = None"
      by (auto simp: r_loop_ok_def r_maps_left_def skip [simplified])
    from r_loop_ok_moved [OF Cons.prems(1) l(1) _ l(2)] l(3) have "r_loop_ok es (v_receiver v)" by auto
    from Cons.IH [OF this Cons.prems(2)] None x skip show ?thesis by (simp add: v_left_def)
  next
    case (Some a)
    obtain v1 where v1: "re_error_loop call e (x # es) v w = re_error_loop call e es v1 (log_call (Errored h e None) w)"
      "r_loop_ok es (v_receiver v1)" "steady v v1"
      "settles client (v_left (set (x # es)) v) w (v_left (set es) v1) (log_call (Errored h e None) w)"
      using error_loop_visit [OF Cons.prems(1) [unfolded x] Cons.prems(2) Some refl] unfolding x by blast
    have "\<not> v_failed v1" using v1(3) Cons.prems(2) by (simp add: steady_def)
    from Cons.IH [OF v1(2) this, of "log_call (Errored h e None) w"] v1 settles_trans [OF v1(4)] steady_trans [OF v1(3)]
    show ?thesis by fastforce
  qed
qed simp

lemma CallAll_settles:
  assumes "r_maps_ok (v_receiver v)" and "\<not> v_failed v"
  shows "\<exists>v' w'. re_CallAllErrorHandlers call e v w = Some (True, v', w') \<and> r_maps_ok (v_receiver v') \<and> steady v v' \<and>
    settles client v w v' w' \<and> w_rd w' = w_rd w \<and> r_pending (v_receiver v') = {#}"
proof -
  let ?r = "v_receiver v"
  have hn: "r_handler ?r = None" and wf: "um_wf (r_map ?r)" using assms(1) by (simp_all add: r_maps_ok_def)
  have all: "r_left (set (r_map ?r)) ?r = ?r" using hn by (simp add: r_left_def)
  have "r_loop_ok (r_map ?r) ?r"
    using assms(1) hn wf by (auto simp: r_loop_ok_def r_maps_left_def all um_wf_def [symmetric] um_find_Some_iff)
      (metis distinct_map fst_conv inj_onD um_wf_def snd_conv)+
  from error_loop_settles [OF this assms(2), of e w] obtain v1 w1 where
    v1: "re_error_loop call e (r_map ?r) v w = Some (True, v1, w1)" "r_loop_ok [] (v_receiver v1)" "steady v v1"
      "settles client (v_left (set (r_map ?r)) v) w (v_left {} v1) w1" "w_rd w1 = w_rd w" by blast
  let ?v = "v1\<lparr>v_receiver := (v_receiver v1)\<lparr>r_map := []\<rparr>\<rparr>"
  have "r_handler (v_receiver v1) = None" using v1(2) by (simp add: r_loop_ok_def)
  then have left: "r_left {} (v_receiver v1) = (v_receiver v1)\<lparr>r_map := []\<rparr>" by (simp add: r_left_def)
  then have "v_left {} v1 = ?v" by (simp add: v_left_def)
  moreover have "v_left (set (r_map ?r)) v = v" by (simp add: v_left_def all)
  ultimately have "settles client v w ?v w1" using v1(4) by simp
  moreover have "r_maps_ok (v_receiver ?v)"
    using v1(2) left by (simp add: r_loop_ok_def r_maps_left_def)
  moreover have "re_CallAllErrorHandlers call e v w = Some (True, ?v, w1)"
    using hn v1(1) by (simp add: re_CallAllErrorHandlers_def)
  moreover have "steady v ?v" using v1(3) by (simp add: steady_def)
  moreover from this have "r_pending (v_receiver ?v) = {#}"
    using v1(2) by (simp add: r_pending_def r_loop_ok_def)
  ultimately show ?thesis using v1(5) by blast
qed

lemma give_up_settles:
  assumes "r_maps_ok (v_receiver v)" and "\<not> v_failed v"
  shows "\<exists>v' w'. re_give_up call st e v w = Some (Some st, v', w') \<and> r_maps_ok (v_receiver v') \<and> steady v v' \<and>
    settles client v w v' w' \<and> w_rd w' = w_rd w \<and> r_pending (v_receiver v') = {#}"
proof -
  obtain v' w' where v': "re_CallAllErrorHandlers call e v w = Some (True, v', w')" "r_maps_ok (v_receiver v')"
    "steady v v'" "settles client v w v' w'" "w_rd w' = w_rd w" "r_pending (v_receiver v') = {#}"
    using CallAll_settles [OF assms, of e w] by blast
  then show ?thesis by (intro exI [of _ v'] exI [of _ w']) (simp add: re_give_up_def)
qed

end

section \<open>Receiving\<close>

text \<open>
  What one step of \<open>Receive\<close> makes of a service that is in order. None as its result means that the
  loop goes on.
\<close>

definition received ::
    "'h client \<Rightarrow> service_status option \<Rightarrow> 'h service \<Rightarrow> 'h world \<Rightarrow> 'h service \<Rightarrow> 'h world \<Rightarrow> bool" where
  "received client res v w v' w' \<longleftrightarrow>
     settles client v w v' w' \<and> \<not> v_failed v' \<and> v_fd v' = v_fd v \<and> s_wf (v_sender v') \<and> r_maps_ok (v_receiver v') \<and>
     res \<noteq> Some kCrash \<and> (res \<noteq> Some kError \<longrightarrow> r_live (v_receiver v')) \<and>
     (res = Some kIdle \<or> res = Some kError \<longrightarrow> r_pending (v_receiver v') = {#})"

lemma received_trans:
  "received client None v w v1 w1 \<Longrightarrow> received client res v1 w1 v' w' \<Longrightarrow> received client res v w v' w'"
  by (auto simp: received_def intro: settles_trans)

lemma received_good: "received client None v w v' w' \<Longrightarrow> v_good v'"
  by (simp add: received_def v_good_def)

context cancelling_caller
begin

lemma r_call_settles:
  assumes "r_maps_ok (v_receiver v)" and "\<not> v_failed v"
  shows "\<exists>v' w'. re_r_call call ack cmd v w = Some (None, v', w') \<and> r_maps_ok (v_receiver v') \<and> steady v v' \<and>
    settles client v w v' w' \<and> w_rd w' = w_rd w"
proof (cases "um_find ack (r_map (v_receiver v))")
  case None
  with assms show ?thesis by (simp add: re_r_call_def)
next
  case (Some a)
  obtain h key where a: "a = (h, key)" by (cases a)
  let ?r = "v_receiver v"
  note e = r_maps_ok_entry [OF assms(1) Some [unfolded a]]
  obtain km where km: "um_erase key (r_key_map ?r) = (1, km)" using e(1) by (simp add: um_erase_def)
  have hn: "r_handler ?r = None" using assms(1) by (simp add: r_maps_ok_def)
  let ?c = "r_answer h cmd (r_value ?r)"
  let ?r2 = "?r\<lparr>r_handler := Some h, r_map := snd (um_erase ack (r_map ?r)), r_key_map := km,
      r_value := (if os_code (cmd_status cmd) = PROTO_SUCCESS then None else r_value ?r)\<rparr>"
  note e2 = e(2) [unfolded km snd_conv]
  let ?v = "v\<lparr>v_receiver := ?r2\<rparr>"
  have left: "r_left UNIV ?r2 = ?r2\<lparr>r_handler := None\<rparr>" by (simp add: r_left_def)
  have "r_maps_ok (?r2\<lparr>r_handler := None\<rparr>)"
    using e2 by (simp add: r_maps_ok_def)
  then have ok: "r_maps_left UNIV (v_receiver ?v)" by (simp add: r_maps_left_UNIV)
  have live: "\<not> v_failed ?v" using assms(2) by simp
  obtain v1 R where c: "call ?c ?v w = Some (v1, log_call ?c w)" "moved UNIV (client (w_log w @ [?c])) ?v v1"
    and R: "v_pending (v_left UNIV v1) + R = v_pending (v_left UNIV ?v) + submitted_by (client (w_log w @ [?c]))"
    "size R \<le> removals (client (w_log w @ [?c]))"
    by (rule call_moved [OF live ok, of ?c w])
  have "re_r_call call ack cmd v w = Some (None, r_reset_handler v1, log_call ?c w)"
    using Some a km c(1) by (cases "os_code (cmd_status cmd) = PROTO_SUCCESS") (simp_all add: re_r_call_def Let_def)
  moreover have "v_left UNIV v1 = r_reset_handler v1" by (simp add: v_left_def r_left_def r_reset_handler_def)
  then have "settles client v w (r_reset_handler v1) (log_call ?c w)"
    using R by (intro settles_call [where client = client and w = w and c = ?c, OF _ _ R(1)])
      (simp_all add: v_left_pending left, simp_all add: v_pending_def r_pending_def e(3) hn)
  moreover have "r_maps_ok (v_receiver (r_reset_handler v1))"
    using c(2) by (simp add: moved_def r_maps_left_UNIV r_reset_handler_def)
  moreover have "steady v (r_reset_handler v1)"
    using moved_steady [OF c(2)] by (simp add: steady_def r_reset_handler_def)
  ultimately show ?thesis by (intro exI [of _ "r_reset_handler v1"] exI [of _ "log_call ?c w"]) simp
qed

text \<open>The outcome of a dispatch, for a receiver that has just finished reading a response.\<close>

definition dispatched ::
    "service_status option \<Rightarrow> 'h service \<Rightarrow> 'h world \<Rightarrow> 'h service \<Rightarrow> 'h world \<Rightarrow> bool" where
  "dispatched res v w v' w' \<longleftrightarrow> r_maps_ok (v_receiver v') \<and> steady v v' \<and> settles client v w v' w' \<and> w_rd w' = w_rd w \<and>
     res \<noteq> Some kCrash \<and> (res = Some kIdle \<or> res = Some kError \<longrightarrow> r_pending (v_receiver v') = {#})"

lemma give_up_dispatched:
  assumes "r_maps_ok (v_receiver v)" and "\<not> v_failed v" and "st \<noteq> kCrash"
  shows "\<exists>v' w'. re_give_up call st e v w = Some (Some st, v', w') \<and> dispatched (Some st) v w v' w'"
  using give_up_settles [OF assms(1,2), of st e w] assms(3) by (auto simp: dispatched_def)

lemma dispatch_settles:
  assumes "r_maps_ok (v_receiver v)" and "\<not> v_failed v"
  shows "\<exists>res v' w'. re_dispatch cx call v w = Some (res, v', w') \<and> dispatched res v w v' w'"
proof -
  define v1 where "v1 = (\<lambda>cmd :: command. v\<lparr>v_receiver := (case h_connectionid (cmd_header cmd) of
      Some c \<Rightarrow> (v_receiver v)\<lparr>r_connection_id := c\<rparr> | None \<Rightarrow> v_receiver v)\<rparr>)"
  have ok: "r_maps_ok (v_receiver (v1 cmd))" "\<not> v_failed (v1 cmd)" for cmd
    using assms by (simp_all add: v1_def split: option.splits)
  have "v_pending (v1 cmd) = v_pending v" "steady v (v1 cmd)" for cmd
    by (simp_all add: v1_def v_pending_def steady_def split: option.splits)
  then have from1: "dispatched res (v1 cmd) w v' w' \<Longrightarrow> dispatched res v w v' w'" for cmd res v' w'
    by (auto simp: dispatched_def settles_def intro: steady_trans)
  have call1: "\<exists>res v' w'. re_r_call call ack c (v1 cmd) w = Some (res, v', w') \<and> dispatched res v w v' w'" for ack c cmd
    using r_call_settles [OF ok, of ack c cmd w] from1 [of None cmd] by (fastforce simp: dispatched_def)
  have give1: "\<exists>res v' w'. re_give_up call kIdle no_ack_error (v1 cmd) w = Some (res, v', w') \<and> dispatched res v w v' w'" for cmd
    using give_up_dispatched [OF ok, of kIdle no_ack_error cmd w] from1 [of _ cmd] by auto
  have give: "\<exists>res v' w'. re_give_up call st e v w = Some (res, v', w') \<and> dispatched res v w v' w'"
    if "st \<noteq> kCrash" for st e
    using give_up_dispatched [OF assms that, of e w] by blast
  have err: "\<exists>res v' w'. re_give_up call kIdle hmac_error v w = Some (res, v', w') \<and> dispatched res v w v' w'"
    "\<exists>res v' w'. re_give_up call kError parse_error v w = Some (res, v', w') \<and> dispatched res v w v' w'"
    by (rule give, simp)+
  have v1: "v\<lparr>v_receiver := (case h_connectionid (cmd_header cmd) of
      Some c \<Rightarrow> (v_receiver v)\<lparr>r_connection_id := c\<rparr> | None \<Rightarrow> v_receiver v)\<rparr> = v1 cmd" for cmd
    by (simp add: v1_def)
  show ?thesis
    unfolding re_dispatch_def Let_def v1
    using err give1 call1 by (simp split: option.split)
qed

end

context cancelling_caller
begin

lemma r_turn_settles:
  assumes "v_good v"
  shows "\<exists>res v' w'. re_r_turn cx call v w = Some (res, v', w') \<and> received client res v w v' w' \<and>
    (res = None \<longrightarrow> r_load (v_receiver v') w' < r_load (v_receiver v) w)"
proof (cases "r_next (v_receiver v)")
  case None
  with assms have "r_pending (v_receiver v) = {#}"
    by (auto simp: r_next_def r_pending_def v_good_def r_maps_ok_def split: option.splits if_splits)
  with None assms show ?thesis by (simp add: re_r_turn_def Let_def received_def v_good_def)
next
  case (Some pr)
  let ?r = "v_receiver v"
  have ok: "r_maps_ok ?r" "r_live ?r" "\<not> v_failed v" "s_wf (v_sender v)" using assms by (simp_all add: v_good_def)
  obtain st pr' rd' m' x where rd: "pr_Read (cx_parse_message cx) pr (w_rd w) (r_message ?r) (r_value ?r)
      = (st, pr', rd', m', x)" by (metis prod_cases5)
  let ?v1 = "v\<lparr>v_receiver := ?r\<lparr>r_response := Some pr', r_message := m', r_value := x\<rparr>\<rparr>" and ?w = "w\<lparr>w_rd := rd'\<rparr>"
  let ?v2 = "v\<lparr>v_receiver := ?r\<lparr>r_message := m', r_value := x, r_response := None\<rparr>\<rparr>"
  have ok12: "r_maps_ok (v_receiver ?v1)" "r_maps_ok (v_receiver ?v2)" "\<not> v_failed ?v1" "\<not> v_failed ?v2"
    using ok by simp_all
  have sil: "settles client v w ?v1 ?w" "settles client v w ?v2 ?w"
    by (rule settles_silent; simp add: v_pending_def)+
  have wf: "pr_wf pr" "pr_state pr \<noteq> kFinished"
    using Some ok(2) by (auto simp: r_next_def r_live_def split: option.splits if_splits)
  have post: "st \<noteq> kAbort \<and> (st = kInProgress \<longrightarrow> pr_wf pr' \<and> pr_state pr' \<noteq> kFinished)"
    using pr_Read_post [OF rd wf(1)] wf(2) by auto
  show ?thesis
  proof (cases st)
    case kDone
    obtain res v' w' where d: "re_dispatch cx call ?v2 ?w = Some (res, v', w')" "dispatched res ?v2 ?w v' w'"
      using dispatch_settles [OF ok12(2,4)] by blast
    then have "re_r_turn cx call v w = Some (res, v', w')"
      using Some rd kDone by (simp add: re_r_turn_def Let_def)
    moreover have "received client res v w v' w'"
      using d(2) ok settles_trans [OF sil(2)] by (auto simp: dispatched_def received_def steady_def s_wf_def r_live_def)
    moreover have "r_load (v_receiver v') w' < r_load ?r w"
      using d(2) by (intro r_read_load [OF Some rd [unfolded kDone]]) (simp_all add: dispatched_def steady_def)
    ultimately show ?thesis by blast
  next
    case kFailed
    obtain v' w' where g: "re_give_up call kError read_error ?v1 ?w = Some (Some kError, v', w')"
      "dispatched (Some kError) ?v1 ?w v' w'"
      using give_up_dispatched [OF ok12(1,3), of kError read_error ?w] by auto
    then have "re_r_turn cx call v w = Some (Some kError, v', w')"
      using Some rd kFailed by (simp add: re_r_turn_def Let_def)
    moreover have "received client (Some kError) v w v' w'"
      using g(2) ok settles_trans [OF sil(1)] by (auto simp: dispatched_def received_def steady_def s_wf_def)
    ultimately show ?thesis by blast
  qed (use Some rd ok sil post in \<open>auto simp: re_r_turn_def Let_def received_def r_live_def\<close>)
qed

end

context cancelling_caller
begin

lemma Receive_settles:
  assumes "v_good v" and "r_load (v_receiver v) w < n"
  shows "\<exists>st v' w'. re_Receive n cx call v w = Some (st, v', w') \<and> received client (Some st) v w v' w'"
  using assms
proof (induction n arbitrary: v w)
  case (Suc n)
  obtain res v1 w1 where t: "re_r_turn cx call v w = Some (res, v1, w1)" "received client res v w v1 w1"
    "res = None \<longrightarrow> r_load (v_receiver v1) w1 < r_load (v_receiver v) w"
    using r_turn_settles [OF Suc.prems(1)] by blast
  show ?case
  proof (cases res)
    case None
    with t Suc.prems(2) received_good have "v_good v1" "r_load (v_receiver v1) w1 < n" by auto
    from Suc.IH [OF this] obtain st v' w' where "re_Receive n cx call v1 w1 = Some (st, v', w')"
      "received client (Some st) v1 w1 v' w'" by blast
    with t None received_trans show ?thesis by fastforce
  qed (use t in auto)
qed simp

lemma Receive_settled:
  assumes "re_Receive n cx call v w = Some (st, v', w')" and "v_good v"
  shows "received client (Some st) v w v' w'"
  using assms
proof (induction n arbitrary: v w)
  case (Suc n)
  obtain res v1 w1 where t: "re_r_turn cx call v w = Some (res, v1, w1)" "received client res v w v1 w1"
    using r_turn_settles [OF Suc.prems(2)] by blast
  show ?case
  proof (cases res)
    case None
    with t Suc.prems(1) Suc.IH [OF _ received_good] received_trans show ?thesis by fastforce
  qed (use t Suc.prems(1) in auto)
qed simp

end

section \<open>Sending\<close>

text \<open>A call that the sender makes: the maps agree, and the handler is still the sender's own or just left it.\<close>

context cancelling_caller
begin

lemma call_sending:
  assumes "\<not> v_failed v" and "r_maps_ok (v_receiver v)"
  obtains v' R where "call c v w = Some (v', log_call c w)" and "steady v v'" and "r_maps_ok (v_receiver v')"
    and "v_pending v' + R = v_pending v + submitted_by (client (w_log w @ [c]))"
    and "size R \<le> removals (client (w_log w @ [c]))"
    and "length (s_request_queue (v_sender v')) \<le>
      length (s_request_queue (v_sender v)) + size (submitted_by (client (w_log w @ [c])))"
proof -
  have hn: "r_handler (v_receiver v) = None" using assms(2) by (simp add: r_maps_ok_def)
  then have idle: "(v_receiver v)\<lparr>r_handler := None\<rparr> = v_receiver v" by simp
  have left: "r_maps_left UNIV (v_receiver v)" using assms(2) by (simp add: r_maps_left_UNIV idle)
  show thesis
  proof (rule call_moved [OF assms(1) left, of c w])
    fix v' R
    assume c: "call c v w = Some (v', log_call c w)" and m: "moved UNIV (client (w_log w @ [c])) v v'"
      and R: "v_pending (v_left UNIV v') + R = v_pending (v_left UNIV v) + submitted_by (client (w_log w @ [c]))"
        "size R \<le> removals (client (w_log w @ [c]))"
    have hn': "r_handler (v_receiver v') = None" using m hn by (simp add: moved_def)
    then have "(v_receiver v')\<lparr>r_handler := None\<rparr> = v_receiver v'" by simp
    with m have "r_maps_ok (v_receiver v')" by (simp add: moved_def r_maps_left_UNIV)
    from that [OF c moved_steady [OF m] this _ R(2)] R(1) m show thesis
      by (simp add: v_left_idle hn hn' moved_def)
  qed
qed

lemma fail_loop_settles:
  assumes "re_fail_loop n call v w = Some (v', w')" and "\<not> v_failed v" and "r_maps_ok (v_receiver v)"
  shows "s_request_queue (v_sender v') = [] \<and> settles client v w v' w' \<and> r_maps_ok (v_receiver v') \<and> steady v v'"
  using assms
proof (induction n arbitrary: v w)
  case (Suc n)
  show ?case
  proof (cases "s_request_queue (v_sender v)")
    case Nil
    with Suc.prems show ?thesis by simp
  next
    case (Cons rq rqs)
    let ?c = "Errored (rq_handler rq) write_error None"
    let ?v = "v\<lparr>v_sender := (v_sender v)\<lparr>s_request_queue := rqs\<rparr>\<rparr>"
    have ok: "\<not> v_failed ?v" "r_maps_ok (v_receiver ?v)" using Suc.prems by simp_all
    obtain v1 R where c: "call ?c ?v w = Some (v1, log_call ?c w)" "steady ?v v1" "r_maps_ok (v_receiver v1)"
      and R: "v_pending v1 + R = v_pending ?v + submitted_by (client (w_log w @ [?c]))"
      "size R \<le> removals (client (w_log w @ [?c]))"
      by (rule call_sending [OF ok, of ?c w])
    from Suc.prems(1) Cons c(1) have "re_fail_loop n call v1 (log_call ?c w) = Some (v', w')" by simp
    from Suc.IH [OF this] c(2,3) Suc.prems(2) have IH: "s_request_queue (v_sender v') = []"
      "settles client v1 (log_call ?c w) v' w'" "r_maps_ok (v_receiver v')" "steady v1 v'"
      by (simp_all add: steady_def)
    have "v_pending v = add_mset (cb_handler ?c) (v_pending ?v)"
      using Cons by (simp add: v_pending_def s_pending_def)
    from settles_call [where client = client and w = w and c = ?c, OF this refl R] IH(2)
    have "settles client v w v' w'" by (rule settles_trans)
    moreover have "steady v v'" using c(2) IH(4) by (simp add: steady_def)
    ultimately show ?thesis using IH(1,3) by blast
  qed
qed simp

lemma reset_pending:
  "s_handler (v_sender v) = Some h \<Longrightarrow> v_pending v = add_mset h (v_pending (v_reset_handler v))"
  by (simp add: v_pending_def s_pending_def v_reset_handler_def)

text \<open>The sender's own handler is called, and is reset when the call has returned.\<close>

lemma call_reset:
  assumes "\<not> v_failed v" and "r_maps_ok (v_receiver v)" and "s_handler (v_sender v) = Some (cb_handler c)"
  obtains v' where "call c v w = Some (v', log_call c w)" and "steady v v'"
    and "r_maps_ok (v_receiver (v_reset_handler v'))"
    and "settles client v w (v_reset_handler v') (log_call c w)"
    and "length (s_request_queue (v_sender v')) \<le>
      length (s_request_queue (v_sender v)) + size (submitted_by (client (w_log w @ [c])))"
proof (rule call_sending [OF assms(1,2), of c w])
  fix v' R
  assume c: "call c v w = Some (v', log_call c w)" "steady v v'" "r_maps_ok (v_receiver v')"
    and R: "v_pending v' + R = v_pending v + submitted_by (client (w_log w @ [c]))"
      "size R \<le> removals (client (w_log w @ [c]))"
    and q: "length (s_request_queue (v_sender v')) \<le>
      length (s_request_queue (v_sender v)) + size (submitted_by (client (w_log w @ [c])))"
  have "s_handler (v_sender v') = Some (cb_handler c)" using c(2) assms(3) by (simp add: steady_def)
  note p = reset_pending [OF this] reset_pending [OF assms(3)]
  have "v_pending (v_reset_handler v') + R + {#cb_handler c#} =
      v_pending (v_reset_handler v) + submitted_by (client (w_log w @ [c])) + {#cb_handler c#}"
    using R(1) p by simp
  then have "v_pending (v_reset_handler v') + R =
      v_pending (v_reset_handler v) + submitted_by (client (w_log w @ [c]))" by (simp only: add_right_cancel)
  from settles_call [where client = client and w = w and c = c, OF p(2) refl this R(2)]
  show thesis using c q by (intro that) (simp_all add: v_reset_handler_def)
qed

lemma fail_settles:
  assumes "re_fail n call h v w = Some (v', w')" and "\<not> v_failed v" and "r_maps_ok (v_receiver v)"
    and "s_handler (v_sender v) = Some h"
  shows "s_pending (v_sender v') = {#} \<and> settles client v w v' w' \<and> r_maps_ok (v_receiver v') \<and>
    v_failed v' = v_failed v \<and> v_fd v' = v_fd v \<and> r_response (v_receiver v') = r_response (v_receiver v)"
proof -
  let ?c = "Errored h write_error None"
  have h: "s_handler (v_sender v) = Some (cb_handler ?c)" using assms(4) by simp
  obtain v1 where c: "call ?c v w = Some (v1, log_call ?c w)" "steady v v1"
    "r_maps_ok (v_receiver (v_reset_handler v1))" "settles client v w (v_reset_handler v1) (log_call ?c w)"
    by (rule call_reset [OF assms(2,3) h, of w])
  have l: "re_fail_loop n call (v_reset_handler v1) (log_call ?c w) = Some (v', w')"
    using assms(1) c(1) by (simp add: re_fail_def)
  have "\<not> v_failed (v_reset_handler v1)" using c(2) assms(2) by (simp add: v_reset_handler_def steady_def)
  note f = fail_loop_settles [OF l this c(3)]
  with c(4) settles_trans have "settles client v w v' w'" by blast
  moreover have "s_pending (v_sender v') = {#}"
    using f by (simp add: s_pending_def steady_def v_reset_handler_def)
  ultimately show ?thesis using f c(2) by (simp add: steady_def v_reset_handler_def)
qed

end

text \<open>
  What \<open>Send\<close> and its steps make of a service that is in order; after a failed write the sender still
  has its writer and must not be used again.
\<close>

definition sent ::
    "'h client \<Rightarrow> service_status option \<Rightarrow> 'h service \<Rightarrow> 'h world \<Rightarrow> 'h service \<Rightarrow> 'h world \<Rightarrow> bool" where
  "sent client res v w v' w' \<longleftrightarrow>
     settles client v w v' w' \<and> \<not> v_failed v' \<and> v_fd v' = v_fd v \<and> r_maps_ok (v_receiver v') \<and>
     r_live (v_receiver v') \<and> res \<noteq> Some kCrash \<and> (res \<noteq> Some kError \<longrightarrow> s_wf (v_sender v')) \<and>
     (res = Some kError \<or> res = Some kIdle \<longrightarrow> s_pending (v_sender v') = {#})"

lemma sent_good: "sent client res v w v' w' \<Longrightarrow> res \<noteq> Some kError \<Longrightarrow> v_good v'"
  by (simp add: sent_def v_good_def)

lemma sent_trans: "settles client v w v1 w1 \<Longrightarrow> v_fd v1 = v_fd v \<Longrightarrow> sent client res v1 w1 v' w' \<Longrightarrow> sent client res v w v' w'"
  by (auto simp: sent_def intro: settles_trans)

text \<open>After \<open>N\<close> calls the client asks for nothing any more.\<close>

definition falls_silent :: "nat \<Rightarrow> 'h client \<Rightarrow> bool" where
  "falls_silent N client \<longleftrightarrow> (\<forall>cs. N \<le> length cs \<longrightarrow> client cs = [])"

abbreviation progress :: "((nat \<times> nat) \<times> nat \<times> nat) set" where
  "progress \<equiv> measure (\<lambda>x. x) <*lex*> measure (\<lambda>x. x)"

lemma progress_rule: "wf progress"
  by (rule wf_lex_prod [OF wf_measure wf_measure])

lemma silent_progress:
  assumes "falls_silent N client" and "k \<le> j + size (submitted_by (client (w_log w @ [c])))" and "j < i"
  shows "((N - length (w_log (log_call c w)), k), (N - length (w_log w), i)) \<in> progress"
  using assms by (cases "N \<le> Suc (length (w_log w))") (auto simp: falls_silent_def)

context cancelling_caller
begin

lemma pass_on_settles:
  assumes "\<not> v_failed v" and "s_handler (v_sender v) = Some h" and "r_maps_ok (v_receiver v)" and "r_live (v_receiver v)"
  shows "\<exists>v' w'. re_pass_on call h v w = Some (v', w') \<and> sent client None v w v' w' \<and>
    (falls_silent N client \<longrightarrow> 2 * length (s_request_queue (v_sender v)) < i \<longrightarrow>
      ((N - length (w_log w'), s_load (v_sender v')), (N - length (w_log w), i)) \<in> progress)"
proof -
  let ?s = "v_sender v" and ?c = "Errored h enqueue_error None"
  obtain ok r1 where e: "r_Enqueue h (s_message_sequence ?s) (s_handler_key ?s) (v_receiver v) = (ok, r1)"
    by (cases "r_Enqueue h (s_message_sequence ?s) (s_handler_key ?s) (v_receiver v)")
  have live: "r_live r1" using r_Enqueue_live [OF e] assms(4) by simp
  let ?v1 = "v\<lparr>v_sender := ?s\<lparr>s_current_writer := None\<rparr>, v_receiver := r1\<rparr>"
  show ?thesis
  proof (cases ok)
    case True
    with r_Enqueue_accepts [OF assms(3), of h _ _ r1] e
    have r1: "r_maps_ok r1" "r_pending r1 = add_mset h (r_pending (v_receiver v))" by auto
    have "re_pass_on call h v w = Some (v_reset_handler ?v1, w)"
      using e True by (simp add: re_pass_on_def)
    moreover have "v_pending (v_reset_handler ?v1) = v_pending v"
      using reset_pending [OF assms(2)] r1(2) by (simp add: v_pending_def v_reset_handler_def s_pending_def)
    then have "sent client None v w (v_reset_handler ?v1) w"
      using r1(1) live assms(1) by (simp add: sent_def settles_silent v_reset_handler_def s_wf_def)
    ultimately show ?thesis by (auto simp: v_reset_handler_def s_load_def)
  next
    case False
    with r_Enqueue_rejects [OF assms(3), of h _ _ r1] e have r1: "r1 = v_receiver v" by simp
    have ok1: "\<not> v_failed ?v1" "r_maps_ok (v_receiver ?v1)" "s_handler (v_sender ?v1) = Some (cb_handler ?c)"
      using assms(1-3) r1 by simp_all
    obtain v2 where c: "call ?c ?v1 w = Some (v2, log_call ?c w)" "steady ?v1 v2"
      "r_maps_ok (v_receiver (v_reset_handler v2))" "settles client ?v1 w (v_reset_handler v2) (log_call ?c w)"
      and q: "length (s_request_queue (v_sender v2)) \<le>
        length (s_request_queue (v_sender ?v1)) + size (submitted_by (client (w_log w @ [?c])))"
      by (rule call_reset [OF ok1, of w])
    have p: "re_pass_on call h v w = Some (v_reset_handler v2, log_call ?c w)"
      using e False c(1) by (simp add: re_pass_on_def)
    have "settles client v w ?v1 w" by (rule settles_silent) (simp_all add: v_pending_def s_pending_def r1)
    from settles_trans [OF this c(4)] have s: "sent client None v w (v_reset_handler v2) (log_call ?c w)"
      using c(2,3) live assms(1) r1 by (simp add: sent_def v_reset_handler_def steady_def s_wf_def r_live_def)
    have "s_load (v_sender (v_reset_handler v2)) \<le>
        2 * length (s_request_queue ?s) + 2 * size (submitted_by (client (w_log w @ [?c])))"
      using q c(2) by (simp add: s_load_def v_reset_handler_def steady_def)
    moreover have "falls_silent N client \<Longrightarrow> N - length (w_log w) = N - Suc (length (w_log w)) \<Longrightarrow>
        client (w_log w @ [?c]) = []" by (simp add: falls_silent_def)
    ultimately have "falls_silent N client \<Longrightarrow> 2 * length (s_request_queue ?s) < i \<Longrightarrow>
        ((N - length (w_log (log_call ?c w)), s_load (v_sender (v_reset_handler v2))), (N - length (w_log w), i)) \<in> progress"
      by (cases "N - length (w_log w) = N - Suc (length (w_log w))") auto
    with p s show ?thesis by blast
  qed
qed

lemma client_fail_loop_returns:
  assumes "falls_silent N client" and "\<not> v_failed v" and "r_maps_ok (v_receiver v)"
  shows "\<exists>n x. re_fail_loop n call v w = Some x"
  using assms(2,3)
proof (induction "(N - length (w_log w), length (s_request_queue (v_sender v)))" arbitrary: v w
    rule: wf_induct_rule [OF progress_rule])
  case 1
  show ?case
  proof (cases "s_request_queue (v_sender v)")
    case Nil
    then have "re_fail_loop 1 call v w = Some (v, w)" by simp
    then show ?thesis by blast
  next
    case (Cons rq rqs)
    let ?c = "Errored (rq_handler rq) write_error None"
    let ?v = "v\<lparr>v_sender := (v_sender v)\<lparr>s_request_queue := rqs\<rparr>\<rparr>"
    have ok: "\<not> v_failed ?v" "r_maps_ok (v_receiver ?v)" using 1(2,3) by simp_all
    obtain v1 R where c: "call ?c ?v w = Some (v1, log_call ?c w)" "steady ?v v1" "r_maps_ok (v_receiver v1)"
      and q: "length (s_request_queue (v_sender v1)) \<le>
        length (s_request_queue (v_sender ?v)) + size (submitted_by (client (w_log w @ [?c])))"
      by (rule call_sending [OF ok, of ?c w])
    have "((N - length (w_log (log_call ?c w)), length (s_request_queue (v_sender v1))),
        (N - length (w_log w), length (s_request_queue (v_sender v)))) \<in> progress"
      by (rule silent_progress [OF assms(1) q]) (simp add: Cons)
    from 1(1) [OF this] c(2,3) 1(2) obtain n x where "re_fail_loop n call v1 (log_call ?c w) = Some x"
      by (auto simp: steady_def)
    then have "re_fail_loop (Suc n) call v w = Some x" using Cons c(1) by simp
    then show ?thesis by blast
  qed
qed

lemma client_fail_returns:
  assumes "falls_silent N client" and "\<not> v_failed v" and "r_maps_ok (v_receiver v)"
  shows "\<exists>n x. re_fail n call h v w = Some x"
proof -
  let ?c = "Errored h write_error None"
  obtain v1 R where c: "call ?c v w = Some (v1, log_call ?c w)" "steady v v1" "r_maps_ok (v_receiver v1)"
    by (rule call_sending [OF assms(2,3), of ?c w])
  have "\<not> v_failed (v_reset_handler v1)" "r_maps_ok (v_receiver (v_reset_handler v1))"
    using c(2,3) assms(2) by (simp_all add: v_reset_handler_def steady_def)
  from client_fail_loop_returns [OF assms(1) this] c(1) show ?thesis by (simp add: re_fail_def)
qed

end

text \<open>One turn of the loop: the request to go on with, and what its writer says.\<close>

lemma s_turn_start:
  assumes "v_good v" and "s_next (v_sender v) = Some (s1, pw)"
    and "pw_Write (cx_ser_message cx) pw (w_wr w) (w_out w) = (st, pw', wr', out')"
    and "u = v\<lparr>v_sender := s1\<lparr>s_current_writer := Some pw'\<rparr>\<rparr>" and "z = w\<lparr>w_wr := wr', w_out := out'\<rparr>"
  obtains h where "s_handler s1 = Some h" and "s_handler (v_sender u) = Some h" and "\<not> v_failed u"
    and "r_maps_ok (v_receiver u)" and "r_live (v_receiver u)" and "s_wf (v_sender u)" and "v_fd u = v_fd v"
    and "settles client v w u z" and "st \<noteq> kAbort"
    and "2 * length (s_request_queue (v_sender u)) < s_load (v_sender v)" and "w_log z = w_log w"
proof -
  have wf: "s_wf (v_sender v)" using assms(1) by (simp add: v_good_def)
  from s_next_pending [OF wf assms(2)] obtain h where n: "s_wf s1" "s_pending s1 = s_pending (v_sender v)"
    "s_current_writer s1 = Some pw" "sw_wf (pw_writer pw)" "s_handler s1 = Some h" by blast
  from pw_Write_no_abort [OF assms(3) n(4)] have st: "st \<noteq> kAbort" and wf': "sw_wf (pw_writer pw')" by auto
  have "settles client v w u z" using n(2) assms(4,5) by (intro settles_silent) (simp_all add: v_pending_def s_pending_def)
  moreover have "2 * length (s_request_queue (v_sender u)) < s_load (v_sender v)"
    using assms(2,4) by (auto simp: s_next_def s_load_def Let_def split: option.splits list.splits)
  ultimately show thesis
    using that [of h] assms(1,4,5) n wf' st by (simp add: v_good_def s_wf_def)
qed

context cancelling_caller
begin

lemma s_turn_settles:
  assumes "re_s_turn n cx call v w = Some (res, v', w')" and "v_good v"
  shows "sent client res v w v' w' \<and> (res = None \<longrightarrow> falls_silent N client \<longrightarrow>
    ((N - length (w_log w'), s_load (v_sender v')), (N - length (w_log w), s_load (v_sender v))) \<in> progress)"
proof (cases "s_next (v_sender v)")
  case None
  with assms show ?thesis
    by (auto simp: re_s_turn_def v_good_def s_next_None s_wf_def s_pending_def sent_def)
next
  case (Some a)
  obtain s1 pw where a: "a = (s1, pw)" by (cases a)
  obtain st pw' wr' out' where wr: "pw_Write (cx_ser_message cx) pw (w_wr w) (w_out w) = (st, pw', wr', out')"
    by (metis prod_cases4)
  let ?u = "v\<lparr>v_sender := s1\<lparr>s_current_writer := Some pw'\<rparr>\<rparr>" and ?z = "w\<lparr>w_wr := wr', w_out := out'\<rparr>"
  obtain h where h: "s_handler s1 = Some h" and u: "s_handler (v_sender ?u) = Some h" "\<not> v_failed ?u"
    "r_maps_ok (v_receiver ?u)" "r_live (v_receiver ?u)" "s_wf (v_sender ?u)" "v_fd ?u = v_fd v"
    and sil: "settles client v w ?u ?z" and st: "st \<noteq> kAbort"
    and load: "2 * length (s_request_queue (v_sender ?u)) < s_load (v_sender v)" "w_log ?z = w_log w"
    by (rule s_turn_start [OF assms(2) Some [unfolded a] wr refl refl])
  note t = assms(1) [unfolded re_s_turn_def Some a option.case prod.case wr Let_def h]
  show ?thesis
  proof (cases st)
    case kInProgress
    with t have "res = Some kIoWait" "v' = ?u" "w' = ?z" by auto
    with sil u show ?thesis by (simp add: sent_def)
  next
    case kDone
    obtain v3 w3 where p: "re_pass_on call h ?u ?z = Some (v3, w3)" "sent client None ?u ?z v3 w3"
      "falls_silent N client \<longrightarrow> ((N - length (w_log w3), s_load (v_sender v3)),
          (N - length (w_log ?z), s_load (v_sender v))) \<in> progress"
      using pass_on_settles [OF u(2,1,3,4), of ?z N "s_load (v_sender v)"] load(1) by blast
    from p(1) t kDone have "res = None" "v' = v3" "w' = w3" by auto
    with p(2,3) sent_trans [OF sil u(6) p(2)] load(2) show ?thesis by simp
  next
    case kFailed
    with t obtain v3 w3 where p: "re_fail n call h ?u ?z = Some (v3, w3)" and r: "res = Some kError" "v' = v3" "w' = w3"
      by (auto simp: bind_eq_Some_conv)
    note f = fail_settles [OF p u(2,3,1)]
    then have "sent client (Some kError) ?u ?z v3 w3" using u by (simp add: sent_def r_live_def)
    from sent_trans [OF sil u(6) this] r show ?thesis by simp
  qed (use st in simp)
qed

lemma client_s_turn_returns:
  assumes "falls_silent N client" and "v_good v"
  shows "\<exists>n x. re_s_turn n cx call v w = Some x"
proof (cases "s_next (v_sender v)")
  case None
  then show ?thesis by (simp add: re_s_turn_def)
next
  case (Some a)
  obtain s1 pw where a: "a = (s1, pw)" by (cases a)
  obtain st pw' wr' out' where wr: "pw_Write (cx_ser_message cx) pw (w_wr w) (w_out w) = (st, pw', wr', out')"
    by (metis prod_cases4)
  let ?u = "v\<lparr>v_sender := s1\<lparr>s_current_writer := Some pw'\<rparr>\<rparr>" and ?z = "w\<lparr>w_wr := wr', w_out := out'\<rparr>"
  obtain h where h: "s_handler s1 = Some h" and u: "s_handler (v_sender ?u) = Some h" "\<not> v_failed ?u"
    "r_maps_ok (v_receiver ?u)" "r_live (v_receiver ?u)"
    by (rule s_turn_start [OF assms(2) Some [unfolded a] wr refl refl])
  obtain n x where "re_fail n call h ?u ?z = Some x" using client_fail_returns [OF assms(1) u(2,3)] by blast
  moreover obtain y where "re_pass_on call h ?u ?z = Some y" using pass_on_settles [OF u(2,1,3,4)] by blast
  ultimately show ?thesis
    by (intro exI [of _ n]) (cases x; cases y; auto simp: re_s_turn_def Some a wr h Let_def)
qed

lemma Send_settles:
  assumes "re_Send n cx call v w = Some (st, v', w')" and "v_good v"
  shows "sent client (Some st) v w v' w'"
  using assms
proof (induction n arbitrary: v w)
  case (Suc n)
  from Suc.prems(1) obtain res v1 w1 where t: "re_s_turn n cx call v w = Some (res, v1, w1)"
    and k: "(case res of Some st \<Rightarrow> Some (st, v1, w1) | None \<Rightarrow> re_Send n cx call v1 w1) = Some (st, v', w')"
    by (auto simp: bind_eq_Some_conv)
  have s: "sent client res v w v1 w1" using s_turn_settles [OF t Suc.prems(2)] by blast
  show ?case
  proof (cases res)
    case None
    with k Suc.IH sent_good [OF s] have "sent client (Some st) v1 w1 v' w'" by simp
    with s show ?thesis by (auto simp: sent_def intro: settles_trans)
  qed (use k s in auto)
qed simp

lemma client_Send_returns:
  assumes "falls_silent N client" and "v_good v"
  shows "\<exists>n x. re_Send n cx call v w = Some x"
  using assms(2)
proof (induction "(N - length (w_log w), s_load (v_sender v))" arbitrary: v w rule: wf_induct_rule [OF progress_rule])
  case 1
  obtain n res v1 w1 where t: "re_s_turn n cx call v w = Some (res, v1, w1)"
    using client_s_turn_returns [OF assms(1) 1(2)] by (metis prod_cases3)
  note s = s_turn_settles [OF t 1(2), of N]
  show ?case
  proof (cases res)
    case (Some st)
    with t have "re_Send (Suc n) cx call v w = Some (st, v1, w1)" by simp
    then show ?thesis by blast
  next
    case None
    with s have "v_good v1" using sent_good [of client res] by blast
    moreover from None s assms(1) have "((N - length (w_log w1), s_load (v_sender v1)),
        (N - length (w_log w), s_load (v_sender v))) \<in> progress" by blast
    ultimately obtain m x where m: "re_Send m cx call v1 w1 = Some x" using 1(1) by blast
    have "re_Send (Suc (max n m)) cx call v w = Some x"
      using s_turn_mono [OF t, of "max n m"] Send_mono [OF m, of "max n m"] None by simp
    then show ?thesis by blast
  qed
qed

end

section \<open>Run\<close>

context cancelling_caller
begin

lemma Run_settles:
  assumes "run_calling n cx call v w = Some (res, v', w')" and "v_ok v"
  shows "v_ok v' \<and> settles client v w v' w' \<and> res \<noteq> Run_crash"
proof (cases "v_failed v")
  case True
  with assms show ?thesis by (simp add: run_calling_def)
next
  case False
  note good = v_good_ok [OF assms(2) False]
  have clean: "v_ok (v_CleanUp u) = r_maps_ok (v_receiver u)" "settles client v w (v_CleanUp u) z = settles client v w u z" for u z
    by (simp_all add: v_CleanUp_def v_pending_def settles_def v_ok_def)
  from assms(1) False obtain st v1 w1 where s: "re_Send n cx call v w = Some (st, v1, w1)"
    by (auto simp: run_calling_def bind_eq_Some_conv)
  note a = Send_settles [OF s good]
  show ?thesis
  proof (cases "st = kError")
    case True
    with assms(1) False s have "res = Run_false" "v' = v_CleanUp v1" "w' = w1" by (simp_all add: run_calling_def)
    with a show ?thesis by (simp add: clean sent_def)
  next
    case no: False
    with a have st: "st \<noteq> kCrash" "v_good v1" using sent_good [OF a] by (simp_all add: sent_def)
    from assms(1) False s no st obtain rt v2 w2 where r: "re_Receive n cx call v1 w1 = Some (rt, v2, w2)"
      by (auto simp: run_calling_def bind_eq_Some_conv)
    note b = Receive_settled [OF r st(2)]
    have "settles client v w v2 w2" using a b by (auto simp: sent_def received_def intro: settles_trans)
    moreover have "rt \<noteq> kError \<Longrightarrow> v_ok v2" using b by (simp add: received_def v_ok_def)
    ultimately show ?thesis using assms(1) False s no st r b
      by (cases "rt = kError") (auto simp: run_calling_def received_def clean)
  qed
qed

end

text \<open>
  Every caller that is deep enough for a live service keeps this contract, so what holds of \<open>Run\<close> does
  not depend on the fuel; with enough of it, and a client that falls silent, \<open>Run\<close> returns.
\<close>

interpretation cancelling: cancelling_caller client "ca_call (Suc n) cx client" for client n cx
proof
  fix v :: "'a service" and E c w
  assume "\<not> v_failed v" and "r_maps_left E (v_receiver v)"
  from ca_requests_live [OF this, of cx "ca_call n cx client" "client (w_log w @ [c])" "log_call c w"]
  show "\<exists>v'. ca_call (Suc n) cx client c v w = Some (v', log_call c w) \<and> moved E (client (w_log w @ [c])) v v'"
    by (simp add: Let_def)
qed

text \<open>The reactions of \<open>Reentrancy\<close> are callers of this kind.\<close>

interpretation submitting: cancelling_caller "\<lambda>cs. map Asks_Submit (react cs)" "re_call (Suc n) cx react" for react n cx
  using cancelling.cancelling_caller_axioms [of "\<lambda>cs. map Asks_Submit (react cs)" n cx]
  unfolding ca_call_submits .

section \<open>Fuel\<close>

text \<open>More fuel for the calls only adds results.\<close>

definition extends :: "'h calling \<Rightarrow> 'h calling \<Rightarrow> bool" where
  "extends call call' \<longleftrightarrow> (\<forall>c v w x. call c v w = Some x \<longrightarrow> call' c v w = Some x)"

lemma extendsD: "extends call call' \<Longrightarrow> call c v w = Some x \<Longrightarrow> call' c v w = Some x"
  unfolding extends_def by blast

lemma extends_requests:
  "extends call call' \<Longrightarrow> ca_requests cx call as v w = Some x \<Longrightarrow> ca_requests cx call' as v w = Some x"
  by (induction as arbitrary: v w)
    (auto simp: re_Submit_def Let_def bind_eq_Some_conv dest: extendsD split: api_call.splits if_splits)

lemma extends_ca_call: "n \<le> m \<Longrightarrow> extends (ca_call n cx client) (ca_call m cx client)"
proof (induction n arbitrary: m)
  case 0
  show ?case by (simp add: extends_def)
next
  case (Suc n)
  then obtain k where "m = Suc k" "n \<le> k" by (cases m) auto
  with Suc.IH [OF this(2)] show ?case
    by (subst extends_def) (auto simp: Let_def dest: extends_requests)
qed

lemma extends_fail:
  assumes "extends call call'" and "re_fail n call h v w = Some x"
  shows "re_fail n call' h v w = Some x"
proof -
  have "re_fail_loop n call v w = Some x \<Longrightarrow> re_fail_loop n call' v w = Some x" for v w
    by (induction n arbitrary: v w) (auto simp: bind_eq_Some_conv dest: extendsD [OF assms(1)] split: list.splits)
  with assms(2) show ?thesis by (auto simp: re_fail_def bind_eq_Some_conv dest: extendsD [OF assms(1)])
qed

lemma extends_pass_on:
  "extends call call' \<Longrightarrow> re_pass_on call h v w = Some x \<Longrightarrow> re_pass_on call' h v w = Some x"
  by (auto simp: re_pass_on_def Let_def bind_eq_Some_conv dest: extendsD split: prod.splits if_splits)

lemma extends_s_turn:
  assumes "extends call call'" and "re_s_turn n cx call v w = Some x"
  shows "re_s_turn n cx call' v w = Some x"
  using assms(2) unfolding re_s_turn_def Let_def
  by (auto simp: bind_eq_Some_conv split: option.splits prod.splits if_splits
      dest: extends_fail [OF assms(1)] extends_pass_on [OF assms(1)])

lemma extends_Send:
  "extends call call' \<Longrightarrow> re_Send n cx call v w = Some x \<Longrightarrow> re_Send n cx call' v w = Some x"
proof (induction n arbitrary: v w)
  case (Suc n)
  from Suc.prems(2) obtain res v1 w1 where t: "re_s_turn n cx call v w = Some (res, v1, w1)"
    and k: "(case res of Some st \<Rightarrow> Some (st, v1, w1) | None \<Rightarrow> re_Send n cx call v1 w1) = Some x"
    by (auto simp: bind_eq_Some_conv)
  from extends_s_turn [OF Suc.prems(1) t] k Suc.IH [OF Suc.prems(1), of v1 w1] show ?case by (cases res) auto
qed simp

lemma extends_error_loop:
  "extends call call' \<Longrightarrow> re_error_loop call e es v w = Some x \<Longrightarrow> re_error_loop call' e es v w = Some x"
proof (induction es arbitrary: v w)
  case (Cons y es)
  obtain seq h key where y: "y = (seq, h, key)" by (cases y)
  obtain k km where k: "um_erase key (r_key_map (v_receiver v)) = (k, km)"
    by (cases "um_erase key (r_key_map (v_receiver v))")
  let ?v = "v\<lparr>v_receiver := (v_receiver v)\<lparr>r_key_map := km\<rparr>\<rparr>"
  show ?case
  proof (cases "um_find seq (r_map (v_receiver v)) = None \<or> k \<noteq> 1")
    case True
    with Cons y k show ?thesis by (auto split: if_splits)
  next
    case False
    with Cons.prems(2) y k obtain v1 w1 where c: "call (Errored h e None) ?v w = Some (v1, w1)"
      by (auto simp: bind_eq_Some_conv)
    from c extendsD [OF Cons.prems(1) c] False Cons.prems Cons.IH [OF Cons.prems(1), of v1 w1] y k show ?thesis
      by (auto split: if_splits)
  qed
qed simp

lemma extends_give_up:
  assumes "extends call call'" and "re_give_up call st e v w = Some x"
  shows "re_give_up call' st e v w = Some x"
proof -
  have "re_CallAllErrorHandlers call e v w = Some y \<Longrightarrow> re_CallAllErrorHandlers call' e v w = Some y" for y
  proof (cases "r_handler (v_receiver v)")
    case (Some h)
    assume "re_CallAllErrorHandlers call e v w = Some y"
    with Some obtain v1 w1 z where c: "call (Errored h e None) v w = Some (v1, w1)"
      and l: "re_error_loop call e (r_map (v_receiver (r_reset_handler v1))) (r_reset_handler v1) w1 = Some z"
      and y: "y = (fst z, if fst z then (fst (snd z))\<lparr>v_receiver := (v_receiver (fst (snd z)))\<lparr>r_map := []\<rparr>\<rparr> else fst (snd z), snd (snd z))"
      by (auto simp: re_CallAllErrorHandlers_def bind_eq_Some_conv)
    show ?thesis using Some extendsD [OF assms(1) c] extends_error_loop [OF assms(1) l] y
      by (cases z) (simp add: re_CallAllErrorHandlers_def)
  next
    case None
    assume "re_CallAllErrorHandlers call e v w = Some y"
    with None obtain z where l: "re_error_loop call e (r_map (v_receiver v)) v w = Some z"
      and y: "y = (fst z, if fst z then (fst (snd z))\<lparr>v_receiver := (v_receiver (fst (snd z)))\<lparr>r_map := []\<rparr>\<rparr> else fst (snd z), snd (snd z))"
      by (auto simp: re_CallAllErrorHandlers_def bind_eq_Some_conv)
    show ?thesis using None extends_error_loop [OF assms(1) l] y
      by (cases z) (simp add: re_CallAllErrorHandlers_def)
  qed
  with assms(2) show ?thesis by (auto simp: re_give_up_def bind_eq_Some_conv)
qed

lemma extends_r_call:
  "extends call call' \<Longrightarrow> re_r_call call ack cmd v w = Some x \<Longrightarrow> re_r_call call' ack cmd v w = Some x"
  unfolding re_r_call_def Let_def
  by (auto simp: bind_eq_Some_conv dest: extendsD split: option.splits prod.splits if_splits)

lemma extends_dispatch:
  assumes "extends call call'" and "re_dispatch cx call v w = Some x"
  shows "re_dispatch cx call' v w = Some x"
proof -
  define u where "u = (\<lambda>cmd :: command. v\<lparr>v_receiver := (case h_connectionid (cmd_header cmd) of
      Some c \<Rightarrow> (v_receiver v)\<lparr>r_connection_id := c\<rparr> | None \<Rightarrow> v_receiver v)\<rparr>)"
  have u: "v\<lparr>v_receiver := (case h_connectionid (cmd_header cmd) of
      Some c \<Rightarrow> (v_receiver v)\<lparr>r_connection_id := c\<rparr> | None \<Rightarrow> v_receiver v)\<rparr> = u cmd" for cmd
    by (simp add: u_def)
  define a where "a = (\<lambda>cmd. if msg_authtype (r_message (v_receiver v)) = UNSOLICITEDSTATUS
      then cmd\<lparr>cmd_header := (cmd_header cmd)\<lparr>h_acksequence := Some (- 1)\<rparr>\<rparr> else cmd)"
  have a: "(if msg_authtype (r_message (v_receiver v)) = UNSOLICITEDSTATUS
      then cmd\<lparr>cmd_header := (cmd_header cmd)\<lparr>h_acksequence := Some (- 1)\<rparr>\<rparr> else cmd) = a cmd" for cmd
    by (simp add: a_def)
  from assms(2) show ?thesis unfolding re_dispatch_def Let_def u a
    by (auto split: option.split_asm if_split_asm dest: extends_give_up [OF assms(1)] extends_r_call [OF assms(1)])
qed

lemma extends_r_turn:
  assumes "extends call call'" and "re_r_turn cx call v w = Some x"
  shows "re_r_turn cx call' v w = Some x"
  using assms(2) unfolding re_r_turn_def Let_def
  by (auto split: option.split_asm prod.split_asm nb_string_status.split_asm
      dest: extends_give_up [OF assms(1)] extends_dispatch [OF assms(1)])

lemma extends_Receive:
  "extends call call' \<Longrightarrow> re_Receive n cx call v w = Some x \<Longrightarrow> re_Receive n cx call' v w = Some x"
proof (induction n arbitrary: v w)
  case (Suc n)
  from Suc.prems(2) obtain res v1 w1 where t: "re_r_turn cx call v w = Some (res, v1, w1)"
    and k: "(case res of Some st \<Rightarrow> Some (st, v1, w1) | None \<Rightarrow> re_Receive n cx call v1 w1) = Some x"
    by (auto simp: bind_eq_Some_conv)
  from extends_r_turn [OF Suc.prems(1) t] k Suc.IH [OF Suc.prems(1), of v1 w1] show ?case by (cases res) auto
qed simp

lemma ca_Run_returns:
  assumes "falls_silent N client" and "v_ok v"
  shows "\<exists>n0 x. \<forall>n \<ge> n0. ca_Run n cx client v w = Some x"
proof (cases "v_failed v")
  case True
  then show ?thesis by (simp add: ca_Run_def run_calling_def)
next
  case False
  note good = v_good_ok [OF assms(2) False]
  let ?call = "ca_call (Suc 0) cx client"
  obtain k st v1 w1 where k: "re_Send k cx ?call v w = Some (st, v1, w1)"
    using cancelling.client_Send_returns [OF assms(1) good] by (metis prod_cases3)
  note a = cancelling.Send_settles [OF k good]
  have call: "extends ?call (ca_call n cx client)" if "Suc 0 \<le> n" for n using that by (rule extends_ca_call)
  have send: "re_Send n cx (ca_call n cx client) v w = Some (st, v1, w1)" if "k \<le> n" "Suc 0 \<le> n" for n
    using extends_Send [OF call [OF that(2)] Send_mono [OF k that(1)]] .
  show ?thesis
  proof (cases "st = kError")
    case True
    have "ca_Run n cx client v w = Some (Run_false, v_CleanUp v1, w1)" if "max k (Suc 0) \<le> n" for n
      using that True False send [of n] by (simp add: ca_Run_def run_calling_def)
    then show ?thesis by blast
  next
    case no: False
    with a have st: "st \<noteq> kCrash" "v_good v1" using sent_good [OF a] by (simp_all add: sent_def)
    obtain m rt v2 w2 where m: "re_Receive m cx ?call v1 w1 = Some (rt, v2, w2)"
      using cancelling.Receive_settles [OF st(2) lessI] by blast
    have receive: "re_Receive n cx (ca_call n cx client) v1 w1 = Some (rt, v2, w2)" if "m \<le> n" "Suc 0 \<le> n" for n
      using extends_Receive [OF call [OF that(2)] Receive_mono [OF m that(1)]] .
    let ?K = "max (max k m) (Suc 0)"
    have "ca_Run n cx client v w = ca_Run ?K cx client v w" if "?K \<le> n" for n
      using that no False st(1) send [of n] send [of ?K] receive [of n] receive [of ?K]
      by (simp add: ca_Run_def run_calling_def)
    moreover have "\<exists>x. ca_Run ?K cx client v w = Some x"
      using no False st(1) send [of ?K] receive [of ?K] by (simp add: ca_Run_def run_calling_def)
    ultimately show ?thesis by metis
  qed
qed

section \<open>Submitting to a service that has failed\<close>

text \<open>
  A failed service calls the handler of a new request at once, whose client may ask for more. The
  requests \<open>as\<close> are carried out in order, with everything that is asked for on the way.
\<close>

definition answers :: "'h client \<Rightarrow> 'h api_call list \<Rightarrow> 'h service \<Rightarrow> 'h world \<Rightarrow> 'h service \<Rightarrow> 'h world \<Rightarrow> bool" where
  "answers client as v w v' w' \<longleftrightarrow>
     v_failed v' = v_failed v \<and> r_maps_ok (v_receiver v') \<and>
     (\<exists>ds R. w_log w' = w_log w @ ds \<and>
        v_pending v' + called w' + R =
          v_pending v + called w + submitted_by as + submitted_by (requests client (w_log w) ds) \<and>
        size R \<le> removals as + removals (requests client (w_log w) ds))"

lemma answers_Nil: "r_maps_ok (v_receiver v) \<Longrightarrow> answers client [] v w v w"
  unfolding answers_def by (intro conjI refl exI [of _ "[]"] exI [of _ "{#}"]) simp_all

lemma answers_Cons:
  assumes "answers client [a] v w v1 w1" and "answers client as v1 w1 v2 w2"
  shows "answers client (a # as) v w v2 w2"
proof -
  obtain ds R where d: "w_log w1 = w_log w @ ds" "size R \<le> removals [a] + removals (requests client (w_log w) ds)"
    "v_pending v1 + called w1 + R =
       v_pending v + called w + submitted_by [a] + submitted_by (requests client (w_log w) ds)"
    using assms(1) unfolding answers_def by blast
  obtain es R' where e: "w_log w2 = w_log w1 @ es" "size R' \<le> removals as + removals (requests client (w_log w1) es)"
    "v_pending v2 + called w2 + R' =
       v_pending v1 + called w1 + submitted_by as + submitted_by (requests client (w_log w1) es)"
    using assms(2) unfolding answers_def by blast
  have s: "submitted_by (a # as) = submitted_by [a] + submitted_by as" "removals (a # as) = removals [a] + removals as"
    by (simp_all split: api_call.splits)
  have "v_pending v2 + called w2 + (R' + R) = (v_pending v2 + called w2 + R') + R" by (simp only: add.assoc)
  also have "\<dots> = (v_pending v1 + called w1 + R) + submitted_by as + submitted_by (requests client (w_log w1) es)"
    by (simp only: e(3)) (simp only: ac_simps)
  also have "\<dots> = v_pending v + called w + submitted_by (a # as) + submitted_by (requests client (w_log w) (ds @ es))"
    by (simp only: d(3) s) (simp only: d(1) requests_append api_calls_append ac_simps)
  finally have "v_pending v2 + called w2 + (R' + R) =
    v_pending v + called w + submitted_by (a # as) + submitted_by (requests client (w_log w) (ds @ es))" .
  moreover have "size (R' + R) \<le> removals (a # as) + removals (requests client (w_log w) (ds @ es))"
    using d(2) e(2) by (simp only: s) (simp add: d(1))
  ultimately show ?thesis
    using assms d(1) e(1) unfolding answers_def by (intro conjI exI [of _ "ds @ es"] exI [of _ "R' + R"]) simp_all
qed

text \<open>A request that is answered at once, with what its client asked for.\<close>

lemma answers_Submit:
  assumes "answers client (client (w_log w @ [c])) (v\<lparr>v_next_key := k\<rparr>) (log_call c w) v1 w1"
    and "cb_handler c = su_handler u"
  shows "answers client [Asks_Submit u] v w v1 w1"
proof -
  obtain ds R where d: "w_log w1 = w_log w @ c # ds"
    "size R \<le> removals (client (w_log w @ [c])) + removals (requests client (w_log w @ [c]) ds)"
    "v_pending v1 + called w1 + R = v_pending v + called (log_call c w) +
       submitted_by (client (w_log w @ [c])) + submitted_by (requests client (w_log w @ [c]) ds)"
    using assms(1) by (auto simp: answers_def v_pending_def)
  have "v_pending v1 + called w1 + R = v_pending v + called w + submitted_by [Asks_Submit u] +
      submitted_by (requests client (w_log w) (c # ds))"
    unfolding d(3) by (simp add: assms(2) ac_simps)
  with d(1,2) assms(1) show ?thesis
    unfolding answers_def by (intro conjI exI [of _ "c # ds"] exI [of _ R]) simp_all
qed

lemma answers_Remove:
  assumes "r_maps_ok (v_receiver v)" and "v_Remove key v = Some (b, v')"
  shows "answers client [Asks_Remove key] v w v' w"
proof -
  have hn: "r_handler (v_receiver v) = None" using assms(1) by (simp add: r_maps_ok_def)
  then have idle: "(v_receiver v)\<lparr>r_handler := None\<rparr> = v_receiver v" by simp
  have "r_maps_left UNIV (v_receiver v)" using assms(1) by (simp add: r_maps_left_UNIV idle)
  from moved_Remove [OF this, of key] assms(2) have m: "moved UNIV [Asks_Remove key] v v'" by simp
  then have hn': "r_handler (v_receiver v') = None" using hn by (simp add: moved_def)
  then have "(v_receiver v')\<lparr>r_handler := None\<rparr> = v_receiver v'" by simp
  with m have ok: "r_maps_ok (v_receiver v')" "v_failed v' = v_failed v" by (simp_all add: moved_def r_maps_left_UNIV)
  obtain R where R: "v_pending v' + R = v_pending v" "size R \<le> 1"
    using m by (auto simp: moved_def v_left_idle hn hn')
  have "v_pending v' + called w + R = v_pending v + called w" unfolding R(1) [symmetric] by (simp only: ac_simps)
  with ok R(2) show ?thesis unfolding answers_def by (intro conjI exI [of _ "[]"] exI [of _ R]) simp_all
qed

lemma ca_requests_Cons:
  "ca_requests cx call (a # as) v w = do { (v1, w1) \<leftarrow> ca_requests cx call [a] v w; ca_requests cx call as v1 w1 }"
  by (cases a) (auto intro!: Option.bind_cong)

lemma answers_all:
  assumes "\<And>a v w v' w'. ca_requests cx call [a] v w = Some (v', w') \<Longrightarrow> v_failed v \<Longrightarrow> r_maps_ok (v_receiver v) \<Longrightarrow>
      answers client [a] v w v' w'"
    and "ca_requests cx call as v w = Some (v', w')" and "v_failed v" and "r_maps_ok (v_receiver v)"
  shows "answers client as v w v' w'"
  using assms(2-4)
proof (induction as arbitrary: v w)
  case (Cons a as)
  from Cons.prems(1) obtain v1 w1 where a: "ca_requests cx call [a] v w = Some (v1, w1)"
    and r: "ca_requests cx call as v1 w1 = Some (v', w')"
    unfolding ca_requests_Cons [of _ _ a as] by (auto simp: bind_eq_Some_conv simp del: ca_requests.simps)
  note s = assms(1) [OF a Cons.prems(2,3)]
  then have "v_failed v1" "r_maps_ok (v_receiver v1)" using Cons.prems(2) by (simp_all add: answers_def)
  from answers_Cons [OF s Cons.IH [OF r this]] show ?case .
qed (simp add: answers_Nil)

lemma ca_requests_failed:
  assumes "ca_requests cx (ca_call n cx client) as v w = Some (v', w')" and "v_failed v" and "r_maps_ok (v_receiver v)"
  shows "answers client as v w v' w'"
  using assms
proof (induction n arbitrary: as v w v' w')
  case 0
  show ?case
  proof (rule answers_all [OF _ 0])
    fix a v w v' w'
    assume "ca_requests cx (ca_call 0 cx client) [a] v w = Some (v', w')" and "v_failed v" and "r_maps_ok (v_receiver v)"
    then show "answers client [a] v w v' w'"
      by (cases a) (auto simp: re_Submit_def Let_def bind_eq_Some_conv intro: answers_Remove)
  qed
next
  case (Suc n)
  show ?case
  proof (rule answers_all [OF _ Suc.prems])
    fix a v w v' w'
    assume r: "ca_requests cx (ca_call (Suc n) cx client) [a] v w = Some (v', w')"
      and f: "v_failed v" "r_maps_ok (v_receiver v)"
    show "answers client [a] v w v' w'"
    proof (cases a)
      case (Asks_Submit u)
      let ?c = "Errored (su_handler u) already_shut_down None" and ?v = "v\<lparr>v_next_key := v_next_key v + 1\<rparr>"
      from r f Asks_Submit have "ca_call (Suc n) cx client ?c ?v w = Some (v', w')"
        by (auto simp: re_Submit_def Let_def bind_eq_Some_conv simp del: ca_call.simps)
      then have "ca_requests cx (ca_call n cx client) (client (w_log w @ [?c])) ?v (log_call ?c w) = Some (v', w')"
        by (simp add: Let_def)
      from Suc.IH [OF this] f have "answers client (client (w_log w @ [?c])) ?v (log_call ?c w) v' w'" by simp
      from answers_Submit [OF this, of u] Asks_Submit show ?thesis by simp
    next
      case (Asks_Remove key)
      with r f show ?thesis by (auto simp: bind_eq_Some_conv intro: answers_Remove)
    qed
  qed
qed

text \<open>A client that falls silent after \<open>N\<close> calls is answered with fuel for the calls up to there.\<close>

lemma ca_requests_all_return:
  assumes "\<And>a v w. v_failed v \<Longrightarrow> r_maps_ok (v_receiver v) \<Longrightarrow> k \<le> length (w_log w) \<Longrightarrow>
      \<exists>x. ca_requests cx (ca_call n cx client) [a] v w = Some x"
    and "v_failed v" and "r_maps_ok (v_receiver v)" and "k \<le> length (w_log w)"
  shows "\<exists>v' w'. ca_requests cx (ca_call n cx client) as v w = Some (v', w')"
  using assms(2-4)
proof (induction as arbitrary: v w)
  case (Cons a as)
  from assms(1) [OF Cons.prems, of a] obtain v1 w1 where a: "ca_requests cx (ca_call n cx client) [a] v w = Some (v1, w1)"
    by auto
  from ca_requests_failed [OF a Cons.prems(1,2)] Cons.prems have "v_failed v1" "r_maps_ok (v_receiver v1)"
    "k \<le> length (w_log w1)" by (auto simp: answers_def)
  from Cons.IH [OF this] a show ?case
    unfolding ca_requests_Cons [of _ _ a as] by (simp del: ca_requests.simps)
qed simp

lemma failed_Remove: "v_failed v \<Longrightarrow> r_maps_ok (v_receiver v) \<Longrightarrow> \<exists>b v'. v_Remove key v = Some (b, v')"
  using v_Remove_ok [of v key] by (auto simp: v_ok_def)

lemma ca_requests_returns:
  assumes "falls_silent N client" and "v_failed v" and "r_maps_ok (v_receiver v)" and "N - length (w_log w) \<le> n"
  shows "\<exists>v' w'. ca_requests cx (ca_call (Suc n) cx client) as v w = Some (v', w')"
  using assms(2-4)
proof (induction n arbitrary: as v w)
  case 0
  show ?case
  proof (rule ca_requests_all_return [where k = N])
    fix a and v :: "'a service" and w :: "'a world"
    assume f: "v_failed v" "r_maps_ok (v_receiver v)" and l: "N \<le> length (w_log w)"
    then have "client (w_log w @ [c]) = []" for c using assms(1) by (simp add: falls_silent_def)
    show "\<exists>x. ca_requests cx (ca_call (Suc 0) cx client) [a] v w = Some x"
    proof (cases a)
      case (Asks_Remove key)
      with failed_Remove [OF f, of key] show ?thesis by auto
    qed (use f \<open>\<And>c. client (w_log w @ [c]) = []\<close> in \<open>simp add: re_Submit_def Let_def\<close>)
  qed (use 0 in simp_all)
next
  case (Suc n)
  show ?case
  proof (rule ca_requests_all_return [where k = "N - Suc n"])
    fix a and v :: "'a service" and w :: "'a world"
    assume f: "v_failed v" "r_maps_ok (v_receiver v)" and l: "N - Suc n \<le> length (w_log w)"
    show "\<exists>x. ca_requests cx (ca_call (Suc (Suc n)) cx client) [a] v w = Some x"
    proof (cases a)
      case (Asks_Submit u)
      let ?c = "Errored (su_handler u) already_shut_down None" and ?v = "v\<lparr>v_next_key := v_next_key v + 1\<rparr>"
      have "v_failed ?v" "r_maps_ok (v_receiver ?v)" "N - length (w_log (log_call ?c w)) \<le> n" using f l by simp_all
      from Suc.IH [OF this, of "client (w_log w @ [?c])"] obtain v1 w1 where
        "ca_requests cx (ca_call (Suc n) cx client) (client (w_log w @ [?c])) ?v (log_call ?c w) = Some (v1, w1)"
        by blast
      then have "ca_call (Suc (Suc n)) cx client ?c ?v w = Some (v1, w1)" by (simp only: ca_call.simps Let_def) simp
      with Asks_Submit f show ?thesis by (simp add: re_Submit_def Let_def del: ca_call.simps)
    next
      case (Asks_Remove key)
      with failed_Remove [OF f, of key] show ?thesis by (auto simp del: ca_call.simps)
    qed
  qed (use Suc.prems in simp_all)
qed

lemma ca_Submit_returns:
  assumes "falls_silent N client" and "v_ok v"
  shows "\<exists>n0 x. \<forall>n \<ge> n0. re_Submit cx (ca_call n cx client) u v w = Some x"
proof -
  have one: "ca_requests cx call [Asks_Submit u] v w =
      map_option (\<lambda>(key, v', w'). (v', w')) (re_Submit cx call u v w)" for call
    by (cases "re_Submit cx call u v w") auto
  have "\<exists>x. re_Submit cx (ca_call (Suc N) cx client) u v w = Some x"
  proof (cases "v_failed v")
    case True
    have "r_maps_ok (v_receiver v)" using assms(2) by (simp add: v_ok_def)
    from ca_requests_returns [OF assms(1) True this, of w N cx "[Asks_Submit u]"] show ?thesis
      by (auto simp: one simp del: ca_requests.simps ca_call.simps)
  qed (simp add: re_Submit_def Let_def)
  then obtain x where x: "re_Submit cx (ca_call (Suc N) cx client) u v w = Some x" by blast
  have "re_Submit cx (ca_call n cx client) u v w = Some x" if "Suc N \<le> n" for n
    using x extendsD [OF extends_ca_call [OF that]]
    by (auto simp: re_Submit_def Let_def bind_eq_Some_conv simp del: ca_call.simps split: if_splits)
  then show ?thesis by blast
qed

lemma ca_Submit_answers:
  assumes "re_Submit cx (ca_call n cx client) u v w = Some (key, v', w')" and "v_ok v"
  shows "v_ok v' \<and> answers client [Asks_Submit u] v w v' w'"
proof (cases "v_failed v")
  case True
  from assms(1) have "ca_requests cx (ca_call n cx client) [Asks_Submit u] v w = Some (v', w')" by simp
  from ca_requests_failed [OF this True] assms(2) True show ?thesis by (auto simp: v_ok_def answers_def)
next
  case False
  with assms(1) have s: "v' = submit_live cx u v" "w' = w" by (auto simp: re_Submit_def submit_live_def Let_def)
  note q = queued_sender [OF queued_submit_live [of u v cx]]
  have "v_receiver v' = v_receiver v" by (simp add: s submit_live_def)
  with q s False assms(2) show ?thesis unfolding answers_def v_ok_def
    by (auto simp: v_pending_def intro!: exI [of _ "[]"] exI [of _ "{#}"])
qed

section \<open>Every history\<close>

text \<open>
  The states that a service with such a client reaches. \<open>S\<close> are the requests submitted from outside,
  \<open>k\<close> the number of removals from outside that answered true.
\<close>

inductive ca_reach ::
    "codec \<Rightarrow> 'h client \<Rightarrow> 'h service \<Rightarrow> 'h world \<Rightarrow> 'h multiset \<Rightarrow> nat \<Rightarrow> bool" for cx client where
  ca_start: "r_map r = [] \<Longrightarrow> r_key_map r = [] \<Longrightarrow> r_handler r = None \<Longrightarrow> r_live r \<Longrightarrow> w_log w = [] \<Longrightarrow>
     ca_reach cx client (new_service fd (new_sender opts) r) w {#} 0"
| ca_submit: "ca_reach cx client v w S k \<Longrightarrow>
     re_Submit cx (ca_call n cx client) u v w = Some (key, v', w') \<Longrightarrow>
     ca_reach cx client v' w' (add_mset (su_handler u) S) k"
| ca_run: "ca_reach cx client v w S k \<Longrightarrow>
     ca_Run n cx client v (w\<lparr>w_rd := w_rd w @ arrivals, w_wr := accepts\<rparr>) = Some (res, v', w') \<Longrightarrow>
     ca_reach cx client v' w' S k"
| ca_remove: "ca_reach cx client v w S k \<Longrightarrow> v_Remove key v = Some (b, v') \<Longrightarrow>
     ca_reach cx client v' w S (if b then Suc k else k)"

lemma ca_Run_settles:
  assumes "ca_Run n cx client v w = Some (res, v', w')" and "v_ok v"
  shows "v_ok v' \<and> settles client v w v' w' \<and> res \<noteq> Run_crash"
proof (cases n)
  case 0
  with assms show ?thesis by (auto simp: ca_Run_def run_calling_def split: if_splits)
next
  case (Suc m)
  from cancelling.Run_settles [OF _ assms(2)] assms(1) show ?thesis unfolding ca_Run_def Suc by blast
qed

text \<open>The ledger of a history: what was submitted, and at most how much of it was removed.\<close>

definition ledger :: "'h client \<Rightarrow> 'h service \<Rightarrow> 'h world \<Rightarrow> 'h multiset \<Rightarrow> nat \<Rightarrow> bool" where
  "ledger client v w S k \<longleftrightarrow> (\<exists>R. v_pending v + called w + R = S + submitted_by (requests client [] (w_log w)) \<and>
     size R \<le> k + removals (requests client [] (w_log w)))"

lemma ledger_step:
  assumes "ledger client v w S k" and "w_log w' = w_log w @ ds"
    and "v_pending v' + called w' + R' = v_pending v + called w + A + submitted_by (requests client (w_log w) ds)"
    and "size R' \<le> j + removals (requests client (w_log w) ds)"
  shows "ledger client v' w' (S + A) (k + j)"
proof -
  obtain R where R: "v_pending v + called w + R = S + submitted_by (requests client [] (w_log w))"
    "size R \<le> k + removals (requests client [] (w_log w))" using assms(1) by (auto simp: ledger_def)
  have "v_pending v' + called w' + (R' + R) = (v_pending v' + called w' + R') + R" by (simp only: add.assoc)
  also have "\<dots> = (v_pending v + called w + R) + A + submitted_by (requests client (w_log w) ds)"
    by (simp only: assms(3)) (simp only: ac_simps)
  also have "\<dots> = (S + A) + submitted_by (requests client [] (w_log w'))"
    by (simp only: R(1)) (simp add: assms(2) ac_simps)
  finally show ?thesis unfolding ledger_def using R(2) assms(2,4) by (intro exI [of _ "R' + R"]) simp
qed

lemma ca_reach_conserves:
  assumes "ca_reach cx client v w S k"
  shows "v_ok v \<and> ledger client v w S k"
  using assms
proof (induction rule: ca_reach.induct)
  case (ca_start r w fd opts)
  then show ?case
    by (simp add: v_ok_def v_pending_def new_service_def r_maps_ok_def r_pending_def called_def ledger_def)
next
  case (ca_submit v w S k n u key v' w')
  from ca_Submit_answers [OF ca_submit.hyps(2)] ca_submit.IH have "v_ok v'" "answers client [Asks_Submit u] v w v' w'"
    by simp_all
  with ledger_step [of client v w S k w' _ v' _ "{#su_handler u#}" 0] ca_submit.IH show ?case
    by (auto simp: answers_def)
next
  case (ca_run v w S k n accepts arrivals res v' w')
  from ca_Run_settles [OF ca_run.hyps(2)] ca_run.IH have "v_ok v'"
    "settles client v (w\<lparr>w_rd := w_rd w @ arrivals, w_wr := accepts\<rparr>) v' w'" by simp_all
  with ledger_step [of client v w S k w' _ v' _ "{#}" 0] ca_run.IH show ?case
    by (auto simp: settles_def called_def)
next
  case (ca_remove v w S k key b v')
  from v_Remove_ok [of v key] ca_remove have ok: "v_ok v'"
    and d: "if b then \<exists>h. v_pending v = add_mset h (v_pending v') else v' = v" by auto
  show ?case
  proof (cases b)
    case True
    with d obtain h where "v_pending v = add_mset h (v_pending v')" by auto
    with ledger_step [of client v w S k w "[]" v' "{#h#}" "{#}" 1] ca_remove.IH ok True show ?thesis by simp
  next
    case False
    with d ca_remove.IH show ?thesis by simp
  qed
qed

text \<open>
  C7: Callbacks may submit and cancel. Whatever each callback asks for, in every state that a history of
  submissions, runs and removals reaches, each handler, submitted from outside or by a callback made so
  far, waits, has been called once, or was removed; and no more were removed than \<open>Remove\<close> was asked
  for. This holds although a callback may change the map that the error loop is going over. No \<open>Run\<close>
  crashes. If the client falls silent after some number of calls, \<open>Run\<close> and \<open>Submit\<close> return: no
  \<open>CHECK\<close> of a \<open>Remove\<close> that a callback makes fails, and no iterator is used after its entry was erased.
\<close>

theorem cancelling_handlers_once:
  assumes "ca_reach cx client v w S k"
  shows "(\<exists>R. v_pending v + called w + R = S + submitted_by (requests client [] (w_log w)) \<and>
      size R \<le> k + removals (requests client [] (w_log w))) \<and>
    (\<forall>n w1. case ca_Run n cx client v w1 of None \<Rightarrow> True | Some (res, v', w') \<Rightarrow> res \<noteq> Run_crash) \<and>
    (\<forall>N w1 u. falls_silent N client \<longrightarrow>
       (\<exists>n0 x. \<forall>n \<ge> n0. ca_Run n cx client v w1 = Some x) \<and>
       (\<exists>n0 x. \<forall>n \<ge> n0. re_Submit cx (ca_call n cx client) u v w1 = Some x))"
proof -
  from ca_reach_conserves [OF assms] have ok: "v_ok v" and l: "ledger client v w S k" by simp_all
  have "case ca_Run n cx client v w1 of None \<Rightarrow> True | Some (res, v', w') \<Rightarrow> res \<noteq> Run_crash" for n w1
    using ca_Run_settles [OF _ ok, of n cx client w1] by (auto split: option.splits)
  with l ca_Run_returns [OF _ ok] ca_Submit_returns [OF _ ok] show ?thesis unfolding ledger_def by blast
qed

text \<open>
  Two requests are written, then the connection breaks. The first handler that is told takes the other
  request back, whose handler is then never called.
\<close>

definition example_cancel :: "char list client" where
  "example_cancel cs = (if length cs = 1 then [Asks_Remove 1, Asks_Remove 0, Asks_Remove 5] else [])"

definition example_cancelled :: "(run_result \<times> char list service \<times> char list world) option" where
  "example_cancelled = do {
     (a, v, w) \<leftarrow> re_Submit example_codec (ca_call 1 example_codec example_cancel) (example_submission ''a'')
       example_service \<lparr>w_rd = [], w_wr = [], w_out = [], w_log = []\<rparr>;
     (b, v1, w1) \<leftarrow> re_Submit example_codec (ca_call 1 example_codec example_cancel) (example_submission ''b'') v w;
     ca_Run 5 example_codec example_cancel v1
       (w1\<lparr>w_rd := w_rd w1 @ [Rd_err (Errno 104)], w_wr := replicate 10 (Wr_accept 99)\<rparr>) }"

lemma example_cancelled_value:
  "case example_cancelled of
     None \<Rightarrow> False
   | Some (res, v, w) \<Rightarrow> res = Run_false \<and> w_log w = [Errored ''a'' read_error None] \<and>
       s_handler (v_sender v) = None \<and> s_request_queue (v_sender v) = [] \<and>
       r_handler (v_receiver v) = None \<and> r_map (v_receiver v) = []"
  by code_simp

theorem cancelling_handlers_once_witness:
  "\<exists>v w. ca_reach example_codec example_cancel v w {#''a'', ''b''#} 0 \<and>
     w_log w = [Errored ''a'' read_error None] \<and> v_pending v = {#} \<and>
     (\<exists>R. called w + R = {#''a'', ''b''#} \<and> R = {#''b''#}) \<and>
     (\<exists>n0 x. \<forall>n \<ge> n0. ca_Run n example_codec example_cancel v w = Some x)"
proof -
  let ?w = "\<lparr>w_rd = [], w_wr = [], w_out = [], w_log = []\<rparr>"
  have r0: "ca_reach example_codec example_cancel example_service ?w {#} 0"
    unfolding example_service_def
    by (rule ca_start) (simp_all add: r_after_handshake_def r_live_def initial_receiver_def)
  obtain res v2 w2 where e: "example_cancelled = Some (res, v2, w2)"
    and log: "w_log w2 = [Errored ''a'' read_error None]" and none: "v_pending v2 = {#}"
    using example_cancelled_value
    by (auto simp: v_pending_def s_pending_def r_pending_def split: option.splits)
  from e obtain key v w key' v' w' where
    s: "re_Submit example_codec (ca_call 1 example_codec example_cancel) (example_submission ''a'') example_service ?w
         = Some (key, v, w)"
      "re_Submit example_codec (ca_call 1 example_codec example_cancel) (example_submission ''b'') v w = Some (key', v', w')"
    and run: "ca_Run 5 example_codec example_cancel v'
      (w'\<lparr>w_rd := w_rd w' @ [Rd_err (Errno 104)], w_wr := replicate 10 (Wr_accept 99)\<rparr>) = Some (res, v2, w2)"
    unfolding example_cancelled_def by (fastforce simp only: bind_eq_Some_conv split_paired_Ex prod.case)
  have r: "ca_reach example_codec example_cancel v2 w2 {#''a'', ''b''#} 0"
    using ca_run [OF ca_submit [OF ca_submit [OF r0 s(1)] s(2)] run]
    by (simp add: example_submission_def add_mset_commute)
  note c = cancelling_handlers_once [OF r]
  have "falls_silent 2 example_cancel" by (simp add: falls_silent_def example_cancel_def)
  with c have ret: "\<exists>n0 x. \<forall>n \<ge> n0. ca_Run n example_codec example_cancel v2 w2 = Some x" by blast
  from c obtain R where "v_pending v2 + called w2 + R = {#''a'', ''b''#} +
      submitted_by (requests example_cancel [] (w_log w2))" by blast
  then have "called w2 + R = {#''a'', ''b''#}" "R = {#''b''#}"
    using none by (simp_all add: log called_def example_cancel_def)
  with r log none ret show ?thesis by blast
qed

end
