(* ===== verification/Nested_Run.thy ===== *)
theory Nested_Run
  imports Callback_Removal
begin

text \<open>
  Callbacks that call \<open>Run\<close>. The sender and the receiver call handlers before they have put their own
  state in order: the sender still has the writer that failed, the receiver the reader that failed and
  a map whose keys it is erasing. What a \<open>Run\<close> from inside such a callback makes of that is shown here,
  for the functions of \<open>Reentrancy\<close> and a client whose callbacks all call \<open>Run\<close>.
\<close>

section \<open>A client that calls Run from its callbacks\<close>

text \<open>
  The callbacks of the inner \<open>Run\<close> do nothing, so it is the \<open>Run\<close> of \<open>Service\<close> (see
  \<open>run_without_reactions\<close>), in the middle of the outer one. A crash inside is a crash of the whole.
\<close>

definition nested_call :: "codec \<Rightarrow> 'h calling" where
  "nested_call cx c v w =
     (case v_Run cx v (log_call c w) of (res, v1, w1) \<Rightarrow> if res = Run_crash then None else Some (v1, w1))"

section \<open>After a failed write\<close>

text \<open>The inner \<open>Run\<close> finds the writer that has just failed, with its handler.\<close>

lemma Run_after_failed_write:
  assumes "\<not> v_failed v" and "s_current_writer (v_sender v) = Some pw" and "s_handler (v_sender v) = Some h"
    and "pw_Write (cx_ser_message cx) pw (w_wr w) (w_out w) = (kFailed, pw', wr', out')"
  shows "v_Run cx v w = (Run_false,
    v\<lparr>v_sender := (v_sender v)\<lparr>s_current_writer := Some pw', s_handler := None, s_request_queue := []\<rparr>, v_failed := True\<rparr>,
    log_calls (Errored h write_error None #
      map (\<lambda>rq. Errored (rq_handler rq) write_error None) (s_request_queue (v_sender v)))
      (w\<lparr>w_wr := wr', w_out := out'\<rparr>))"
proof -
  have "s_next (v_sender v) = Some (v_sender v, pw)" using assms(2) by (simp add: s_next_def)
  with assms(3,4) have "s_turn cx r_Enqueue (v_sender v) (v_receiver v) w =
    (Some kError, (v_sender v)\<lparr>s_current_writer := Some pw', s_handler := None, s_request_queue := []\<rparr>, v_receiver v,
     log_calls (Errored h write_error None #
      map (\<lambda>rq. Errored (rq_handler rq) write_error None) (s_request_queue (v_sender v)))
      (w\<lparr>w_wr := wr', w_out := out'\<rparr>))"
    by (simp add: s_turn_def s_fail_def Let_def log_calls_def log_call_def)
  then show ?thesis using assms(1) by (simp add: v_Run_def s_Send.simps [of cx r_Enqueue "v_sender v"] v_CleanUp_def)
qed

lemma nested_write_error:
  assumes "v_ok v" and "\<not> v_failed v" and "s_next (v_sender v) = Some (s1, pw)"
    and "pw_Write (cx_ser_message cx) pw (w_wr w) (w_out w) = (kFailed, pw1, wr1, out1)"
    and "pw_Write (cx_ser_message cx) pw1 wr1 out1 = (kFailed, pw2, wr2, out2)"
  obtains h v' w' where "s_handler s1 = Some h"
    and "run_calling (Suc (Suc n)) cx (nested_call cx) v w = Some (Run_false, v', w')" and "v_failed v'"
    and "w_log w' = w_log w @ [Errored h write_error None, Errored h write_error None] @
      map (\<lambda>rq. Errored (rq_handler rq) write_error None) (s_request_queue s1)"
proof -
  have wf: "s_wf (v_sender v)" using assms(1,2) by (simp add: v_ok_def)
  from s_next_pending [OF wf assms(3)] obtain h where h: "s_handler s1 = Some h" by blast
  let ?c = "Errored h write_error None"
  let ?v = "v\<lparr>v_sender := s1\<lparr>s_current_writer := Some pw1\<rparr>\<rparr>" and ?w = "w\<lparr>w_wr := wr1, w_out := out1\<rparr>"
  have inner: "\<not> v_failed ?v" "s_current_writer (v_sender ?v) = Some pw1" "s_handler (v_sender ?v) = Some h"
    "pw_Write (cx_ser_message cx) pw1 (w_wr (log_call ?c ?w)) (w_out (log_call ?c ?w)) = (kFailed, pw2, wr2, out2)"
    using assms(2,5) h by (simp_all add: log_call_def)
  obtain u z where u: "nested_call cx ?c ?v ?w = Some (u, z)" "s_request_queue (v_sender u) = []" "v_failed u"
    "w_log z = w_log w @ [?c, ?c] @ map (\<lambda>rq. Errored (rq_handler rq) write_error None) (s_request_queue s1)"
    unfolding nested_call_def Run_after_failed_write [OF inner] by (simp add: log_calls_def log_call_def)
  then have "re_fail (Suc n) (nested_call cx) h ?v ?w = Some (v_reset_handler u, z)"
    by (simp add: re_fail_def v_reset_handler_def)
  then have "re_s_turn (Suc n) cx (nested_call cx) v w = Some (Some kError, v_reset_handler u, z)"
    by (simp add: re_s_turn_def assms(3,4) h Let_def)
  then have "run_calling (Suc (Suc n)) cx (nested_call cx) v w = Some (Run_false, v_CleanUp (v_reset_handler u), z)"
    using assms(2) by (simp add: run_calling_def)
  from that [OF h this _ u(4)] show thesis by (simp add: v_CleanUp_def)
qed

section \<open>After a failed read\<close>

text \<open>The inner \<open>Run\<close> goes over the map again and finds an entry whose key has been erased.\<close>

lemma nested_run_aborts:
  assumes "v_ok v" and "\<not> v_failed v" and "s_next (v_sender v) = None" and "r_next (v_receiver v) = Some pr"
    and "pr_Read (cx_parse_message cx) pr (w_rd w) (r_message (v_receiver v)) (r_value (v_receiver v)) =
      (kFailed, pr1, rd1, m1, x1)"
    and "pr_Read (cx_parse_message cx) pr1 rd1 m1 x1 = (kFailed, pr2, rd2, m2, x2)"
    and "r_map (v_receiver v) = (seq, h, key) # es" and "c = Errored h read_error None"
  shows "\<exists>v1 w1. (\<forall>n call. call c v1 w1 = None \<longrightarrow> run_calling n cx call v w = None) \<and>
    fst (v_Run cx v1 (log_call c w1)) = Run_crash"
proof -
  let ?r = "v_receiver v"
  have ok: "r_maps_ok ?r" using assms(1) by (simp add: v_ok_def)
  then have hn: "r_handler ?r = None" by (simp add: r_maps_ok_def)
  have f: "um_find seq (r_map ?r) = Some (h, key)" using assms(7) by (simp add: um_find_def)
  obtain km where km: "um_erase key (r_key_map ?r) = (1, km)"
    using r_maps_ok_entry(1) [OF ok f] by (simp add: um_erase_def)
  then have gone: "um_erase key km = (0, km)" by (auto simp: um_erase_def um_find_None_iff)
  let ?v = "v\<lparr>v_receiver := ?r\<lparr>r_response := Some pr1, r_message := m1, r_value := x1\<rparr>\<rparr>" and ?w = "w\<lparr>w_rd := rd1\<rparr>"
  let ?v1 = "v\<lparr>v_receiver := ?r\<lparr>r_response := Some pr1, r_message := m1, r_value := x1, r_key_map := km\<rparr>\<rparr>"
  have "run_calling n cx call v w = None" if none: "call c ?v1 ?w = None" for n call
  proof (cases "run_calling n cx call v w")
    case (Some y)
    have "re_error_loop call read_error (r_map ?r) ?v ?w = None"
      using none f km assms(7,8) by simp
    then have "re_give_up call kError read_error ?v ?w = None"
      using hn by (simp add: re_give_up_def re_CallAllErrorHandlers_def)
    then have "re_r_turn cx call v w = None" using assms(4,5) by (simp add: re_r_turn_def Let_def)
    then have receive: "re_Receive n cx call v w = None" by (cases n) simp_all
    have send: "re_Send n cx call v w = None \<or> re_Send n cx call v w = Some (kIdle, v, w)"
      by (cases n) (simp_all add: re_s_turn_def assms(3))
    from Some receive send assms(2) show ?thesis by (auto simp: run_calling_def)
  qed simp
  moreover have "fst (v_Run cx ?v1 (log_call c ?w)) = Run_crash"
  proof -
    have "s_Send cx r_Enqueue (v_sender v) (v_receiver ?v1) (log_call c ?w) =
        (kIdle, v_sender v, v_receiver ?v1, log_call c ?w)"
      by (simp add: s_Send.simps [of cx r_Enqueue "v_sender v"] s_turn_def assms(3))
    moreover have "r_turn cx (v_receiver ?v1) (log_call c ?w) =
        (Some kCrash, (v_receiver ?v1)\<lparr>r_response := Some pr2, r_message := m2, r_value := x2\<rparr>, (log_call c ?w)\<lparr>w_rd := rd2\<rparr>)"
      using assms(6,7) hn gone
      by (simp add: r_turn_def r_next_def Let_def r_give_up_def r_CallAllErrorHandlers_def log_call_def)
    then have "fst (r_Receive cx (v_receiver ?v1) (log_call c ?w)) = kCrash"
      by (subst r_Receive.simps) simp
    ultimately show ?thesis
      using assms(2) by (cases "r_Receive cx (v_receiver ?v1) (log_call c ?w)") (simp add: v_Run_def Let_def)
  qed
  ultimately show ?thesis by blast
qed

section \<open>What it comes to\<close>

text \<open>
  C23: Exactly one callback per request does not survive a client that calls \<open>Run\<close> from a callback. When a
  write fails and the socket stays broken, the handler of the request is told, the \<open>Run\<close> that it makes
  takes up the same writer again, fails, and tells the same handler a second time, before the queued
  ones. Both calls of \<open>Run\<close> return false and the service has failed; the sender resets its writer and
  its handler only after it has called the handler.
\<close>

theorem nested_run_tells_handler_twice:
  assumes "v_ok v" and "\<not> v_failed v" and "s_next (v_sender v) = Some (s1, pw)"
    and "pw_Write (cx_ser_message cx) pw (w_wr w) (w_out w) = (kFailed, pw1, wr1, out1)"
    and "pw_Write (cx_ser_message cx) pw1 wr1 out1 = (kFailed, pw2, wr2, out2)"
  shows "\<exists>h v' w'. s_handler s1 = Some h \<and> s_pending (v_sender v) = add_mset h (mset (map rq_handler (s_request_queue s1))) \<and>
    run_calling (Suc (Suc n)) cx (nested_call cx) v w = Some (Run_false, v', w') \<and> v_failed v' \<and>
    w_log w' = w_log w @ [Errored h write_error None, Errored h write_error None] @
      map (\<lambda>rq. Errored (rq_handler rq) write_error None) (s_request_queue s1)"
proof (rule nested_write_error [OF assms, of n])
  fix h v' w'
  assume r: "s_handler s1 = Some h" "run_calling (Suc (Suc n)) cx (nested_call cx) v w = Some (Run_false, v', w')"
    "v_failed v'" "w_log w' = w_log w @ [Errored h write_error None, Errored h write_error None] @
      map (\<lambda>rq. Errored (rq_handler rq) write_error None) (s_request_queue s1)"
  have "s_wf (v_sender v)" using assms(1,2) by (simp add: v_ok_def)
  from s_next_pending [OF this assms(3)] r(1)
  have "s_pending (v_sender v) = add_mset h (mset (map rq_handler (s_request_queue s1)))"
    by (auto simp: s_pending_def)
  with r show ?thesis by blast
qed

lemma example_broken:
  "case s_next example_sender of None \<Rightarrow> False
   | Some (s1, pw) \<Rightarrow> s_handler s1 = Some ''a'' \<and> map rq_handler (s_request_queue s1) = [''b''] \<and>
     (case pw_Write (cx_ser_message example_codec) pw [Wr_err (Errno 32), Wr_err (Errno 32)] [] of
        (st, pw1, wr1, out1) \<Rightarrow> st = kFailed \<and> fst (pw_Write (cx_ser_message example_codec) pw1 wr1 out1) = kFailed)"
  by code_simp

theorem nested_run_tells_handler_twice_witness:
  "\<exists>v' w'. run_calling 2 example_codec (nested_call example_codec) (example_service\<lparr>v_sender := example_sender\<rparr>)
      \<lparr>w_rd = [], w_wr = [Wr_err (Errno 32), Wr_err (Errno 32)], w_out = [], w_log = []\<rparr> = Some (Run_false, v', w') \<and>
     w_log w' = [Errored ''a'' write_error None, Errored ''a'' write_error None, Errored ''b'' write_error None]"
proof -
  let ?v = "example_service\<lparr>v_sender := example_sender\<rparr>"
    and ?w = "\<lparr>w_rd = [], w_wr = [Wr_err (Errno 32), Wr_err (Errno 32)], w_out = [], w_log = []\<rparr>"
  have ok: "v_ok ?v" "\<not> v_failed ?v"
    by (simp_all add: v_ok_def example_service_def new_service_def example_sender_def r_live_def
        r_after_handshake_def initial_receiver_def r_maps_ok_def)
  obtain s1 pw where n: "s_next example_sender = Some (s1, pw)" using example_broken by (auto split: option.splits)
  obtain st pw1 wr1 out1 where wr: "pw_Write (cx_ser_message example_codec) pw [Wr_err (Errno 32), Wr_err (Errno 32)] []
      = (st, pw1, wr1, out1)" by (metis prod_cases4)
  obtain st2 pw2 wr2 out2 where wr2: "pw_Write (cx_ser_message example_codec) pw1 wr1 out1 = (st2, pw2, wr2, out2)"
    by (metis prod_cases4)
  from example_broken n wr wr2 have st: "st = kFailed" "st2 = kFailed" "map rq_handler (s_request_queue s1) = [''b'']" "s_handler s1 = Some ''a''"
    by simp_all
  from n wr wr2 st have "s_next (v_sender ?v) = Some (s1, pw)"
    "pw_Write (cx_ser_message example_codec) pw (w_wr ?w) (w_out ?w) = (kFailed, pw1, wr1, out1)"
    "pw_Write (cx_ser_message example_codec) pw1 wr1 out1 = (kFailed, pw2, wr2, out2)" by simp_all
  note t = nested_run_tells_handler_twice [OF ok this, of 0]
  from st(3) have "map (\<lambda>rq. Errored (rq_handler rq) write_error None) (s_request_queue s1) =
      [Errored ''b'' write_error None]" by auto
  with t st(4) show ?thesis unfolding numeral_2_eq_2 by auto
qed

end
