(* ===== verification/Liveness.thy ===== *)
theory Liveness
  imports Blocking
begin

text \<open>
  What a blocking operation can rely on: from the kernel and the drive to the caller. If the kernel
  takes the bytes of the request, in whatever pieces and over however many rounds, and the response
  arrives in time, in whatever pieces, then the operation returns OK with the contents of this
  response, and the connection is ready for the next one.

  The way there: writing makes progress with everything the kernel takes, and reading can be cut
  anywhere, since a call of \<open>Receive\<close> goes on exactly where the last one had to wait.
\<close>

section \<open>Writing makes progress\<close>

text \<open>A kernel that takes something with every call, apart from interruptions.\<close>

fun wr_prompt_event :: "wr_event \<Rightarrow> bool" where
  "wr_prompt_event (Wr_accept k) \<longleftrightarrow> 0 < k"
| "wr_prompt_event (Wr_err e) \<longleftrightarrow> e = EINTR"
| "wr_prompt_event Wr_fstat_fail \<longleftrightarrow> False"

definition wr_prompt :: "wr_event list \<Rightarrow> bool" where
  "wr_prompt evs \<longleftrightarrow> list_all wr_prompt_event evs"

fun wr_takes :: "wr_event \<Rightarrow> nat" where
  "wr_takes (Wr_accept k) = 1"
| "wr_takes _ = 0"

text \<open>The bytes that a script takes at least.\<close>

definition wr_capacity :: "wr_event list \<Rightarrow> nat" where
  "wr_capacity evs = sum_list (map wr_takes evs)"

lemma wr_simps [simp]:
  "wr_prompt []" "wr_prompt (e # evs) \<longleftrightarrow> wr_prompt_event e \<and> wr_prompt evs"
  "wr_prompt (es @ fs) \<longleftrightarrow> wr_prompt es \<and> wr_prompt fs"
  "wr_capacity [] = 0" "wr_capacity (e # evs) = wr_takes e + wr_capacity evs"
  "wr_capacity (es @ fs) = wr_capacity es + wr_capacity fs"
  by (auto simp: wr_prompt_def wr_capacity_def)

lemma wr_replicate [simp]:
  "wr_prompt (replicate n e) \<longleftrightarrow> n = 0 \<or> wr_prompt_event e"
  "wr_capacity (replicate n e) = n * wr_takes e"
  by (induction n) auto

lemma sys_fstat_prompt: "wr_prompt evs \<Longrightarrow> sys_fstat evs = (True, evs)"
  by (cases evs rule: sys_fstat.cases) auto

lemma sw_write_progress:
  assumes "sw_write w evs out = (st, w', evs', out')" and "sw_wf w" and "wr_prompt evs"
  shows "wr_prompt evs' \<and> st \<noteq> kFailed \<and> (st = kInProgress \<longrightarrow> evs' = []) \<and>
    length (sw_rest w') + wr_capacity evs \<le> length (sw_rest w) + wr_capacity evs'"
  using assms
proof (induction rule: sw_write_runs)
  case (stop w evs out st evs')
  then show ?case
    using sys_fstat_prompt [OF stop.prems(2)]
    by (cases evs rule: sys_fstat.cases) (auto simp: min_def split: if_splits)
next
  case (retry w evs out evs1 st w' evs' out')
  obtain rest where "evs = Wr_err EINTR # rest" "evs1 = rest"
    using retry.hyps(2) retry.prems(2) by (cases evs rule: sys_fstat.cases) (auto split: if_splits)
  with retry show ?case by simp
next
  case (took w evs out k evs1 st w' evs' out')
  obtain j where "evs = Wr_accept j # evs1"
    using took.hyps(2) by (cases evs rule: sys_fstat.cases) auto
  then have c: "wr_capacity evs = Suc (wr_capacity evs1)" "wr_prompt evs1" using took.prems(2) by auto
  have "sw_wf (w\<lparr>sw_written := sw_written w + k\<rparr>)" using took.hyps(1,4) by (simp add: sw_wf_def)
  from took.IH [OF this c(2)] c(1) took.hyps(3,4) show ?case by (auto simp: sw_rest_def)
qed auto

lemma pw_loop_progress:
  assumes "pw_loop ser w evs out = (st, w', evs', out')" and "pw_wf ser s w" and "wr_prompt evs"
  shows "wr_prompt evs' \<and> st \<noteq> kFailed \<and> (st = kInProgress \<longrightarrow> evs' = []) \<and>
    length (pw_rest s w') + wr_capacity evs \<le> length (pw_rest s w) + wr_capacity evs'"
  using assms
proof (induction rule: pw_loop_runs)
  case (wait w evs out st sw evs' out')
  have wf: "sw_wf (pw_writer w)" using wait.prems(1) by (simp add: pw_wf_def)
  from sw_write_progress [OF wait.hyps(1) wf wait.prems(2)] show ?case by (simp add: pw_rest_def)
next
  case (finish w evs out sw evs1 out1 ok evs2)
  have wf: "sw_wf (pw_writer w)" using finish.prems(1) by (simp add: pw_wf_def)
  from sw_write_progress [OF finish.hyps(1) wf finish.prems(2)] finish.hyps(3) sys_fstat_prompt [of evs1]
  show ?case by (auto simp: pw_rest_def)
next
  case (refuse w evs out sw evs1 out1 w2)
  note part = pw_part_written [OF refuse.hyps(1) refuse.prems(1)]
  from pw_transition_step [OF part(1,2)] refuse.hyps show ?case by auto
next
  case (turn w evs out sw evs1 out1 w2 st w' evs' out')
  have wf: "sw_wf (pw_writer w)" using turn.prems(1) by (simp add: pw_wf_def)
  note pr = sw_write_progress [OF turn.hyps(1) wf turn.prems(2)]
  note part = pw_part_written [OF turn.hyps(1) turn.prems(1)]
  obtain w3 where "pw_transition ser (w\<lparr>pw_writer := sw\<rparr>) = (True, w3)" "pw_wf ser s w3"
      "pw_rest s w3 = pw_rest s (w\<lparr>pw_writer := sw\<rparr>)"
    by (rule pw_transition_step [OF part(1,2)]) (use turn.hyps(2) in auto)
  with turn.hyps(3) turn.IH pr show ?case by (auto simp: pw_rest_def [of s "w\<lparr>pw_writer := sw\<rparr>"] pw_rest_def [of s w])
qed

lemma pw_Write_progress:
  assumes "pw_Write ser w evs out = (st, w', evs', out')" and "pw_wf ser s w" and "wr_prompt evs"
  shows "wr_prompt evs' \<and> (st = kDone \<or> st = kInProgress) \<and> (st = kInProgress \<longrightarrow> evs' = []) \<and>
    length (pw_rest s w') + wr_capacity evs \<le> length (pw_rest s w) + wr_capacity evs'"
proof -
  have "pw_loop ser w evs out = (st, w', evs', out')"
    using assms(1) sys_fstat_prompt [OF assms(3)] by (simp add: pw_Write_def)
  from pw_loop_progress [OF this assms(2,3)] pw_Write_post [OF assms(1,2)] show ?thesis
    by (cases st) auto
qed

text \<open>A sender that is busy with one request and has nothing else to do.\<close>

definition sending :: "'h \<Rightarrow> int64 \<Rightarrow> handler_key \<Rightarrow> 'h sender \<Rightarrow> bool" where
  "sending h seq key s \<longleftrightarrow>
     (case s_current_writer s of
        None \<Rightarrow> s_handler s = None \<and> (\<exists>rq. s_request_queue s = [rq] \<and> rq_handler rq = h \<and>
          rq_key rq = key \<and> int64_or_0 (h_sequence (cmd_header (rq_command rq))) = seq)
      | Some pw \<Rightarrow> s_handler s = Some h \<and> s_message_sequence s = seq \<and> s_handler_key s = key \<and>
          s_request_queue s = [])"

lemma sending_next:
  assumes "sending h seq key s"
  obtains s1 pw where "s_next s = Some (s1, pw)" and "s_handler s1 = Some h" and "s_message_sequence s1 = seq"
    and "s_handler_key s1 = key" and "s_request_queue s1 = []"
  using assms by (auto simp: sending_def s_next_def Let_def split: option.splits)

text \<open>
  \<open>Send\<close> then either waits with all of the script used up and that much less to write, or hands the
  handler over to the receiver and is idle.
\<close>

lemma Send_progress:
  assumes "s_Send cx enq s r w = (st, s', r', w')" and "sending h seq key s" and "s_wf s"
    and "s_serializable (cx_ser_message cx) s" and "wr_prompt (w_wr w)" and "fst (enq h seq key r)"
  shows "w_rd w' = w_rd w \<and> w_log w' = w_log w \<and>
    (st = kIoWait \<and> sending h seq key s' \<and> s_wf s' \<and> s_serializable (cx_ser_message cx) s' \<and> r' = r \<and>
       s_wire (cx_ser_message cx) s' \<noteq> [] \<and>
       length (s_wire (cx_ser_message cx) s') + wr_capacity (w_wr w) \<le> length (s_wire (cx_ser_message cx) s) \<or>
     st = kIdle \<and> s_next s' = None \<and> r' = snd (enq h seq key r))"
proof -
  let ?ser = "cx_ser_message cx"
  obtain s1 pw where n: "s_next s = Some (s1, pw)" "s_handler s1 = Some h" "s_message_sequence s1 = seq"
    "s_handler_key s1 = key" "s_request_queue s1 = []" by (rule sending_next [OF assms(2)])
  note n1 = s_next_wire [OF n(1) assms(4)] and wf1 = s_next_pending [OF assms(3) n(1)]
  obtain ps pw' wr' out' where wr: "pw_Write ?ser pw (w_wr w) (w_out w) = (ps, pw', wr', out')" by (metis prod_cases4)
  have pwf: "pw_wf ?ser (bytes_or_empty (?ser (pw_message pw))) pw" using n1 by (simp add: s_serializable_def)
  note pg = pw_Write_progress [OF wr pwf assms(5)] and post = pw_Write_post [OF wr pwf]
  let ?s2 = "s1\<lparr>s_current_writer := Some pw'\<rparr>" and ?w = "w\<lparr>w_wr := wr', w_out := out'\<rparr>"
  have wire: "s_wire ?ser s = pw_rest (bytes_or_empty (?ser (pw_message pw))) pw"
    using n1 n(5) by (metis (no_types, lifting) append_Nil2 concat.simps(1) list.simps(8) option.simps(5) s_wire_def)
  show ?thesis
  proof (cases "ps = kInProgress")
    case True
    then have "s_turn cx enq s r w = (Some kIoWait, ?s2, r, ?w)" by (simp add: s_turn_def n wr)
    with assms(1) have "st = kIoWait" "s' = ?s2" "r' = r" "w' = ?w" by (simp_all add: s_Send.simps [of cx enq s])
    moreover have "sending h seq key ?s2" using n by (simp add: sending_def)
    moreover have "s_wf ?s2" using wf1 pw_Write_no_abort [OF wr] by (simp add: s_wf_def)
    moreover have "s_serializable ?ser ?s2" using n(5) post by (simp add: s_serializable_def)
    moreover have "s_wire ?ser ?s2 = pw_rest (bytes_or_empty (?ser (pw_message pw))) pw'"
      using n(5) post by (simp add: s_wire_def)
    ultimately show ?thesis using True pg post wire by auto
  next
    case False
    with pg have ps: "ps = kDone" by simp
    obtain ok r1 where e: "enq h seq key r = (ok, r1)" by (cases "enq h seq key r")
    let ?s3 = "s1\<lparr>s_current_writer := None, s_handler := None\<rparr>"
    from assms(6) e have "s_turn cx enq s r w = (None, ?s3, r1, ?w)"
      by (simp add: s_turn_def n wr ps Let_def)
    moreover have idle: "s_next ?s3 = None" using n(5) by (simp add: s_next_def)
    ultimately have "s_Send cx enq s r w = (kIdle, ?s3, r1, ?w)"
      by (simp add: s_Send.simps [of cx enq s] s_Send.simps [of cx enq ?s3] s_turn_def [of cx enq ?s3])
    with assms(1) idle e show ?thesis by auto
  qed
qed

section \<open>Reading can be cut anywhere\<close>

lemma sys_read_frame:
  "evs \<noteq> [] \<Longrightarrow> sys_read n evs = (res, evs') \<Longrightarrow> sys_read n (evs @ xs) = (res, evs' @ xs)"
  by (induction n evs rule: sys_read.induct) (auto split: if_splits)

lemma sr_read_cut:
  assumes "sr_read r evs = (st, r', evs')" and "rd_prompt evs"
  shows "sr_read r (evs @ xs) = (if st = kInProgress then sr_read r' xs else (st, r', evs' @ xs))"
  using assms
proof (induction rule: sr_read_runs)
  case (full r evs)
  then show ?case by (simp add: sr_read.simps)
next
  case (beyond r evs)
  then show ?case by (simp add: sr_read.simps)
next
  case (stop r evs res evs1)
  show ?case
  proof (cases "evs = []")
    case False
    have "sys_read (sr_size r - length (sr_buf r)) (evs @ xs) = (res, evs1 @ xs)"
      using False stop by (intro sys_read_frame) auto
    moreover have "res = Inr []"
      using stop False by (cases evs) (auto simp: rd_prompt_def elim!: rd_prompt_event.elims split: if_splits)
    ultimately show ?thesis using stop by (simp add: sr_read.simps [of r "evs @ xs"])
  qed (use stop in auto)
next
  case (retry r evs evs1 st r' evs')
  have "sys_read (sr_size r - length (sr_buf r)) (evs @ xs) = (Inl EINTR, evs1 @ xs)"
    using retry by (intro sys_read_frame) auto
  with retry sys_read_prompt [OF retry.hyps(2)] show ?case by (simp add: sr_read.simps [of r "evs @ xs"])
next
  case (bytes r evs bs evs1 st r' evs')
  have "sys_read (sr_size r - length (sr_buf r)) (evs @ xs) = (Inr bs, evs1 @ xs)"
    using bytes by (intro sys_read_frame) auto
  with bytes sys_read_prompt [OF bytes.hyps(2)] show ?case by (simp add: sr_read.simps [of r "evs @ xs"])
qed

lemma pr_Read_cut:
  assumes "pr_Read parse r evs resp val = (st, r', evs', resp', val')" and "rd_prompt evs"
  shows "pr_Read parse r (evs @ xs) resp val =
    (if st = kInProgress then pr_Read parse r' xs resp' val' else (st, r', evs' @ xs, resp', val'))"
  using assms
proof (induction rule: pr_Read_runs)
  case (wait r evs resp val st sr evs')
  note cut = sr_read_cut [OF wait.hyps(1) wait.prems, of xs]
  show ?case
  proof (cases "st = kInProgress")
    case True
    moreover obtain a b c where "sr_read sr xs = (a, b, c)" by (metis prod_cases3)
    ultimately show ?thesis using cut
      by (simp add: pr_Read.simps [of parse r "evs @ xs"] pr_Read.simps [of parse "r\<lparr>pr_reader := sr\<rparr>" xs])
  next
    case False
    with cut wait.hyps(2) show ?thesis by (simp add: pr_Read.simps [of parse r "evs @ xs"])
  qed
next
  case (finish r evs resp val sr evs1 r1 val1 st r2 resp2)
  with sr_read_cut [OF finish.hyps(1) finish.prems, of xs] pr_transition_not_waiting [OF finish.hyps(3)]
  show ?case by (simp add: pr_Read.simps [of parse r "evs @ xs"])
next
  case (turn r evs resp val sr evs1 r1 val1 r2 resp2 st r' evs' resp' val')
  with sr_read_cut [OF turn.hyps(1) turn.prems, of xs] sr_read_prompt [OF turn.hyps(1) turn.prems]
  show ?case by (simp add: pr_Read.simps [of parse r "evs @ xs"])
qed

text \<open>Dispatching a response does not look at the rest of the socket.\<close>

lemma io_world_log [simp]:
  "w_log (io_world xs acc w) = w_log w" "w_rd (io_world xs acc w) = w_rd w @ xs"
  "w_wr (io_world xs acc w) = acc" "w_out (io_world xs acc w) = w_out w"
  by (simp_all add: io_world_def)

lemma io_world_calls [simp]:
  "log_calls cs (io_world xs acc w) = io_world xs acc (log_calls cs w)"
  "log_call c (io_world xs acc w) = io_world xs acc (log_call c w)"
  by (simp_all add: io_world_def log_calls_def log_call_def)

lemma r_give_up_io:
  assumes "r_give_up st e r w = (res, r', w')" and "r_maps_ok r"
  shows "r_give_up st e r (io_world xs acc w) = (res, r', io_world xs acc w')"
  using assms by (auto simp: r_give_up_ok)

lemma r_call_io:
  assumes "r_call ack cmd r w = (res, r', w')" and "r_maps_ok r"
  shows "r_call ack cmd r (io_world xs acc w) = (res, r', io_world xs acc w')"
  using assms by (auto simp: r_call_ok split: option.splits)

lemma r_dispatch_io:
  assumes "r_dispatch cx r w = (res, r', w')" and "r_maps_ok r"
  shows "r_dispatch cx r (io_world xs acc w) = (res, r', io_world xs acc w')"
proof -
  define r1 where "r1 = (\<lambda>cmd :: command. case h_connectionid (cmd_header cmd) of
      Some c \<Rightarrow> r\<lparr>r_connection_id := c\<rparr> | None \<Rightarrow> r)"
  have r1: "r_maps_ok (r1 cmd)" for cmd using assms(2) by (simp add: r1_def split: option.splits)
  show ?thesis
    using assms unfolding r_dispatch_def r1_def [symmetric] Let_def
    by (auto simp: r1 r_give_up_io r_call_io split: if_splits option.splits)
qed

lemma r_dispatch_rd:
  assumes "r_dispatch cx r w = (res, r', w')" and "r_maps_ok r"
  shows "w_rd w' = w_rd w"
proof -
  define r1 where "r1 = (\<lambda>cmd :: command. case h_connectionid (cmd_header cmd) of
      Some c \<Rightarrow> r\<lparr>r_connection_id := c\<rparr> | None \<Rightarrow> r)"
  have r1: "r_maps_ok (r1 cmd)" for cmd using assms(2) by (simp add: r1_def split: option.splits)
  show ?thesis
    using assms unfolding r_dispatch_def r1_def [symmetric] Let_def
    by (auto simp: r1 r_give_up_ok r_call_ok split: if_splits option.splits)
qed

lemma r_turn_cut:
  assumes "r_turn cx r w = (res, r', w')" and "rd_prompt (w_rd w)" and "r_maps_ok r" and "r_next r \<noteq> None"
  shows "r_turn cx r (io_world xs acc w) =
    (if res = Some kIoWait then r_turn cx r' (io_world xs acc w') else (res, r', io_world xs acc w')) \<and>
    rd_prompt (w_rd w') \<and> (res = Some kIoWait \<longrightarrow> w_rd w' = [] \<and> r_next r' \<noteq> None)"
proof -
  obtain pr where n: "r_next r = Some pr" using assms(4) by blast
  obtain st pr' rd' m' v' where rd: "pr_Read (cx_parse_message cx) pr (w_rd w) (r_message r) (r_value r)
      = (st, pr', rd', m', v')" by (metis prod_cases5)
  note cut = pr_Read_cut [OF rd assms(2), of xs] and p = pr_Read_prompt [OF rd assms(2)]
  let ?r = "r\<lparr>r_response := Some pr', r_message := m', r_value := v'\<rparr>" and ?w = "w\<lparr>w_rd := rd'\<rparr>"
  have io: "(io_world xs acc w)\<lparr>w_rd := rd' @ xs\<rparr> = io_world xs acc ?w" by (simp add: io_world_def)
  have ok: "r_maps_ok ?r" "r_maps_ok (?r\<lparr>r_response := None\<rparr>)" using assms(3) by simp_all
  show ?thesis
  proof (cases st)
    case kInProgress
    with assms(1) n rd p have res: "res = Some kIoWait" "r' = ?r" "w' = w\<lparr>w_rd := []\<rparr>"
      by (auto simp: r_turn_def Let_def)
    obtain a b c d e where x: "pr_Read (cx_parse_message cx) pr' xs m' v' = (a, b, c, d, e)" by (metis prod_cases5)
    have "r_next ?r = Some pr'" by (simp add: r_next_def)
    with res n cut kInProgress x show ?thesis
      by (simp add: r_turn_def io_world_def Let_def rd_prompt_def)
  next
    case kDone
    with assms(1) n rd have d: "r_dispatch cx (?r\<lparr>r_response := None\<rparr>) ?w = (res, r', w')"
      by (simp add: r_turn_def Let_def)
    from r_dispatch_conserves [OF d ok(2)] have "res \<noteq> Some kIoWait" by simp
    moreover have "w_rd w' = rd'" using r_dispatch_rd [OF d ok(2)] by simp
    ultimately show ?thesis using r_dispatch_io [OF d ok(2), of xs acc] n cut kDone p
      by (simp add: r_turn_def Let_def io)
  next
    case kFailed
    with assms(1) n rd have g: "r_give_up kError read_error ?r ?w = (res, r', w')"
      by (simp add: r_turn_def Let_def)
    with r_give_up_ok [OF ok(1)] have "res = Some kError" "w_rd w' = rd'" by auto
    then show ?thesis using r_give_up_io [OF g ok(1), of xs acc] n cut kFailed p
      by (simp add: r_turn_def Let_def io)
  next
    case kAbort
    with assms(1) n rd have "res = Some kCrash" "r' = ?r" "w' = ?w" by (auto simp: r_turn_def Let_def)
    then show ?thesis using n cut kAbort p by (simp add: r_turn_def Let_def io)
  qed
qed

text \<open>
  A call of \<open>Receive\<close> that had to wait is continued by the next one as if all had arrived at once;
  one that did not has the same result with more to read behind.
\<close>

lemma Receive_cut:
  assumes "r_Receive cx r w = (st, r', w')" and "rd_prompt (w_rd w)" and "r_maps_ok r" and "r_live r"
    and "r_next r \<noteq> None"
  shows "r_Receive cx r (io_world xs acc w) =
    (if st = kIoWait then r_Receive cx r' (io_world xs acc w') else (st, r', io_world xs acc w')) \<and>
    rd_prompt (w_rd w')"
  using assms
proof (induction cx r w rule: r_Receive.induct)
  case (1 cx r w)
  obtain res r1 w1 where t: "r_turn cx r w = (res, r1, w1)" by (metis prod_cases3)
  note cut = r_turn_cut [OF t "1.prems"(2,3,5), of xs acc]
  note step = r_Receive.simps [of cx r w] and stepx = r_Receive.simps [of cx r "io_world xs acc w"]
  show ?case
  proof (cases res)
    case None
    with "1.prems"(1) t have R: "r_Receive cx r1 w1 = (st, r', w')" by (simp add: step)
    have tx: "r_Receive cx r (io_world xs acc w) = r_Receive cx r1 (io_world xs acc w1)"
      using cut None by (simp add: stepx)
    from r_turn_conserves [OF t "1.prems"(3,4)] None have ok: "r_maps_ok r1" "r_live r1" by auto
    from cut have p: "rd_prompt (w_rd w1)" by simp
    show ?thesis
    proof (cases "r_next r1")
      case (Some pr)
      with "1.IH" [OF t [symmetric] None refl R p ok] tx show ?thesis by simp
    next
      case no: None
      then have "r_Receive cx r1 w = (kIdle, r1, w)" for w
        by (simp add: r_Receive.simps [of cx r1] r_turn_def)
      with R tx p show ?thesis by auto
    qed
  next
    case (Some x)
    with "1.prems"(1) t have "x = st" "r' = r1" "w' = w1" by (simp_all add: step)
    with cut Some show ?thesis by (simp add: stepx r_Receive.simps [of cx r1])
  qed
qed

section \<open>One request on its way\<close>

text \<open>What the drive sends: a well-formed response that acknowledges the sequence number.\<close>

definition answers_request :: "codec \<Rightarrow> bytes \<Rightarrow> int64 \<Rightarrow> bytes \<Rightarrow> bytes \<Rightarrow> command \<Rightarrow> bool" where
  "answers_request cx key seq m x cmd \<longleftrightarrow>
     packet_response cx key m = Some cmd \<and> int64_or_0 (h_acksequence (cmd_header cmd)) = seq \<and>
     length m < 2 ^ 32 \<and> length x < 2 ^ 32"

text \<open>A receiver between two packets.\<close>

definition resting :: "'h receiver \<Rightarrow> bool" where
  "resting r \<longleftrightarrow> r_maps_ok r \<and> r_response r = None \<and> r_map r = []"

lemma resting_Enqueue:
  assumes "resting r"
  shows "\<exists>r0. r_Enqueue h seq key r = (True, r0) \<and> r_maps_ok r0 \<and> r_response r0 = None \<and>
    r_map r0 = [(seq, h, key)] \<and> r_options r0 = r_options r \<and> r_live r0 \<and> r_next r0 \<noteq> None"
proof -
  have ok: "r_maps_ok r" and m: "r_map r = []" and n: "r_response r = None" using assms by (simp_all add: resting_def)
  from ok m have k: "r_key_map r = []" by (auto simp: r_maps_ok_def)
  let ?r = "r\<lparr>r_map := [(seq, h, key)], r_key_map := [(key, seq)]\<rparr>"
  have e: "r_Enqueue h seq key r = (True, ?r)"
    using m k by (simp add: r_Enqueue_def um_insert_def um_find_def)
  from r_Enqueue_accepts [OF ok e] n show ?thesis
    by (intro exI [of _ ?r]) (simp add: e r_live_def r_next_def)
qed

lemma Receive_answer:
  assumes "r_maps_ok r" and "r_response r = None" and "r_map r = [(seq, h, key)]"
    and "rd_prompt (w_rd w)" and "rd_data (w_rd w) = wire_packet m x"
    and "answers_request cx (co_hmac_key (r_options r)) seq m x cmd"
  shows "\<exists>r' w'. r_Receive cx r w = (kIdle, r', w') \<and> resting r' \<and> rd_data (w_rd w') = [] \<and>
    w_log w' = w_log w @ [r_answer h cmd (Some x)]"
proof -
  have a: "packet_response cx (co_hmac_key (r_options r)) m = Some cmd"
      "int64_or_0 (h_acksequence (cmd_header cmd)) = seq" "length m < 2 ^ 32" "length x < 2 ^ 32"
    using assms(6) by (simp_all add: answers_request_def)
  have ne: "r_map r \<noteq> []" and d: "rd_data (w_rd w) = wire_packet m x @ []" using assms(3,5) by simp_all
  from r_Receive_response [OF assms(1,2) ne assms(4) d a(3,4,1)] obtain r2 w2 where
    r2: "r_Receive cx r w = r_Receive cx r2 w2" "r_maps_ok r2" "r_response r2 = None" "rd_data (w_rd w2) = []"
      "w_log w2 = w_log w @ [r_answer h cmd (Some x)]" "r_map r2 = []"
    using assms(3) a(2) by (auto simp: um_find_def um_erase_def)
  with r_Receive_idle [OF r2(6,3), of cx w2] show ?thesis by (auto simp: resting_def)
qed

text \<open>
  The two phases of a request: being written, with at most \<open>n\<close> bytes to go, or waiting for the
  response, of which \<open>D\<close> has arrived. \<open>r\<close> is the receiver before the request, \<open>L\<close> the calls made.
\<close>

definition writing ::
    "codec \<Rightarrow> 'h \<Rightarrow> int64 \<Rightarrow> handler_key \<Rightarrow> 'h receiver \<Rightarrow> 'h callback list \<Rightarrow> nat \<Rightarrow> bytes
     \<Rightarrow> 'h service \<Rightarrow> 'h world \<Rightarrow> bool" where
  "writing cx h seq key r L n D v w \<longleftrightarrow>
     \<not> v_failed v \<and> sending h seq key (v_sender v) \<and> s_wf (v_sender v) \<and>
     s_serializable (cx_ser_message cx) (v_sender v) \<and> s_wire (cx_ser_message cx) (v_sender v) \<noteq> [] \<and>
     length (s_wire (cx_ser_message cx) (v_sender v)) \<le> n \<and> v_receiver v = r \<and>
     w_log w = L \<and> rd_prompt (w_rd w) \<and> rd_data (w_rd w) = D"

definition reading ::
    "codec \<Rightarrow> 'h \<Rightarrow> int64 \<Rightarrow> handler_key \<Rightarrow> 'h receiver \<Rightarrow> 'h callback list \<Rightarrow> bytes
     \<Rightarrow> 'h service \<Rightarrow> 'h world \<Rightarrow> bool" where
  "reading cx h seq key r L D v w \<longleftrightarrow>
     \<not> v_failed v \<and> s_next (v_sender v) = None \<and>
     (\<exists>w0. r_Receive cx (snd (r_Enqueue h seq key r)) w0 = (kIoWait, v_receiver v, w) \<and>
        w_log w0 = L \<and> w_log w = L \<and> rd_prompt (w_rd w0) \<and> rd_data (w_rd w0) = D)"

definition answered_by ::
    "'h callback \<Rightarrow> 'h callback list \<Rightarrow> 'h service \<Rightarrow> 'h world \<Rightarrow> bool" where
  "answered_by c L v w \<longleftrightarrow>
     \<not> v_failed v \<and> s_next (v_sender v) = None \<and> resting (v_receiver v) \<and> w_log w = L @ [c] \<and>
     rd_prompt (w_rd w) \<and> rd_data (w_rd w) = []"

lemma r_dispatch_one:
  assumes "r_dispatch cx r w = (None, r', w')" and "r_maps_ok r" and "r_map r = [e]"
  shows "r_map r' = r_map r \<and> w_log w' = w_log w \<or> r_map r' = []"
proof -
  define r1 where "r1 = (\<lambda>cmd :: command. case h_connectionid (cmd_header cmd) of
      Some c \<Rightarrow> r\<lparr>r_connection_id := c\<rparr> | None \<Rightarrow> r)"
  have r1: "r_maps_ok (r1 cmd)" "r_map (r1 cmd) = [e]" for cmd
    using assms(2,3) by (simp_all add: r1_def split: option.splits)
  show ?thesis
    using assms unfolding r_dispatch_def r1_def [symmetric] Let_def
    by (cases e) (auto simp: r1 r_give_up_ok r_call_ok um_find_def um_erase_def split: if_splits option.splits)
qed

lemma r_turn_one:
  assumes "r_turn cx r w = (res, r', w')" and "r_maps_ok r" and "r_map r = [e]"
  shows "(res = None \<longrightarrow> r_response r' = None \<and> (r_map r' = r_map r \<and> w_log w' = w_log w \<or> r_map r' = [])) \<and>
    (res = Some kIoWait \<longrightarrow> w_log w' = w_log w)"
proof -
  obtain pr where n: "r_next r = Some pr" using assms(3) by (cases "r_response r") (auto simp: r_next_def)
  obtain st pr' rd' m' v' where rd: "pr_Read (cx_parse_message cx) pr (w_rd w) (r_message r) (r_value r)
      = (st, pr', rd', m', v')" by (metis prod_cases5)
  let ?r = "r\<lparr>r_response := Some pr', r_message := m', r_value := v'\<rparr>" and ?w = "w\<lparr>w_rd := rd'\<rparr>"
  have ok: "r_maps_ok ?r" "r_maps_ok (?r\<lparr>r_response := None\<rparr>)" "r_map (?r\<lparr>r_response := None\<rparr>) = [e]"
    using assms(2,3) by simp_all
  show ?thesis
  proof (cases st)
    case kDone
    with assms(1) n rd have d: "r_dispatch cx (?r\<lparr>r_response := None\<rparr>) ?w = (res, r', w')"
      by (simp add: r_turn_def Let_def)
    have "res = None \<longrightarrow> r_map r' = r_map r \<and> w_log w' = w_log w \<or> r_map r' = []"
      using r_dispatch_one [of cx _ ?w r' w', OF _ ok(2,3)] d assms(3) by auto
    with r_dispatch_conserves [OF d ok(2)] show ?thesis by simp
  qed (use assms(1) n rd r_give_up_ok [OF ok(1)] in \<open>auto simp: r_turn_def Let_def\<close>)
qed

text \<open>While its one handler waits, \<open>Receive\<close> calls nobody.\<close>

lemma Receive_waiting_log:
  assumes "r_Receive cx r w = (kIoWait, r', w')" and "r_maps_ok r" and "r_live r" and "r_map r = [e]"
  shows "w_log w' = w_log w"
proof -
  let ?I = "\<lambda>r1 w1. r_maps_ok r1 \<and> r_live r1 \<and>
      (r_map r1 = [e] \<and> w_log w1 = w_log w \<or> r_map r1 = [] \<and> r_response r1 = None)"
  have "kIoWait = kIoWait \<longrightarrow> w_log w' = w_log w"
  proof (rule r_Receive_rule [where I = ?I and Q = "\<lambda>st r' w'. st = kIoWait \<longrightarrow> w_log w' = w_log w", OF assms(1)])
    fix r1 w1 r2 w2
    assume t: "r_turn cx r1 w1 = (None, r2, w2)" and I: "?I r1 w1"
    then have "r_map r1 = [e] \<and> w_log w1 = w_log w" by (auto simp: r_turn_def r_next_def)
    with r_turn_one [OF t, of e] r_turn_conserves [OF t] I show "?I r2 w2" by auto
  next
    fix r1 w1 st r2 w2
    assume t: "r_turn cx r1 w1 = (Some st, r2, w2)" and I: "?I r1 w1"
    then show "st = kIoWait \<longrightarrow> w_log w2 = w_log w"
      using r_turn_one [OF t, of e] by (auto simp: r_turn_def r_next_def)
  qed (use assms in auto)
  then show ?thesis by simp
qed

lemma Receive_reading:
  assumes "resting r" and "r_Enqueue h seq key r = (True, r0)" and "rd_prompt (w_rd w0)"
    and "rd_data (w_rd w0) @ rest = wire_packet m x"
    and "answers_request cx (co_hmac_key (r_options r)) seq m x cmd"
    and "r_Receive cx r0 w0 = (st, r', w')"
  shows "st = kIoWait \<and> w_log w' = w_log w0 \<and> rest \<noteq> [] \<or>
    st = kIdle \<and> resting r' \<and> w_log w' = w_log w0 @ [r_answer h cmd (Some x)] \<and>
    rd_prompt (w_rd w') \<and> rd_data (w_rd w') = []"
proof -
  from resting_Enqueue [OF assms(1), of h seq key] assms(2) have r0: "r_maps_ok r0" "r_response r0 = None"
    "r_map r0 = [(seq, h, key)]" "r_options r0 = r_options r" "r_live r0" "r_next r0 \<noteq> None" by auto
  define xs where "xs = (if rest = [] then [] else [Rd_bytes rest])"
  have xs: "rd_prompt (w_rd w0 @ xs)" "rd_data xs = rest"
    using assms(3) by (auto simp: xs_def rd_prompt_def)
  have "rd_data (w_rd (io_world xs [] w0)) = wire_packet m x" "rd_prompt (w_rd (io_world xs [] w0))"
    using assms(4) xs by simp_all
  note whole = this
  have ans: "answers_request cx (co_hmac_key (r_options r0)) seq m x cmd" using assms(5) r0(4) by simp
  from Receive_answer [OF r0(1-3) whole(2,1) ans] obtain r2 w2 where
    all: "r_Receive cx r0 (io_world xs [] w0) = (kIdle, r2, w2)" "resting r2" "rd_data (w_rd w2) = []"
      "w_log w2 = w_log w0 @ [r_answer h cmd (Some x)]" by auto
  note cut = Receive_cut [OF assms(6,3) r0(1,5,6), of xs "[]"]
  show ?thesis
  proof (cases "st = kIoWait")
    case True
    have "w_log w' = w_log w0" by (rule Receive_waiting_log [OF assms(6) [unfolded True] r0(1,5,3)])
    moreover have "rest \<noteq> []"
    proof
      assume "rest = []"
      with assms(4) have "rd_data (w_rd w0) = wire_packet m x" by simp
      from Receive_answer [OF r0(1-3) assms(3) this ans] assms(6) True show False by auto
    qed
    ultimately show ?thesis using True by simp
  next
    case False
    with cut all(1) have "st = kIdle" "r' = r2" "io_world xs [] w' = w2" by auto
    with all cut show ?thesis by auto
  qed
qed

lemma s_Send_idle: "s_next s = None \<Longrightarrow> s_Send cx enq s r w = (kIdle, s, r, w)"
  by (simp add: s_Send.simps [of cx enq s] s_turn_def)

text \<open>One \<open>Run\<close> of either phase: it goes on, waiting for the socket, or the answer is there.\<close>

lemma Run_writing:
  assumes "writing cx h seq key r L (n + wr_capacity acc) D v w" and "resting r" and "rd_prompt arr" and "wr_prompt acc"
    and "D @ rd_data arr @ rest = wire_packet m x" and "answers_request cx (co_hmac_key (r_options r)) seq m x cmd"
  shows "\<exists>reads writes nf v' w'. v_Run cx v (io_world arr acc w) = (Run_true reads writes nf, v', w') \<and>
    ((reads \<noteq> {} \<or> writes \<noteq> {}) \<and> writing cx h seq key r L n (D @ rd_data arr) v' w' \<or>
     (reads \<noteq> {} \<or> writes \<noteq> {}) \<and> rest \<noteq> [] \<and> reading cx h seq key r L (D @ rd_data arr) v' w' \<or>
     answered_by (r_answer h cmd (Some x)) L v' w')"
proof -
  let ?ser = "cx_ser_message cx" and ?w = "io_world arr acc w"
  have v: "\<not> v_failed v" "sending h seq key (v_sender v)" "s_wf (v_sender v)" "s_serializable ?ser (v_sender v)"
    "length (s_wire ?ser (v_sender v)) \<le> n + wr_capacity acc" "v_receiver v = r" "w_log w = L" "rd_prompt (w_rd w)"
    "rd_data (w_rd w) = D" using assms(1) by (simp_all add: writing_def)
  from resting_Enqueue [OF assms(2), of h seq key] obtain r0 where r0: "r_Enqueue h seq key r = (True, r0)" by blast
  obtain st s' r' w1 where S: "s_Send cx r_Enqueue (v_sender v) r ?w = (st, s', r', w1)" by (metis prod_cases4)
  have pr: "wr_prompt (w_wr ?w)" "fst (r_Enqueue h seq key r)" using assms(4) r0 by simp_all
  have rd: "rd_prompt (w_rd w @ arr)" using v(8) assms(3) by (simp add: rd_prompt_def)
  from Send_progress [OF S v(2-4) pr] have w1: "w_rd w1 = w_rd w @ arr" "w_log w1 = L" and
    "(st = kIoWait \<and> sending h seq key s' \<and> s_wf s' \<and> s_serializable ?ser s' \<and> r' = r \<and> s_wire ?ser s' \<noteq> [] \<and>
       length (s_wire ?ser s') + wr_capacity acc \<le> length (s_wire ?ser (v_sender v)) \<or>
     st = kIdle \<and> s_next s' = None \<and> r' = r0)" using v(7) r0 by simp_all
  from this(3) show ?thesis
  proof (elim disjE conjE)
    assume s: "st = kIoWait" "sending h seq key s'" "s_wf s'" "s_serializable ?ser s'" "r' = r" "s_wire ?ser s' \<noteq> []"
      "length (s_wire ?ser s') + wr_capacity acc \<le> length (s_wire ?ser (v_sender v))"
    have "r_Receive cx r w1 = (kIdle, r, w1)" using assms(2) by (intro r_Receive_idle) (simp_all add: resting_def)
    with S s(1,5) v(1,6) have "v_Run cx v ?w = (Run_true {} {v_fd v} (v_fd v + 1), v\<lparr>v_sender := s', v_receiver := r\<rparr>, w1)"
      by (simp add: v_Run_def)
    moreover have "writing cx h seq key r L n (D @ rd_data arr) (v\<lparr>v_sender := s', v_receiver := r\<rparr>) w1"
      using s v w1 rd by (simp add: writing_def)
    ultimately show ?thesis by blast
  next
    assume s: "st = kIdle" "s_next s' = None" "r' = r0"
    obtain rt r2 w2 where R: "r_Receive cx r0 w1 = (rt, r2, w2)" by (metis prod_cases3)
    let ?v = "v\<lparr>v_sender := s', v_receiver := r2\<rparr>"
    have "rd_prompt (w_rd w1)" "rd_data (w_rd w1) @ rest = wire_packet m x"
      using w1 rd v(9) assms(5) by simp_all
    from Receive_reading [OF assms(2) r0 this assms(6) R] show ?thesis
    proof (elim disjE conjE)
      assume r: "rt = kIoWait" "w_log w2 = w_log w1" "rest \<noteq> []"
      have "v_Run cx v ?w = (Run_true {v_fd v} {} (v_fd v + 1), ?v, w2)" using S R s r v(1,6) by (simp add: v_Run_def)
      moreover have "reading cx h seq key r L (D @ rd_data arr) ?v w2"
        using R r s w1 v rd r0 by (auto simp: reading_def intro!: exI [of _ w1])
      ultimately show ?thesis using r(3) by blast
    next
      assume r: "rt = kIdle" "resting r2" "w_log w2 = w_log w1 @ [r_answer h cmd (Some x)]" "rd_prompt (w_rd w2)"
        "rd_data (w_rd w2) = []"
      have "v_Run cx v ?w = (Run_true {} {} 0, ?v, w2)" using S R s r v(1,6) by (simp add: v_Run_def)
      moreover have "answered_by (r_answer h cmd (Some x)) L ?v w2" using r s w1 v by (simp add: answered_by_def)
      ultimately show ?thesis by blast
    qed
  qed
qed

lemma Run_reading:
  assumes "reading cx h seq key r L D v w" and "resting r" and "rd_prompt arr"
    and "D @ rd_data arr @ rest = wire_packet m x" and "answers_request cx (co_hmac_key (r_options r)) seq m x cmd"
  shows "\<exists>reads writes nf v' w'. v_Run cx v (io_world arr acc w) = (Run_true reads writes nf, v', w') \<and>
    ((reads \<noteq> {} \<or> writes \<noteq> {}) \<and> rest \<noteq> [] \<and> reading cx h seq key r L (D @ rd_data arr) v' w' \<or>
     answered_by (r_answer h cmd (Some x)) L v' w')"
proof -
  from resting_Enqueue [OF assms(2), of h seq key] obtain r0 where r0: "r_Enqueue h seq key r = (True, r0)"
    "r_maps_ok r0" "r_live r0" "r_next r0 \<noteq> None" by blast
  from assms(1) r0(1) obtain w0 where v: "\<not> v_failed v" "s_next (v_sender v) = None"
    and w0: "r_Receive cx r0 w0 = (kIoWait, v_receiver v, w)" "w_log w0 = L" "rd_prompt (w_rd w0)" "rd_data (w_rd w0) = D"
    by (auto simp: reading_def)
  let ?w0 = "io_world arr acc w0"
  note cut = Receive_cut [OF w0(1,3) r0(2-4), of arr acc]
  obtain rt r2 w2 where R: "r_Receive cx r0 ?w0 = (rt, r2, w2)" by (metis prod_cases3)
  with cut have R': "r_Receive cx (v_receiver v) (io_world arr acc w) = (rt, r2, w2)" by simp
  let ?v = "v\<lparr>v_receiver := r2\<rparr>"
  have p: "rd_prompt (w_rd ?w0)" "rd_data (w_rd ?w0) @ rest = wire_packet m x"
    using w0 assms(3,4) by (simp_all add: rd_prompt_def)
  note S = s_Send_idle [OF v(2), of cx r_Enqueue "v_receiver v" "io_world arr acc w"]
  from Receive_reading [OF assms(2) r0(1) p assms(5) R] show ?thesis
  proof (elim disjE conjE)
    assume r: "rt = kIoWait" "w_log w2 = w_log ?w0" "rest \<noteq> []"
    have "v_Run cx v (io_world arr acc w) = (Run_true {v_fd v} {} (v_fd v + 1), ?v, w2)"
      using S R' r v(1) by (simp add: v_Run_def)
    moreover have "reading cx h seq key r L (D @ rd_data arr) ?v w2"
      using R r v w0 p r0 by (auto simp: reading_def intro!: exI [of _ ?w0])
    ultimately show ?thesis using r(3) by blast
  next
    assume r: "rt = kIdle" "resting r2" "w_log w2 = w_log ?w0 @ [r_answer h cmd (Some x)]" "rd_prompt (w_rd w2)"
      "rd_data (w_rd w2) = []"
    have "v_Run cx v (io_world arr acc w) = (Run_true {} {} 0, ?v, w2)" using S R' r v(1) by (simp add: v_Run_def)
    moreover have "answered_by (r_answer h cmd (Some x)) L ?v w2" using r v w0 by (simp add: answered_by_def)
    ultimately show ?thesis by blast
  qed
qed

section \<open>The whole operation\<close>

definition on_the_way ::
    "codec \<Rightarrow> 'h \<Rightarrow> int64 \<Rightarrow> handler_key \<Rightarrow> 'h receiver \<Rightarrow> 'h callback list \<Rightarrow> 'h callback \<Rightarrow> nat \<Rightarrow> bytes
     \<Rightarrow> bytes \<Rightarrow> int set \<Rightarrow> int set \<Rightarrow> 'h service \<Rightarrow> 'h world \<Rightarrow> bool" where
  "on_the_way cx h seq key r L c n D rest reads writes v w \<longleftrightarrow>
     (reads \<noteq> {} \<or> writes \<noteq> {}) \<and> writing cx h seq key r L n D v w \<or>
     (reads \<noteq> {} \<or> writes \<noteq> {}) \<and> rest \<noteq> [] \<and> reading cx h seq key r L D v w \<or>
     answered_by c L v w"

lemma Run_on_the_way:
  assumes "writing cx h seq key r L (n + wr_capacity acc) D v w \<or> reading cx h seq key r L D v w"
    and "resting r" and "rd_prompt arr" and "wr_prompt acc"
    and "D @ rd_data arr @ rest = wire_packet m x" and "answers_request cx (co_hmac_key (r_options r)) seq m x cmd"
  obtains reads writes nf v' w' where "v_Run cx v (io_world arr acc w) = (Run_true reads writes nf, v', w')"
    and "on_the_way cx h seq key r L (r_answer h cmd (Some x)) n (D @ rd_data arr) rest reads writes v' w'"
  using assms(1)
proof
  assume "writing cx h seq key r L (n + wr_capacity acc) D v w"
  from Run_writing [OF this assms(2-6)] obtain reads writes nf v' w' where
    "v_Run cx v (io_world arr acc w) = (Run_true reads writes nf, v', w')"
    "(reads \<noteq> {} \<or> writes \<noteq> {}) \<and> writing cx h seq key r L n (D @ rd_data arr) v' w' \<or>
     (reads \<noteq> {} \<or> writes \<noteq> {}) \<and> rest \<noteq> [] \<and> reading cx h seq key r L (D @ rd_data arr) v' w' \<or>
     answered_by (r_answer h cmd (Some x)) L v' w'" by blast
  then show ?thesis by (intro that) (simp_all only: on_the_way_def)
next
  assume "reading cx h seq key r L D v w"
  from Run_reading [OF this assms(2,3,5,6), of acc] obtain reads writes nf v' w' where
    "v_Run cx v (io_world arr acc w) = (Run_true reads writes nf, v', w')"
    "(reads \<noteq> {} \<or> writes \<noteq> {}) \<and> rest \<noteq> [] \<and> reading cx h seq key r L (D @ rd_data arr) v' w' \<or>
     answered_by (r_answer h cmd (Some x)) L v' w'" by blast
  then show ?thesis by (intro that) (simp_all only: on_the_way_def, blast)
qed

text \<open>The rounds of a kernel and a drive that do their part.\<close>

definition prompt_round :: "int \<Rightarrow> round \<Rightarrow> bool" where
  "prompt_round timeout_time rnd \<longleftrightarrow> \<not> round_gives_up timeout_time rnd \<and>
     rd_prompt (ro_arrivals rnd) \<and> wr_prompt (ro_accepts rnd)"

lemma sys_select_goes_on:
  assumes "\<not> round_gives_up timeout_time rnd" and "reads \<noteq> {} \<or> writes \<noteq> {}"
    and "sys_select reads writes (remaining_time timeout_time (ro_now rnd)) (ro_event rnd) = (k, e)"
  shows "k \<noteq> 0 \<and> (k < 0 \<longrightarrow> e = EINTR)"
  using assms by (auto simp: round_gives_up_def tv_usecs_remaining split: sel_event.splits if_splits)

lemma wait_loop_answered:
  assumes "on_the_way (lb_codec lib) h seq key r L (r_answer h cmd (Some x)) (wr_capacity (concat (map ro_accepts rounds)))
      D (rd_data (concat (map ro_arrivals rounds))) reads writes (n_service n) w"
    and "D @ rd_data (concat (map ro_arrivals rounds)) = wire_packet m x"
    and "\<forall>rnd \<in> set rounds. prompt_round timeout_time rnd"
    and "resting r" and "answers_request (lb_codec lib) (co_hmac_key (r_options r)) seq m x cmd"
    and "\<And>w. w_log w = L \<Longrightarrow> \<not> bs_done (state w)"
    and "\<And>w. w_log w = L @ [r_answer h cmd (Some x)] \<Longrightarrow> bs_done (state w)"
  shows "\<exists>n' w'. wait_loop lib state timeout_time k rounds reads writes n w =
      (Returned (if bs_success (state w') then KineticStatus0 OK '''' else bs_error (state w')), n', w') \<and>
    answered_by (r_answer h cmd (Some x)) L (n_service n') w'"
  using assms(1-3)
proof (induction rounds arbitrary: D reads writes n w)
  case Nil
  then have "answered_by (r_answer h cmd (Some x)) L (n_service n) w"
    by (auto simp: on_the_way_def writing_def)
  moreover from this have "bs_done (state w)" by (intro assms(7)) (simp add: answered_by_def)
  ultimately show ?case by (simp add: wait_loop.simps [of _ _ _ _ "[]"])
next
  case (Cons rnd rounds)
  note step = wait_loop.simps [of lib state timeout_time k "rnd # rounds" reads writes n w]
  show ?case
  proof (cases "answered_by (r_answer h cmd (Some x)) L (n_service n) w")
    case True
    then have "bs_done (state w)" by (intro assms(7)) (simp add: answered_by_def)
    with True show ?thesis by (simp add: step)
  next
    case False
    let ?arr = "ro_arrivals rnd" and ?acc = "ro_accepts rnd" and ?cx = "lb_codec lib"
    let ?rest = "rd_data (concat (map ro_arrivals rounds))"
    from False Cons.prems(1) have fds: "reads \<noteq> {} \<or> writes \<noteq> {}" and
      ph: "writing ?cx h seq key r L (wr_capacity (concat (map ro_accepts rounds)) + wr_capacity ?acc) D (n_service n) w \<or>
        reading ?cx h seq key r L D (n_service n) w"
      by (auto simp: on_the_way_def add.commute)
    then have "w_log w = L" by (auto simp: writing_def reading_def)
    then have nd: "\<not> bs_done (state w)" by (rule assms(6))
    from Cons.prems(3) have p: "\<not> round_gives_up timeout_time rnd" "rd_prompt ?arr" "wr_prompt ?acc"
      by (simp_all add: prompt_round_def)
    have data: "D @ rd_data ?arr @ ?rest = wire_packet m x" using Cons.prems(2) by simp
    obtain r1 w1 nf v' w' where
      run: "v_Run ?cx (n_service n) (io_world ?arr ?acc w) = (Run_true r1 w1 nf, v', w')"
      and go: "on_the_way ?cx h seq key r L (r_answer h cmd (Some x)) (wr_capacity (concat (map ro_accepts rounds)))
        (D @ rd_data ?arr) ?rest r1 w1 v' w'"
      by (rule Run_on_the_way [OF ph assms(4) p(2,3) data assms(5)])
    let ?n = "n\<lparr>n_service := v'\<rparr>"
    obtain q e where sel: "sys_select reads writes (remaining_time timeout_time (ro_now rnd)) (ro_event rnd) = (q, e)"
      by fastforce
    from sys_select_goes_on [OF p(1) fds sel] nd sel run
    have "wait_loop lib state timeout_time k (rnd # rounds) reads writes n w =
        wait_loop lib state timeout_time k rounds r1 w1 ?n w'"
      by (auto simp: step n_Run_def)
    moreover have "\<exists>n' w''. wait_loop lib state timeout_time k rounds r1 w1 ?n w' =
        (Returned (if bs_success (state w'') then KineticStatus0 OK '''' else bs_error (state w'')), n', w'') \<and>
        answered_by (r_answer h cmd (Some x)) L (n_service n') w''"
      by (rule Cons.IH [where D = "D @ rd_data ?arr"]) (use go data Cons.prems(3) in simp_all)
    ultimately show ?thesis by simp
  qed
qed

text \<open>A blocking connection between two operations, with nothing left over on the socket.\<close>

definition quiet :: "blocking \<Rightarrow> nat hworld \<Rightarrow> bool" where
  "quiet b w \<longleftrightarrow> (let v = n_service (bl_connection b) in
     \<not> v_failed v \<and> s_next (v_sender v) = None \<and> r_response (v_receiver v) = None \<and> r_map (v_receiver v) = [] \<and>
     rd_prompt (w_rd w) \<and> rd_data (w_rd w) = [])"

text \<open>What an answer is for the caller.\<close>

definition answer_status :: "command \<Rightarrow> kinetic_status" where
  "answer_status cmd =
     (if os_code (cmd_status cmd) = PROTO_SUCCESS then KineticStatus0 OK ''''
      else GetKineticStatus (ConvertFromProtoStatus (os_code (cmd_status cmd)))
        (int64_or_0 (h_clusterversion (cmd_header cmd))))"

definition answer_outputs ::
    "(message_type \<Rightarrow> bytes) \<Rightarrow> blocking_op \<Rightarrow> command \<Rightarrow> bytes \<Rightarrow> outputs \<Rightarrow> outputs" where
  "answer_outputs tn op cmd x out =
     (if os_code (cmd_status cmd) = PROTO_SUCCESS then op_stores tn op cmd (Some x) out else out)"

lemma calls_about_fresh:
  assumes "b_inv lib b w S"
  shows "calls_about (bl_next b) w = []"
proof -
  obtain R where r: "v_reach (lb_codec lib) (n_service (bl_connection b)) w S R" and f: "\<forall>h \<in># S. handler_callback h < bl_next b"
    using assms by (auto simp: b_inv_def)
  from v_reach_conserves [OF r] have "called w \<subseteq># S" by (metis mset_subset_eq_add_left mset_subset_eq_add_right subset_mset.order_trans)
  then have "\<forall>h \<in># called w. handler_callback h < bl_next b" using f by (auto dest: mset_subset_eqD)
  then show ?thesis by (auto simp: calls_about_def called_def filter_empty_conv)
qed

lemma answer_view:
  assumes "calls_about c w = []" and "w_log w' = w_log w @ [r_answer (op_handler op c) cmd (Some x)]"
  shows "callback_view lib (op_class op) c out w' =
    (if os_code (cmd_status cmd) = PROTO_SUCCESS then OnSuccess BlockingCallbackState
     else OnError (answer_status cmd) BlockingCallbackState, answer_outputs (lb_type_name lib) op cmd x out)"
proof -
  have about: "calls_about c w' = [r_answer (op_handler op c) cmd (Some x)]"
    using assms by (simp add: calls_about_def)
  show ?thesis
  proof (cases "os_code (cmd_status cmd) = PROTO_SUCCESS")
    case True
    with about have "calls_about c w' = [Handled (op_handler op c) cmd (Some x)]" by (simp add: r_answer_def)
    from view_cases(2) [OF this] True show ?thesis by (simp add: answer_outputs_def)
  next
    case False
    with about have "calls_about c w' = [Errored (op_handler op c) (answer_status cmd) (Some cmd)]"
      by (simp add: r_answer_def answer_status_def)
    from view_cases(3) [OF this] False show ?thesis by (simp add: answer_outputs_def)
  qed
qed

lemma Submit_writing:
  assumes "v_Submit cx m cmd val h v w = (key, v', w')" and "\<not> v_failed v" and "s_next (v_sender v) = None"
    and "s_wf (v_sender v)" and "s_serializable (cx_ser_message cx) (v_sender v')"
    and "rd_prompt (w_rd w)" and "rd_data (w_rd w) = []"
    and "length (s_wire (cx_ser_message cx) (v_sender v')) \<le> n"
  shows "w' = w \<and> writing cx h (s_sequence_number (v_sender v)) key (v_receiver v) (w_log w) n [] v' w"
proof -
  from assms(3) have i: "s_current_writer (v_sender v) = None" "s_request_queue (v_sender v) = []"
    by (simp_all add: s_next_None)
  with assms(4) have h: "s_handler (v_sender v) = None" by (simp add: s_wf_def)
  from assms(1,2) have v': "w' = w" "v_receiver v' = v_receiver v" "v_failed v' = False"
    "v_sender v' = s_Enqueue cx (connection_id (v_receiver v)) m cmd val h key (v_sender v)"
    by (auto simp: v_Submit_def Let_def)
  have "s_wire (cx_ser_message cx) (v_sender v') \<noteq> []"
    unfolding v'(4) using i by (simp add: s_wire_def s_Enqueue_def Let_def s_packet_def wire_packet_def)
  moreover have "sending h (s_sequence_number (v_sender v)) key (v_sender v')" "s_wf (v_sender v')"
    unfolding v'(4) using i h assms(4) by (simp_all add: sending_def s_Enqueue_def Let_def finish_command_def s_wf_def)
  ultimately show ?thesis using v' assms(5-8) by (simp add: writing_def)
qed

text \<open>
  C5: A request that is answered in time comes back to its caller. Take any connection that is between
  two operations. If the kernel takes at least one byte with every call, and enough of them over the
  rounds for the packet of the request; if \<open>select\<close> never times out or fails; and if what arrives is,
  cut into pieces and rounds in any way, with any interruptions, the packet of a valid response that
  acknowledges the sequence number of this request: then the operation returns the status of that
  response, its contents are in the caller's variables, and the connection is ready for the next
  operation.
\<close>

theorem answered_operation_returns_answer:
  assumes "b_reach lib b w" and "Suc (bl_next b) < 2 ^ 64" and "quiet b w"
    and "nb_exec (lb_codec lib) (op_call op (bl_next b)) (bl_connection b) w = Some (key, n1, w1)"
    and "s_serializable (cx_ser_message (lb_codec lib)) (v_sender (n_service n1))"
    and "length (s_wire (cx_ser_message (lb_codec lib)) (v_sender (n_service n1))) \<le>
      wr_capacity (e_accepts env @ concat (map ro_accepts (e_rounds env)))"
    and "rd_prompt (e_arrivals env)" and "wr_prompt (e_accepts env)"
    and "\<forall>rnd \<in> set (e_rounds env). prompt_round (e_now env + uint (bl_timeout b) * 1000000000) rnd"
    and "rd_data (e_arrivals env @ concat (map ro_arrivals (e_rounds env))) = wire_packet m x"
    and "answers_request (lb_codec lib) (co_hmac_key (r_options (v_receiver (n_service (bl_connection b)))))
      (s_sequence_number (v_sender (n_service (bl_connection b)))) m x cmd"
  shows "\<exists>b' w'. b_exec lib env op out b w =
      (Returned (answer_status cmd), answer_outputs (lb_type_name lib) op cmd x out, b', w') \<and>
    quiet b' w' \<and> w_log w' = w_log w @ [r_answer (op_handler op (bl_next b)) cmd (Some x)]"
proof -
  let ?c = "bl_next b" and ?cx = "lb_codec lib" and ?v = "n_service (bl_connection b)"
  let ?h = "op_handler op ?c" and ?seq = "s_sequence_number (v_sender ?v)" and ?L = "w_log w"
  let ?state = "\<lambda>w. fst (callback_view lib (op_class op) ?c out w)"
  let ?rest = "rd_data (concat (map ro_arrivals (e_rounds env)))"
  let ?cap = "wr_capacity (concat (map ro_accepts (e_rounds env)))"
  obtain S where S: "b_inv lib b w S" using b_reach_inv [OF assms(1)] assms(2) by auto
  note fresh = calls_about_fresh [OF S]
  obtain R where "v_reach ?cx ?v w S R" using S by (auto simp: b_inv_def)
  from v_reach_conserves [OF this] have ok: "v_ok ?v" by simp
  have q: "\<not> v_failed ?v" "s_next (v_sender ?v) = None" "rd_prompt (w_rd w)" "rd_data (w_rd w) = []"
    and rest: "resting (v_receiver ?v)" using assms(3) ok by (auto simp: quiet_def resting_def v_ok_def Let_def)
  have wf: "s_wf (v_sender ?v)" using ok q(1) by (simp add: v_ok_def)
  obtain m0 cmd0 val v where sub: "v_Submit ?cx m0 cmd0 val ?h ?v w = (key, v, w1)"
    and n1: "n1 = (bl_connection b)\<lparr>n_service := v\<rparr>"
    using nb_exec_v_Submit [OF assms(4)] unfolding op_handler_def by blast
  have len: "length (s_wire (cx_ser_message ?cx) (v_sender v)) \<le> ?cap + wr_capacity (e_accepts env)"
    using assms(6) by (simp add: n1 add.commute)
  have ser: "s_serializable (cx_ser_message ?cx) (v_sender v)" using assms(5) by (simp add: n1)
  from Submit_writing [OF sub q(1,2) wf ser q(3,4) len] have w1: "w1 = w" and
    wr: "writing ?cx ?h ?seq key (v_receiver ?v) ?L (?cap + wr_capacity (e_accepts env)) [] v w" by simp_all
  have data: "[] @ rd_data (e_arrivals env) @ ?rest = wire_packet m x" using assms(10) by simp
  obtain r2 wr2 nf v2 w2 where
    run: "v_Run ?cx v (io_world (e_arrivals env) (e_accepts env) w) = (Run_true r2 wr2 nf, v2, w2)"
    and go: "on_the_way ?cx ?h ?seq key (v_receiver ?v) ?L (r_answer ?h cmd (Some x)) ?cap
        ([] @ rd_data (e_arrivals env)) ?rest r2 wr2 v2 w2"
    by (rule Run_on_the_way [OF disjI1 [OF wr] rest assms(7,8) data assms(11)])
  let ?n2 = "n1\<lparr>n_service := v2\<rparr>" and ?t = "e_now env + uint (bl_timeout b) * 1000000000"
  have view: "?L = w_log w' \<Longrightarrow> \<not> bs_done (?state w')" for w'
    using fresh by (subst view_cases(1)) (simp_all add: calls_about_def)
  note ans = answer_view [OF fresh, of _ op cmd x lib out]
  have "\<exists>n' w'. wait_loop lib ?state ?t key (e_rounds env) r2 wr2 ?n2 w2 =
      (Returned (if bs_success (?state w') then KineticStatus0 OK '''' else bs_error (?state w')), n', w') \<and>
    answered_by (r_answer ?h cmd (Some x)) ?L (n_service n') w'"
    by (rule wait_loop_answered [OF _ _ assms(9) rest assms(11)]) (use go data view ans in auto)
  then obtain n' w' where loop: "wait_loop lib ?state ?t key (e_rounds env) r2 wr2 ?n2 w2 =
      (Returned (if bs_success (?state w') then KineticStatus0 OK '''' else bs_error (?state w')), n', w')"
    and a: "answered_by (r_answer ?h cmd (Some x)) ?L (n_service n') w'" by blast
  from a have log: "w_log w' = ?L @ [r_answer ?h cmd (Some x)]" by (simp add: answered_by_def)
  have "RunOperation lib env (bl_timeout b) ?state key n1 w = (Returned (answer_status cmd), n', w')"
    using run loop ans [OF log] by (simp add: RunOperation_def n_Run_def n1 Let_def answer_status_def)
  moreover have "quiet (b\<lparr>bl_connection := n', bl_next := Suc ?c\<rparr>) w'"
    using a by (simp add: quiet_def answered_by_def resting_def)
  ultimately show ?thesis using assms(4) w1 ans [OF log] log
    by (simp add: b_exec_invoke invoke_def Let_def)
qed

section \<open>Example\<close>

text \<open>A Get whose request is taken in two rounds and whose response comes in three pieces.\<close>

definition patient_env :: env where
  "patient_env = \<lparr>e_arrivals = [], e_accepts = [Wr_accept 3, Wr_err EINTR], e_now = 5000000000,
     e_rounds = [\<lparr>ro_now = 6000000000, ro_event = Ready_after 20, ro_arrivals = [Rd_bytes [70, 0]],
                    ro_accepts = replicate 9 (Wr_accept 2)\<rparr>,
                 \<lparr>ro_now = 7000000000, ro_event = Signal_after 20, ro_arrivals = [], ro_accepts = []\<rparr>,
                 \<lparr>ro_now = 8000000000, ro_event = Ready_after 20,
                    ro_arrivals = [Rd_bytes [0, 0, 1], Rd_err EINTR, Rd_bytes [0, 0, 0, 1, 0, 99]], ro_accepts = []\<rparr>]\<rparr>"

definition example_answer :: command where
  "example_answer = empty_command\<lparr>cmd_header := empty_header\<lparr>h_acksequence := Some 0\<rparr>,
     cmd_status := \<lparr>os_code = PROTO_SUCCESS, os_statusmessage = ''''\<rparr>\<rparr>"

lemma example_request:
  "case nb_exec example_codec (Call_Get [7] 0) (bl_connection example_blocking) example_world of
     None \<Rightarrow> False
   | Some (key, n1, w1) \<Rightarrow> s_current_writer (v_sender (n_service n1)) = None \<and>
       length (s_wire (cx_ser_message example_codec) (v_sender (n_service n1))) = 10"
  by code_simp

theorem answered_operation_returns_answer_witness:
  "\<exists>out' b' w'. b_exec example_lib patient_env (B_Get [7]) no_outputs example_blocking example_world =
      (Returned (KineticStatus0 OK ''''), out', b', w') \<and> map_option kr_value (o_record out') = Some (Some [99]) \<and>
     quiet b' w'"
proof -
  obtain key n1 w1 where ex: "nb_exec example_codec (Call_Get [7] 0) (bl_connection example_blocking) example_world =
      Some (key, n1, w1)" and wr: "s_current_writer (v_sender (n_service n1)) = None"
    and len: "length (s_wire (cx_ser_message example_codec) (v_sender (n_service n1))) = 10"
    using example_request by (auto split: option.splits)
  have lib: "lb_codec example_lib = example_codec" by (simp add: example_lib_def)
  have exec: "nb_exec (lb_codec example_lib) (op_call (B_Get [7]) (bl_next example_blocking))
      (bl_connection example_blocking) example_world = Some (key, n1, w1)" using ex by (simp add: lib)
  have "s_serializable (cx_ser_message example_codec) (v_sender (n_service n1))"
    using wr by (simp add: s_serializable_def example_codec_def)
  moreover have "\<forall>rnd \<in> set (e_rounds patient_env). prompt_round
      (e_now patient_env + uint (bl_timeout example_blocking) * 1000000000) rnd"
    by (simp add: patient_env_def prompt_round_def round_gives_up_def rd_prompt_def example_blocking_def
        BlockingKineticConnection_def)
  moreover have "rd_data (e_arrivals patient_env @ concat (map ro_arrivals (e_rounds patient_env))) = wire_packet [0] [99]"
    by (simp add: patient_env_def wire_packet_def magic_byte_def be32_def)
  moreover have "answers_request example_codec
      (co_hmac_key (r_options (v_receiver (n_service (bl_connection example_blocking)))))
      (s_sequence_number (v_sender (n_service (bl_connection example_blocking)))) [0] [99] example_answer"
    by (simp add: answers_request_def packet_response_def example_codec_def new_message_def example_answer_def
        example_blocking_def BlockingKineticConnection_def NonblockingKineticConnection_def new_service_def
        new_sender_def)
  moreover have "quiet example_blocking example_world"
    by (simp add: quiet_def example_blocking_def BlockingKineticConnection_def NonblockingKineticConnection_def
        new_service_def new_sender_def s_next_def r_after_handshake_def initial_receiver_def example_world_def rd_prompt_def)
  ultimately have "\<exists>b' w'. b_exec example_lib patient_env (B_Get [7]) no_outputs example_blocking example_world =
      (Returned (answer_status example_answer), answer_outputs (lb_type_name example_lib) (B_Get [7]) example_answer [99] no_outputs,
        b', w') \<and> quiet b' w' \<and> w_log w' = w_log example_world @
          [r_answer (op_handler (B_Get [7]) (bl_next example_blocking)) example_answer (Some [99])]"
    using len by (intro answered_operation_returns_answer [OF example_reach_world _ _ exec])
      (simp_all add: lib, simp_all add: patient_env_def rd_prompt_def)
  then show ?thesis
    by (auto simp: answer_status_def answer_outputs_def example_answer_def op_stores_def response_record_def)
qed

end
