(* ===== verification/Iterator_Copies.thy ===== *)
theory Iterator_Copies
  imports Key_Range
begin

text \<open>
  Copies of a \<open>KeyRangeIterator\<close> (\<open>key_range_iterator.cc\<close>). The other operations are modelled in
  \<open>Key_Range\<close> on iterators that are plain values. The class is not: each object owns a vector through
  \<open>keys_\<close>, and copying, assigning and destroying it have to allocate, copy and free. Here the
  vectors are on a heap, the objects hold addresses, and a program over several iterator variables is
  shown to do the same as over plain values, without a vector that is shared, leaked or freed twice.
  The member \<open>bconn_\<close>, which copies and assignments copy along, is left out: the iterators of a
  program are all over one connection. It is null in \<open>KeyRangeEnd\<close>, whose increments throw before
  they use it.
\<close>

section \<open>Objects and their vectors\<close>

type_synonym vectors = "bytes list option list"

record it_object =
  ob_first :: bytes
  ob_first_inc :: bool
  ob_last :: bytes
  ob_last_inc :: bool
  ob_framesz :: uint32
  ob_reverse_order :: bool
  ob_relpos :: int
  ob_eol :: bool
  ob_keys :: "nat option"

record it_store =
  st_objects :: "string \<Rightarrow> it_object option"
  st_vectors :: vectors

text \<open>An address is live while the vector at it is allocated; reading another has no defined behaviour.\<close>

definition read_vector :: "vectors \<Rightarrow> nat \<Rightarrow> bytes list option" where
  "read_vector h a = (if a < length h then h ! a else None)"

definition delete_vector :: "nat option \<Rightarrow> vectors \<Rightarrow> vectors" where
  "delete_vector p h = (case p of None \<Rightarrow> h | Some a \<Rightarrow> h[a := None])"

text \<open>\<open>keys_\<close> is given a new vector, or null, and what it owned is freed.\<close>

definition reset_keys :: "bytes list option \<Rightarrow> it_object \<Rightarrow> vectors \<Rightarrow> it_object \<times> vectors" where
  "reset_keys keys ob h =
     (let h1 = delete_vector (ob_keys ob) h in
      case keys of
        None \<Rightarrow> (ob\<lparr>ob_keys := None\<rparr>, h1)
      | Some ks \<Rightarrow> (ob\<lparr>ob_keys := Some (length h1)\<rparr>, h1 @ [Some ks]))"

text \<open>The vector behind \<open>keys_\<close>: none for null; no result when the address is not live.\<close>

definition deref_keys :: "it_object \<Rightarrow> vectors \<Rightarrow> bytes list option option" where
  "deref_keys ob h =
     (case ob_keys ob of
        None \<Rightarrow> Some None
      | Some a \<Rightarrow> map_option Some (read_vector h a))"

definition put_object :: "string \<Rightarrow> it_object \<times> vectors \<Rightarrow> it_store \<Rightarrow> it_store" where
  "put_object v obh st = \<lparr>st_objects = (st_objects st)(v \<mapsto> fst obh), st_vectors = snd obh\<rparr>"

definition no_iterators :: it_store where
  "no_iterators = \<lparr>st_objects = Map.empty, st_vectors = []\<rparr>"

section \<open>Copy constructor, assignment, destructor\<close>

definition ob_copy :: "string \<Rightarrow> string \<Rightarrow> it_store \<Rightarrow> it_store option" where
  "ob_copy d s st =
     (case (st_objects st d, st_objects st s) of
        (None, Some rhs) \<Rightarrow>
          (case deref_keys rhs (st_vectors st) of
             None \<Rightarrow> None
           | Some keys \<Rightarrow> Some (put_object d (reset_keys keys (rhs\<lparr>ob_keys := None\<rparr>) (st_vectors st)) st))
      | _ \<Rightarrow> None)"

text \<open>The old vector of the left side is freed before that of the right side is read.\<close>

definition ob_assign :: "string \<Rightarrow> string \<Rightarrow> it_store \<Rightarrow> it_store option" where
  "ob_assign d s st =
     (case (st_objects st d, st_objects st s) of
        (Some lhs, Some rhs) \<Rightarrow>
          if d = s then Some st
          else
            (case reset_keys None (rhs\<lparr>ob_keys := ob_keys lhs\<rparr>) (st_vectors st) of
               (lhs1, h1) \<Rightarrow>
                 (case deref_keys rhs h1 of
                    None \<Rightarrow> None
                  | Some keys \<Rightarrow> Some (put_object d (reset_keys keys lhs1 h1) st)))
      | _ \<Rightarrow> None)"

definition ob_destroy :: "string \<Rightarrow> it_store \<Rightarrow> it_store option" where
  "ob_destroy v st =
     (case st_objects st v of
        None \<Rightarrow> None
      | Some ob \<Rightarrow>
          Some \<lparr>st_objects = (st_objects st)(v := None), st_vectors = delete_vector (ob_keys ob) (st_vectors st)\<rparr>)"

section \<open>Fetching and advancing on the heap\<close>

text \<open>\<open>GetKeyRange\<close> gets \<open>keys_\<close> by reference and leaves its result there.\<close>

definition ob_next_frame ::
    "'c get_key_range \<Rightarrow> it_object \<times> vectors \<Rightarrow> 'c
     \<Rightarrow> (it_exception option \<times> (it_object \<times> vectors) \<times> 'c) option" where
  "ob_next_frame gkr obh c =
     (case obh of (ob, h) \<Rightarrow>
     (case deref_keys ob h of
        None \<Rightarrow> None
      | Some keys \<Rightarrow>
     (case (if ob_relpos ob \<noteq> - 1 then
              (case keys of
                 Some ks \<Rightarrow>
                   if ks = [] then None
                   else Some (ob\<lparr>ob_first := ks ! (length ks - 1), ob_first_inc := False\<rparr>)
               | None \<Rightarrow> Some ob)
            else Some ob) of
        None \<Rightarrow> None
      | Some ob1 \<Rightarrow>
     (case gkr (ob_first ob1) (ob_first_inc ob1) (ob_last ob1) (ob_last_inc ob1) (ob_reverse_order ob1)
             (ob_framesz ob1) keys c of
        (status, keys', c') \<Rightarrow>
     (case reset_keys keys' ob1 h of
        (ob2, h2) \<Rightarrow>
          if \<not> ks_ok status then
            Some (Some (Runtime_error (ks_message status)), (ob2\<lparr>ob_relpos := - 1\<rparr>, h2), c')
          else
            (let ob3 = ob2\<lparr>ob_relpos := 0\<rparr> in
             if keys' = None \<or> keys' = Some [] then Some (None, (ob3\<lparr>ob_eol := True\<rparr>, h2), c')
             else Some (None, (ob3, h2), c')))))))"

definition ob_advance ::
    "'c get_key_range \<Rightarrow> it_object \<times> vectors \<Rightarrow> 'c
     \<Rightarrow> (it_exception option \<times> (it_object \<times> vectors) \<times> 'c) option" where
  "ob_advance gkr obh c =
     (case obh of (ob, h) \<Rightarrow>
      let ob1 = ob\<lparr>ob_relpos := ob_relpos ob + 1\<rparr> in
      case deref_keys ob1 h of
        None \<Rightarrow> None
      | Some None \<Rightarrow> if ob_relpos ob1 = - 1 then ob_next_frame gkr (ob1, h) c else None
      | Some (Some ks) \<Rightarrow>
          if ob_relpos ob1 = - 1 \<or> ob_relpos ob1 = int (length ks)
          then ob_next_frame gkr (ob1, h) c
          else Some (None, (ob1, h), c))"

section \<open>Programs over iterator variables\<close>

datatype it_command =
    Construct_end string
  | Construct string uint32 bytes bool bytes bool
  | Copy_construct string string
  | Assign string string
  | Increment string
  | Post_increment string string
  | Destroy string

text \<open>
  A command gives the exception it throws, if any. A constructor that throws leaves no object; its
  vector is freed. The copy that the postfix operator returns is made before the iterator advances,
  and is gone again when advancing throws.
\<close>

fun ob_command ::
    "'c get_key_range \<Rightarrow> it_command \<Rightarrow> it_store \<Rightarrow> 'c \<Rightarrow> (it_exception option \<times> it_store \<times> 'c) option" where
  "ob_command gkr (Construct_end v) st c =
     (if st_objects st v \<noteq> None then None
      else Some (None, put_object v (\<lparr>ob_first = [], ob_first_inc = False, ob_last = [], ob_last_inc = False,
             ob_framesz = 1, ob_reverse_order = False, ob_relpos = - 1, ob_eol = True, ob_keys = None\<rparr>,
             st_vectors st) st, c))"
| "ob_command gkr (Construct v framesz start si end_key ei) st c =
     (if st_objects st v \<noteq> None then None
      else
        (case ob_next_frame gkr (\<lparr>ob_first = start, ob_first_inc = si, ob_last = end_key, ob_last_inc = ei,
                ob_framesz = framesz, ob_reverse_order = False, ob_relpos = - 1, ob_eol = False, ob_keys = None\<rparr>,
                st_vectors st) c of
           None \<Rightarrow> None
         | Some (None, obh, c') \<Rightarrow> Some (None, put_object v obh st, c')
         | Some (Some e, obh, c') \<Rightarrow>
             map_option (\<lambda>st'. (Some e, st', c')) (ob_destroy v (put_object v obh st))))"
| "ob_command gkr (Copy_construct d s) st c = map_option (\<lambda>st'. (None, st', c)) (ob_copy d s st)"
| "ob_command gkr (Assign d s) st c = map_option (\<lambda>st'. (None, st', c)) (ob_assign d s st)"
| "ob_command gkr (Increment v) st c =
     (case st_objects st v of
        None \<Rightarrow> None
      | Some ob \<Rightarrow>
          if ob_relpos ob = - 1 \<or> ob_keys ob = None then Some (Some bad_state, st, c)
          else map_option (\<lambda>(e, obh, c'). (e, put_object v obh st, c')) (ob_advance gkr (ob, st_vectors st) c))"
| "ob_command gkr (Post_increment d v) st c =
     (case (st_objects st d, st_objects st v) of
        (None, Some ob) \<Rightarrow>
          if ob_relpos ob = - 1 \<or> ob_keys ob = None then Some (Some bad_state, st, c)
          else
            (case ob_copy d v st of
               None \<Rightarrow> None
             | Some st1 \<Rightarrow>
                 (case ob_advance gkr (ob, st_vectors st1) c of
                    None \<Rightarrow> None
                  | Some (None, obh, c') \<Rightarrow> Some (None, put_object v obh st1, c')
                  | Some (Some e, obh, c') \<Rightarrow>
                      map_option (\<lambda>st'. (Some e, st', c')) (ob_destroy d (put_object v obh st1))))
      | _ \<Rightarrow> None)"
| "ob_command gkr (Destroy v) st c = map_option (\<lambda>st'. (None, st', c)) (ob_destroy v st)"

fun ob_run ::
    "'c get_key_range \<Rightarrow> it_command list \<Rightarrow> it_store \<Rightarrow> 'c
     \<Rightarrow> (it_exception option list \<times> it_store \<times> 'c) option" where
  "ob_run gkr [] st c = Some ([], st, c)"
| "ob_run gkr (cmd # cmds) st c =
     (case ob_command gkr cmd st c of
        None \<Rightarrow> None
      | Some (e, st', c') \<Rightarrow> map_option (\<lambda>(es, st'', c''). (e # es, st'', c'')) (ob_run gkr cmds st' c'))"

section \<open>The same over plain values\<close>

type_synonym it_values = "string \<Rightarrow> key_iterator option"

fun val_command ::
    "'c get_key_range \<Rightarrow> it_command \<Rightarrow> it_values \<Rightarrow> 'c \<Rightarrow> (it_exception option \<times> it_values \<times> 'c) option" where
  "val_command gkr (Construct_end v) env c =
     (if env v \<noteq> None then None else Some (None, env(v \<mapsto> KeyRangeEnd), c))"
| "val_command gkr (Construct v framesz start si end_key ei) env c =
     (if env v \<noteq> None then None
      else map_option (\<lambda>(e, it, c'). (e, if e = None then env(v \<mapsto> it) else env, c'))
             (new_key_iterator gkr framesz start si end_key ei c))"
| "val_command gkr (Copy_construct d s) env c =
     (if env d \<noteq> None \<or> env s = None then None else Some (None, env(d := env s), c))"
| "val_command gkr (Assign d s) env c =
     (if env d = None \<or> env s = None then None else Some (None, env(d := env s), c))"
| "val_command gkr (Increment v) env c =
     (case env v of
        None \<Rightarrow> None
      | Some it \<Rightarrow> map_option (\<lambda>(e, it', c'). (e, env(v \<mapsto> it'), c')) (kr_increment gkr it c))"
| "val_command gkr (Post_increment d v) env c =
     (case (env d, env v) of
        (None, Some it) \<Rightarrow>
          map_option (\<lambda>(r, it', c'). case r of
               Inl e \<Rightarrow> (Some e, env(v \<mapsto> it'), c')
             | Inr old \<Rightarrow> (None, env(v \<mapsto> it', d \<mapsto> old), c'))
            (kr_post_increment gkr it c)
      | _ \<Rightarrow> None)"
| "val_command gkr (Destroy v) env c = (if env v = None then None else Some (None, env(v := None), c))"

fun val_run ::
    "'c get_key_range \<Rightarrow> it_command list \<Rightarrow> it_values \<Rightarrow> 'c
     \<Rightarrow> (it_exception option list \<times> it_values \<times> 'c) option" where
  "val_run gkr [] env c = Some ([], env, c)"
| "val_run gkr (cmd # cmds) env c =
     (case val_command gkr cmd env c of
        None \<Rightarrow> None
      | Some (e, env', c') \<Rightarrow> map_option (\<lambda>(es, env'', c''). (e # es, env'', c'')) (val_run gkr cmds env' c'))"

section \<open>The value of an object\<close>

definition ob_value :: "it_object \<times> vectors \<Rightarrow> key_iterator" where
  "ob_value obh =
     (case obh of (ob, h) \<Rightarrow>
      \<lparr>it_first = ob_first ob, it_first_inc = ob_first_inc ob, it_last = ob_last ob, it_last_inc = ob_last_inc ob,
       it_framesz = ob_framesz ob, it_reverse_order = ob_reverse_order ob, it_relpos = ob_relpos ob,
       it_eol = ob_eol ob,
       it_keys = (case ob_keys ob of None \<Rightarrow> None | Some a \<Rightarrow> read_vector h a)\<rparr>)"

definition st_values :: "it_store \<Rightarrow> it_values" where
  "st_values st = (\<lambda>v. map_option (\<lambda>ob. ob_value (ob, st_vectors st)) (st_objects st v))"

text \<open>Every vector that is allocated belongs to exactly one variable, and no variable points elsewhere.\<close>

definition vectors_owned :: "it_store \<Rightarrow> bool" where
  "vectors_owned st \<longleftrightarrow>
     (\<forall>a. read_vector (st_vectors st) a \<noteq> None \<longleftrightarrow> (\<exists>v ob. st_objects st v = Some ob \<and> ob_keys ob = Some a)) \<and>
     (\<forall>v v' ob ob' a. st_objects st v = Some ob \<and> ob_keys ob = Some a \<and>
        st_objects st v' = Some ob' \<and> ob_keys ob' = Some a \<longrightarrow> v = v')"

section \<open>Putting an object back\<close>

lemma read_vector_append [simp]:
  "read_vector (h @ [Some ks]) a = (if a = length h then Some ks else read_vector h a)"
  by (auto simp: read_vector_def nth_append)

lemma read_vector_delete [simp]:
  "read_vector (delete_vector p h) a = (if p = Some a then None else read_vector h a)"
  by (auto simp: read_vector_def delete_vector_def split: option.split)

lemma length_delete_vector [simp]: "length (delete_vector p h) = length h"
  by (simp add: delete_vector_def split: option.split)

lemma read_vector_live: "read_vector h a \<noteq> None \<Longrightarrow> a < length h"
  by (auto simp: read_vector_def split: if_splits)

lemma delete_vector_None [simp]: "delete_vector None h = h"
  by (simp add: delete_vector_def)

text \<open>What one operation on an object does to its pointer and the heap.\<close>

definition ptr_step :: "nat option \<Rightarrow> vectors \<Rightarrow> nat option \<Rightarrow> vectors \<Rightarrow> bool" where
  "ptr_step p h p' h' \<longleftrightarrow> p' = p \<and> h' = h \<or> p' = None \<and> h' = delete_vector p h \<or>
     (\<exists>ks. p' = Some (length h) \<and> h' = delete_vector p h @ [Some ks])"

lemma reset_keys_step: "reset_keys keys ob h = (ob', h') \<Longrightarrow> ptr_step (ob_keys ob) h (ob_keys ob') h'"
  by (auto simp: reset_keys_def ptr_step_def Let_def split: option.splits)

lemma reset_keys_value:
  "reset_keys keys ob h = (ob', h') \<Longrightarrow>
     ob_value (ob', h') = (ob_value (ob, h))\<lparr>it_keys := keys\<rparr> \<and> deref_keys ob' h' = Some keys"
  by (auto simp: reset_keys_def ob_value_def deref_keys_def Let_def split: option.splits)

definition owner :: "it_store \<Rightarrow> string \<Rightarrow> nat option" where
  "owner st v = (case st_objects st v of None \<Rightarrow> None | Some ob \<Rightarrow> ob_keys ob)"

lemma owner_iff: "owner st v = Some a \<longleftrightarrow> (\<exists>ob. st_objects st v = Some ob \<and> ob_keys ob = Some a)"
  by (simp add: owner_def split: option.split)

lemma vectors_owned_alt:
  "vectors_owned st \<longleftrightarrow>
     (\<forall>a. read_vector (st_vectors st) a \<noteq> None \<longleftrightarrow> (\<exists>v. owner st v = Some a)) \<and>
     (\<forall>v v' a. owner st v = Some a \<and> owner st v' = Some a \<longrightarrow> v = v')"
  unfolding vectors_owned_def owner_iff by blast

lemma owner_put [simp]: "owner (put_object v (ob, h) st) u = (if u = v then ob_keys ob else owner st u)"
  by (simp add: owner_def put_object_def)

lemma put_vectors [simp]: "st_vectors (put_object v obh st) = snd obh"
  and put_objects [simp]: "st_objects (put_object v obh st) = (st_objects st)(v \<mapsto> fst obh)"
  by (simp_all add: put_object_def)

lemma read_vector_end [simp]: "read_vector h (length h) = None"
  by (simp add: read_vector_def)

text \<open>
  The step concerns the old vector and the new one: every other address reads as before, the old one is
  freed unless it is kept, and the new one was not in use.
\<close>

lemma ptr_step_read:
  assumes "ptr_step p h p' h'" and "\<And>a. p = Some a \<Longrightarrow> read_vector h a \<noteq> None"
  shows "p' \<noteq> Some b \<Longrightarrow> read_vector h' b = (if p = Some b then None else read_vector h b)"
    and "p' = Some b \<Longrightarrow> read_vector h' b \<noteq> None"
    and "p' = Some b \<Longrightarrow> p = Some b \<or> read_vector h b = None"
  using assms by (auto simp: ptr_step_def)

lemma value_kept:
  assumes "\<And>a. owner st u = Some a \<Longrightarrow> read_vector h a = read_vector (st_vectors st) a"
  shows "map_option (\<lambda>ob. ob_value (ob, h)) (st_objects st u) = st_values st u"
  using assms by (cases "st_objects st u") (auto simp: st_values_def ob_value_def owner_def split: option.split)

lemma owned_put:
  assumes "vectors_owned st" and step: "ptr_step (owner st v) (st_vectors st) (ob_keys ob) h"
  shows "vectors_owned (put_object v (ob, h) st)"
    and "st_values (put_object v (ob, h) st) = (st_values st)(v \<mapsto> ob_value (ob, h))"
proof -
  note own = assms(1) [unfolded vectors_owned_alt]
  have live: "read_vector (st_vectors st) a \<noteq> None" if "owner st u = Some a" for u a using own that by blast
  note rd = ptr_step_read [OF step live [of v]]
  have other: "ob_keys ob \<noteq> Some a \<and> owner st v \<noteq> Some a" if "u \<noteq> v" "owner st u = Some a" for u a
    using own that rd(3) [of a] live [OF that(2)] by blast
  have read: "read_vector h a \<noteq> None \<longleftrightarrow> ob_keys ob = Some a \<or> (\<exists>u. u \<noteq> v \<and> owner st u = Some a)" for a
  proof (cases "ob_keys ob = Some a")
    case False
    with rd(1) [of a] own other show ?thesis by metis
  qed (use rd(2) [of a] in blast)
  show "vectors_owned (put_object v (ob, h) st)"
    unfolding vectors_owned_alt
    using read other own by (auto simp: fun_upd_def)
  show "st_values (put_object v (ob, h) st) = (st_values st)(v \<mapsto> ob_value (ob, h))"
  proof
    fix u
    show "st_values (put_object v (ob, h) st) u = ((st_values st)(v \<mapsto> ob_value (ob, h))) u"
    proof (cases "u = v")
      case False
      have "read_vector h a = read_vector (st_vectors st) a" if "owner st u = Some a" for a
        using rd(1) [of a] other [OF False that] by simp
      with False show ?thesis
        using value_kept [of st u h] by (simp add: st_values_def)
    qed (simp add: st_values_def)
  qed
qed

lemma owned_destroy:
  assumes "vectors_owned st" and "ob_destroy v st = Some st'"
  shows "vectors_owned st'" and "st_values st' = (st_values st)(v := None)"
proof -
  note own = assms(1) [unfolded vectors_owned_alt]
  obtain ob where ob: "st_objects st v = Some ob"
    and st': "st' = \<lparr>st_objects = (st_objects st)(v := None), st_vectors = delete_vector (ob_keys ob) (st_vectors st)\<rparr>"
    using assms(2) by (auto simp: ob_destroy_def split: option.splits)
  have o: "owner st' u = (if u = v then None else owner st u)" for u by (simp add: st' owner_def)
  have v: "owner st v = ob_keys ob" by (simp add: owner_def ob)
  have r: "read_vector (st_vectors st') a = (if owner st v = Some a then None else read_vector (st_vectors st) a)" for a
    by (simp add: st' v)
  show "vectors_owned st'"
    unfolding vectors_owned_alt o r using own by (auto split: if_splits)
  show "st_values st' = (st_values st)(v := None)"
  proof
    fix u
    have "ob_keys ob \<noteq> Some a" if "u \<noteq> v" "owner st u = Some a" for a using own that v by metis
    then show "st_values st' u = ((st_values st)(v := None)) u"
      using value_kept [of st u "st_vectors st'"] by (cases "u = v") (auto simp: st' st_values_def)
  qed
qed

section \<open>The operations on one object\<close>

definition live_object :: "it_object \<times> vectors \<Rightarrow> bool" where
  "live_object obh \<longleftrightarrow> deref_keys (fst obh) (snd obh) \<noteq> None"

lemma live_keys: "live_object (ob, h) \<Longrightarrow> deref_keys ob h = Some (it_keys (ob_value (ob, h)))"
  by (auto simp: live_object_def deref_keys_def ob_value_def split: option.splits)

lemma live_null: "live_object (ob, h) \<Longrightarrow> it_keys (ob_value (ob, h)) = None \<longleftrightarrow> ob_keys ob = None"
  by (auto simp: live_object_def deref_keys_def ob_value_def split: option.splits)

lemma ob_value_simps [simp]:
  "it_first (ob_value (ob, h)) = ob_first ob" "it_first_inc (ob_value (ob, h)) = ob_first_inc ob"
  "it_last (ob_value (ob, h)) = ob_last ob" "it_last_inc (ob_value (ob, h)) = ob_last_inc ob"
  "it_framesz (ob_value (ob, h)) = ob_framesz ob" "it_reverse_order (ob_value (ob, h)) = ob_reverse_order ob"
  "it_relpos (ob_value (ob, h)) = ob_relpos ob" "it_eol (ob_value (ob, h)) = ob_eol ob"
  by (simp_all add: ob_value_def)

lemma ob_value_updates [simp]:
  "ob_value (ob\<lparr>ob_first := k\<rparr>, h) = (ob_value (ob, h))\<lparr>it_first := k\<rparr>"
  "ob_value (ob\<lparr>ob_first_inc := b\<rparr>, h) = (ob_value (ob, h))\<lparr>it_first_inc := b\<rparr>"
  "ob_value (ob\<lparr>ob_relpos := i\<rparr>, h) = (ob_value (ob, h))\<lparr>it_relpos := i\<rparr>"
  "ob_value (ob\<lparr>ob_eol := b\<rparr>, h) = (ob_value (ob, h))\<lparr>it_eol := b\<rparr>"
  by (simp_all add: ob_value_def)

definition sim_result ::
    "(it_exception option \<times> (it_object \<times> vectors) \<times> 'c) option
     \<Rightarrow> (it_exception option \<times> key_iterator \<times> 'c) option" where
  "sim_result r = map_option (\<lambda>(e, obh, c). (e, ob_value obh, c)) r"

lemma next_frame_sim:
  assumes "live_object (ob, h)"
  shows "sim_result (ob_next_frame gkr (ob, h) c) = kr_next_frame gkr (ob_value (ob, h)) c"
proof -
  let ?it = "ob_value (ob, h)"
  have fetch: "sim_result (case gkr (ob_first ob1) (ob_first_inc ob1) (ob_last ob1) (ob_last_inc ob1)
        (ob_reverse_order ob1) (ob_framesz ob1) (it_keys ?it) c of
      (status, keys', c') \<Rightarrow>
        (case reset_keys keys' ob1 h of
           (ob2, h2) \<Rightarrow>
             if \<not> ks_ok status then
               Some (Some (Runtime_error (ks_message status)), (ob2\<lparr>ob_relpos := - 1\<rparr>, h2), c')
             else (let ob3 = ob2\<lparr>ob_relpos := 0\<rparr> in
                   if keys' = None \<or> keys' = Some [] then Some (None, (ob3\<lparr>ob_eol := True\<rparr>, h2), c')
                   else Some (None, (ob3, h2), c')))) =
    (case gkr (ob_first ob1) (ob_first_inc ob1) (ob_last ob1) (ob_last_inc ob1)
        (ob_reverse_order ob1) (ob_framesz ob1) (it_keys ?it) c of
      (status, keys', c') \<Rightarrow>
        let it2 = (ob_value (ob1, h))\<lparr>it_keys := keys'\<rparr> in
        if \<not> ks_ok status then Some (Some (Runtime_error (ks_message status)), it2\<lparr>it_relpos := - 1\<rparr>, c')
        else (let it3 = it2\<lparr>it_relpos := 0\<rparr> in
              if it_keys it3 = None \<or> it_keys it3 = Some [] then Some (None, it3\<lparr>it_eol := True\<rparr>, c')
              else Some (None, it3, c')))" for ob1
    by (auto simp: sim_result_def Let_def dest!: reset_keys_value split: prod.split)
  show ?thesis
  proof (cases "it_keys ?it")
    case None
    then show ?thesis
      unfolding ob_next_frame_def kr_next_frame_def prod.case live_keys [OF assms] option.case
      using fetch [of ob] by simp
  next
    case (Some ks)
    then show ?thesis
      unfolding ob_next_frame_def kr_next_frame_def prod.case live_keys [OF assms] option.case
      using fetch [of ob] fetch [of "ob\<lparr>ob_first := ks ! (length ks - 1), ob_first_inc := False\<rparr>"]
      by (cases "ks = []") (auto simp: sim_result_def [of None])
  qed
qed

lemma next_frame_step:
  "ob_next_frame gkr (ob, h) c = Some (e, (ob', h'), c') \<Longrightarrow> ptr_step (ob_keys ob) h (ob_keys ob') h'"
  unfolding ob_next_frame_def Let_def
  by (auto dest!: reset_keys_step split: option.splits prod.splits if_splits)

lemma advance_sim:
  assumes "live_object (ob, h)"
  shows "sim_result (ob_advance gkr (ob, h) c) = kr_advance gkr (ob_value (ob, h)) c"
proof -
  let ?ob = "ob\<lparr>ob_relpos := ob_relpos ob + 1\<rparr>"
  have l: "live_object (?ob, h)" using assms by (simp add: live_object_def deref_keys_def)
  show ?thesis
    unfolding ob_advance_def kr_advance_def Let_def prod.case live_keys [OF l]
    using next_frame_sim [OF l, of gkr c]
    by (cases "it_keys (ob_value (ob, h))") (auto simp: sim_result_def)
qed

lemma advance_step:
  "ob_advance gkr (ob, h) c = Some (e, (ob', h'), c') \<Longrightarrow> ptr_step (ob_keys ob) h (ob_keys ob') h'"
  unfolding ob_advance_def Let_def
  by (auto dest: next_frame_step simp: ptr_step_def [of p h p h for p h] split: option.splits if_splits)

section \<open>The operations on the store\<close>

lemma st_values_iff: "st_values st v = None \<longleftrightarrow> st_objects st v = None"
  by (simp add: st_values_def)

lemma owned_live:
  assumes "vectors_owned st" and "st_objects st v = Some ob"
  shows "live_object (ob, st_vectors st)" and "owner st v = ob_keys ob"
    and "st_values st v = Some (ob_value (ob, st_vectors st))"
  using assms unfolding vectors_owned_def
  by (auto simp: live_object_def deref_keys_def owner_def st_values_def split: option.split)

lemma ob_copy_values:
  assumes "vectors_owned st" and "st_objects st d = None" and "st_objects st s = Some rhs"
  obtains st' where "ob_copy d s st = Some st'" and "vectors_owned st'"
    and "st_values st' = (st_values st)(d := st_values st s)"
    and "\<forall>v. v \<noteq> d \<longrightarrow> st_objects st' v = st_objects st v"
proof -
  let ?h = "st_vectors st" and ?keys = "it_keys (ob_value (rhs, st_vectors st))"
  note live = owned_live [OF assms(1,3)]
  obtain ob h where r: "reset_keys ?keys (rhs\<lparr>ob_keys := None\<rparr>) ?h = (ob, h)" by fastforce
  have "ptr_step (owner st d) ?h (ob_keys ob) h" using reset_keys_step [OF r] assms(2) by (simp add: owner_def)
  note put = owned_put [OF assms(1) this]
  have "ob_value (ob, h) = ob_value (rhs, ?h)" using reset_keys_value [OF r] by (simp add: ob_value_def)
  with put live r assms that show thesis by (auto simp: ob_copy_def live_keys)
qed

lemma ob_assign_values:
  assumes "vectors_owned st" and "st_objects st d = Some lhs" and "st_objects st s = Some rhs"
  obtains st' where "ob_assign d s st = Some st'" and "vectors_owned st'"
    and "st_values st' = (st_values st)(d := st_values st s)"
proof (cases "d = s")
  case True
  then show thesis using assms that by (auto simp: ob_assign_def)
next
  case False
  let ?h = "st_vectors st" and ?keys = "it_keys (ob_value (rhs, st_vectors st))"
  let ?h1 = "delete_vector (ob_keys lhs) (st_vectors st)"
  note live = owned_live [OF assms(1,3)]
  have apart: "ob_keys lhs \<noteq> Some a" if "ob_keys rhs = Some a" for a
    using assms False that unfolding vectors_owned_def by blast
  then have keys: "deref_keys rhs ?h1 = Some ?keys"
    using live_keys [OF live(1)] by (auto simp: deref_keys_def split: option.splits)
  obtain ob h where r: "reset_keys ?keys (rhs\<lparr>ob_keys := None\<rparr>) ?h1 = (ob, h)" by fastforce
  have r': "reset_keys ?keys (rhs\<lparr>ob_keys := ob_keys lhs\<rparr>) ?h = (ob, h)"
    using r by (auto simp: reset_keys_def Let_def split: option.splits)
  have "ptr_step (owner st d) ?h (ob_keys ob) h"
    using reset_keys_step [OF r'] owned_live(2) [OF assms(1,2)] by simp
  note put = owned_put [OF assms(1) this]
  have "ob_value (ob, h) = ob_value (rhs, ?h)" using reset_keys_value [OF r] by (simp add: ob_value_def)
  with put live r keys assms False that show thesis
    by (auto simp: ob_assign_def reset_keys_def [of None] Let_def)
qed

text \<open>
  A command on the store does what it does on the values, and leaves every vector with its owner.
\<close>

definition same_result ::
    "(it_exception option \<times> it_store \<times> 'c) option \<Rightarrow> (it_exception option \<times> it_values \<times> 'c) option \<Rightarrow> bool" where
  "same_result r r' =
     (case r of
        None \<Rightarrow> r' = None
      | Some (e, st, c) \<Rightarrow> vectors_owned st \<and> r' = Some (e, st_values st, c))"

lemma put_result:
  assumes "vectors_owned st" and "owner st v = p"
    and "\<And>e ob' h' c'. r = Some (e, (ob', h'), c') \<Longrightarrow> ptr_step p (st_vectors st) (ob_keys ob') h'"
  shows "same_result (map_option (\<lambda>(e, obh, c'). (e, put_object v obh st, c')) r)
    (map_option (\<lambda>(e, it, c'). (e, (st_values st)(v \<mapsto> it), c')) (sim_result r))"
  using assms owned_put [OF assms(1)]
  by (cases r) (auto simp: same_result_def sim_result_def)

lemma increment_result:
  assumes "vectors_owned st"
  shows "same_result (ob_command gkr (Increment v) st c) (val_command gkr (Increment v) (st_values st) c)"
proof (cases "st_objects st v")
  case None
  then show ?thesis by (simp add: same_result_def st_values_def)
next
  case (Some ob)
  note live = owned_live [OF assms Some]
  have r: "same_result (map_option (\<lambda>(e, obh, c'). (e, put_object v obh st, c')) (ob_advance gkr (ob, st_vectors st) c))
      (map_option (\<lambda>(e, it, c'). (e, (st_values st)(v \<mapsto> it), c')) (kr_advance gkr (ob_value (ob, st_vectors st)) c))"
    unfolding advance_sim [OF live(1), symmetric]
    by (rule put_result [OF assms live(2)]) (rule advance_step)
  show ?thesis
  proof (cases "ob_relpos ob = - 1 \<or> ob_keys ob = None")
    case True
    with Some live assms show ?thesis
      by (auto simp: kr_increment_def live_null same_result_def fun_upd_idem)
  next
    case False
    with Some live r show ?thesis by (auto simp: kr_increment_def live_null)
  qed
qed

lemma destroy_result:
  assumes "vectors_owned st" and "st_objects st v \<noteq> None"
  obtains st' where "ob_destroy v st = Some st'" and "vectors_owned st'" and "st_values st' = (st_values st)(v := None)"
proof -
  obtain st' where d: "ob_destroy v st = Some st'" using assms(2) by (auto simp: ob_destroy_def)
  from that [OF d owned_destroy [OF assms(1) d]] show thesis .
qed

lemma construct_result:
  assumes "vectors_owned st"
  shows "same_result (ob_command gkr (Construct v framesz s si ek ei) st c)
    (val_command gkr (Construct v framesz s si ek ei) (st_values st) c)"
proof (cases "st_objects st v")
  case None
  define ob where "ob = \<lparr>ob_first = s, ob_first_inc = si, ob_last = ek, ob_last_inc = ei,
    ob_framesz = framesz, ob_reverse_order = False, ob_relpos = - 1, ob_eol = False, ob_keys = None\<rparr>"
  let ?r = "ob_next_frame gkr (ob, st_vectors st) c"
  have v: "ob_value (ob, st_vectors st) = \<lparr>it_first = s, it_first_inc = si, it_last = ek, it_last_inc = ei,
      it_framesz = framesz, it_reverse_order = False, it_relpos = - 1, it_eol = False, it_keys = None\<rparr>"
    by (simp add: ob_def ob_value_def)
  have live: "live_object (ob, st_vectors st)" by (simp add: ob_def live_object_def deref_keys_def)
  have new: "new_key_iterator gkr framesz s si ek ei c = sim_result ?r"
    unfolding next_frame_sim [OF live] v new_key_iterator_def ..
  have o: "owner st v = ob_keys ob" using None by (simp add: owner_def ob_def)
  have put: "vectors_owned (put_object v obh st) \<and>
      st_values (put_object v obh st) = (st_values st)(v \<mapsto> ob_value obh)" if "?r = Some (e, obh, c')" for e obh c'
    using that owned_put [OF assms, of v "fst obh" "snd obh"] next_frame_step [of gkr ob "st_vectors st" c e "fst obh" "snd obh" c'] o
    by simp
  show ?thesis
  proof (cases ?r)
    case (Some x)
    obtain e obh c' where x: "x = (e, obh, c')" by (cases x)
    note put = put [OF Some [unfolded x]]
    obtain st' where st': "ob_destroy v (put_object v obh st) = Some st'" "vectors_owned st'"
        "st_values st' = (st_values (put_object v obh st))(v := None)"
      using destroy_result [of "put_object v obh st" v] put by auto
    from Some x put st' None new show ?thesis
      by (cases e) (auto simp: ob_def [symmetric] same_result_def sim_result_def st_values_iff fun_upd_idem_iff)
  qed (use None new in \<open>simp add: ob_def [symmetric] same_result_def sim_result_def st_values_iff\<close>)
qed (simp add: same_result_def st_values_iff)

text \<open>The postfix operator: the copy stays when the iterator advances, and goes when that throws.\<close>

lemma val_post_increment:
  "env d = None \<Longrightarrow> env v = Some it \<Longrightarrow> it_relpos it \<noteq> - 1 \<Longrightarrow> it_keys it \<noteq> None \<Longrightarrow>
     val_command gkr (Post_increment d v) env c =
       map_option (\<lambda>(e, it', c'). (e, if e = None then env(v \<mapsto> it', d \<mapsto> it) else env(v \<mapsto> it'), c'))
         (kr_advance gkr it c)"
  by (auto simp: kr_post_increment_def split: option.split prod.split)

lemma post_increment_put:
  assumes "st_values st1 = (st_values st)(d := st_values st v)" and "st_values st d = None" and "d \<noteq> v"
    and "st_values st v = Some it" and put: "vectors_owned (put_object v obh st1)"
      "st_values (put_object v obh st1) = (st_values st1)(v \<mapsto> ob_value obh)"
  shows "st_values (put_object v obh st1) = (st_values st)(v \<mapsto> ob_value obh, d \<mapsto> it)"
    and "\<exists>st'. ob_destroy d (put_object v obh st1) = Some st' \<and> vectors_owned st' \<and>
      st_values st' = (st_values st)(v \<mapsto> ob_value obh)"
proof -
  show vs: "st_values (put_object v obh st1) = (st_values st)(v \<mapsto> ob_value obh, d \<mapsto> it)"
    using assms fun_upd_twist [OF assms(3)] by simp
  have "st_values (put_object v obh st1) d \<noteq> None" unfolding vs by simp
  then have "st_objects (put_object v obh st1) d \<noteq> None" by (simp only: st_values_iff not_False_eq_True)
  then obtain st' where st': "ob_destroy d (put_object v obh st1) = Some st'" "vectors_owned st'"
      "st_values st' = (st_values (put_object v obh st1))(d := None)"
    using destroy_result put(1) by metis
  moreover have "((st_values st)(v \<mapsto> ob_value obh, d \<mapsto> it))(d := None) = (st_values st)(v \<mapsto> ob_value obh)"
    using assms(2,3) by (simp add: fun_eq_iff)
  ultimately show "\<exists>st'. ob_destroy d (put_object v obh st1) = Some st' \<and> vectors_owned st' \<and>
      st_values st' = (st_values st)(v \<mapsto> ob_value obh)" by (simp add: vs)
qed

lemma post_increment_advances:
  assumes "vectors_owned st" and ob: "st_objects st v = Some ob" and d: "st_objects st d = None"
    and bad: "ob_relpos ob \<noteq> - 1" "ob_keys ob \<noteq> None"
  shows "same_result (ob_command gkr (Post_increment d v) st c) (val_command gkr (Post_increment d v) (st_values st) c)"
proof -
  have dv: "d \<noteq> v" and dn: "st_values st d = None" using ob d by (auto simp: st_values_iff)
  note live = owned_live [OF assms(1) ob]
  obtain st1 where st1: "ob_copy d v st = Some st1" "vectors_owned st1"
      "st_values st1 = (st_values st)(d := st_values st v)" "\<forall>u. u \<noteq> d \<longrightarrow> st_objects st1 u = st_objects st u"
    by (rule ob_copy_values [OF assms(1) d ob])
  have "st_objects st1 v = Some ob" using st1(4) ob dv by auto
  note live1 = owned_live [OF st1(2) this]
  let ?r = "ob_advance gkr (ob, st_vectors st1) c" and ?it = "ob_value (ob, st_vectors st)"
  have "ob_value (ob, st_vectors st1) = ?it" using live1(3) live(3) st1(3) dv by simp
  then have sim: "kr_advance gkr ?it c = sim_result ?r" using advance_sim [OF live1(1), of gkr c] by simp
  have "it_relpos ?it \<noteq> - 1" "it_keys ?it \<noteq> None" using bad live_null [OF live(1)] by auto
  note val = val_post_increment [OF dn live(3) this, of gkr c, unfolded sim]
  show ?thesis
  proof (cases ?r)
    case None
    with ob d bad st1(1) val show ?thesis by (auto simp: same_result_def sim_result_def)
  next
    case (Some x)
    obtain e ob' h' c' where x: "x = (e, (ob', h'), c')" by (cases x) auto
    from advance_step [OF Some [unfolded x]] live1(2)
    have "ptr_step (owner st1 v) (st_vectors st1) (ob_keys ob') h'" by simp
    note put = owned_put [OF st1(2) this]
    note after = post_increment_put [OF st1(3) dn dv live(3) put]
    obtain st' where st': "ob_destroy d (put_object v (ob', h') st1) = Some st'" "vectors_owned st'"
        "st_values st' = (st_values st)(v \<mapsto> ob_value (ob', h'))" using after(2) by blast
    from Some x ob d bad st1(1) val put(1) after(1) st' show ?thesis
      by (cases e) (auto simp: same_result_def sim_result_def)
  qed
qed

lemma post_increment_result:
  assumes "vectors_owned st"
  shows "same_result (ob_command gkr (Post_increment d v) st c) (val_command gkr (Post_increment d v) (st_values st) c)"
proof (cases "st_objects st d = None \<and> st_objects st v \<noteq> None")
  case True
  then obtain ob where ob: "st_objects st v = Some ob" and d: "st_objects st d = None" by auto
  have dn: "st_values st d = None" using d by (simp add: st_values_iff)
  note live = owned_live [OF assms ob]
  show ?thesis
  proof (cases "ob_relpos ob = - 1 \<or> ob_keys ob = None")
    case True
    with ob d dn live assms show ?thesis
      by (auto simp: kr_post_increment_def live_null same_result_def fun_upd_idem)
  next
    case False
    then show ?thesis using post_increment_advances [OF assms ob d] by simp
  qed
qed (auto simp: same_result_def st_values_def split: option.split)

lemma construct_end_result:
  assumes "vectors_owned st"
  shows "same_result (ob_command gkr (Construct_end v) st c) (val_command gkr (Construct_end v) (st_values st) c)"
proof (cases "st_objects st v")
  case None
  define ob where "ob = \<lparr>ob_first = [], ob_first_inc = False, ob_last = [], ob_last_inc = False,
    ob_framesz = 1, ob_reverse_order = False, ob_relpos = - 1, ob_eol = True, ob_keys = None\<rparr>"
  have v: "ob_value (ob, h) = KeyRangeEnd" for h by (simp add: ob_def ob_value_def KeyRangeEnd_def)
  from None have "ptr_step (owner st v) (st_vectors st) (ob_keys ob) (st_vectors st)"
    by (simp add: owner_def ptr_step_def ob_def)
  from owned_put [OF assms this] None show ?thesis
    by (simp add: ob_def [symmetric] v same_result_def st_values_iff)
qed (simp add: same_result_def st_values_iff)

lemma command_result:
  assumes "vectors_owned st"
  shows "same_result (ob_command gkr cmd st c) (val_command gkr cmd (st_values st) c)"
proof (cases cmd)
  case (Construct_end v)
  then show ?thesis by (simp only: construct_end_result [OF assms])
next
  case (Construct v framesz s si ek ei)
  then show ?thesis by (simp only: construct_result [OF assms])
next
  case (Copy_construct d s)
  show ?thesis
  proof (cases "st_objects st d = None \<and> st_objects st s \<noteq> None")
    case True
    then obtain rhs where "st_objects st d = None" "st_objects st s = Some rhs" by auto
    then obtain st' where "ob_copy d s st = Some st'" "vectors_owned st'"
        "st_values st' = (st_values st)(d := st_values st s)"
      by (rule ob_copy_values [OF assms])
    with Copy_construct True show ?thesis by (simp add: same_result_def st_values_iff)
  qed (use Copy_construct in \<open>auto simp: same_result_def st_values_iff ob_copy_def split: option.split\<close>)
next
  case (Assign d s)
  show ?thesis
  proof (cases "st_objects st d \<noteq> None \<and> st_objects st s \<noteq> None")
    case True
    then obtain lhs rhs where "st_objects st d = Some lhs" "st_objects st s = Some rhs" by auto
    then obtain st' where "ob_assign d s st = Some st'" "vectors_owned st'"
        "st_values st' = (st_values st)(d := st_values st s)"
      by (rule ob_assign_values [OF assms])
    with Assign True show ?thesis by (simp add: same_result_def st_values_iff)
  qed (use Assign in \<open>auto simp: same_result_def st_values_iff ob_assign_def split: option.split\<close>)
next
  case (Increment v)
  then show ?thesis by (simp only: increment_result [OF assms])
next
  case (Post_increment d v)
  then show ?thesis by (simp only: post_increment_result [OF assms])
next
  case (Destroy v)
  show ?thesis
  proof (cases "st_objects st v = None")
    case False
    obtain st' where "ob_destroy v st = Some st'" "vectors_owned st'" "st_values st' = (st_values st)(v := None)"
      by (rule destroy_result [OF assms False])
    with Destroy False show ?thesis by (simp add: same_result_def st_values_iff)
  qed (simp add: Destroy same_result_def st_values_iff ob_destroy_def)
qed

lemma run_result:
  "vectors_owned st \<Longrightarrow>
   (case ob_run gkr cmds st c of
      None \<Rightarrow> val_run gkr cmds (st_values st) c = None
    | Some (es, st', c') \<Rightarrow> vectors_owned st' \<and> val_run gkr cmds (st_values st) c = Some (es, st_values st', c'))"
proof (induction cmds arbitrary: st c)
  case (Cons cmd cmds)
  note cmd = command_result [OF Cons.prems, of gkr cmd c]
  show ?case
  proof (cases "ob_command gkr cmd st c")
    case None
    with cmd show ?thesis by (simp add: same_result_def)
  next
    case (Some x)
    obtain e st' c' where x: "x = (e, st', c')" by (cases x)
    with cmd Some have "vectors_owned st'" "val_command gkr cmd (st_values st) c = Some (e, st_values st', c')"
      by (simp_all add: same_result_def)
    with Cons.IH [OF this(1), of c'] Some x show ?thesis
      by (cases "ob_run gkr cmds st' c'") auto
  qed
qed simp

text \<open>
  C15: Iterators behave as values although each owns a vector on the heap. Any program that constructs,
  copies, assigns, advances and destroys iterators, with fetches that fail where they may, throws the
  same exceptions, makes the same calls to the connection and leaves the same iterators as over plain
  values: no operation on one iterator changes another. At every end each vector still allocated belongs
  to exactly one iterator, so that none is shared, leaked, freed twice or used after it was freed.
\<close>

theorem iterator_copies_independent:
  "case ob_run gkr cmds no_iterators c of
     None \<Rightarrow> val_run gkr cmds Map.empty c = None
   | Some (es, st, c') \<Rightarrow> vectors_owned st \<and> val_run gkr cmds Map.empty c = Some (es, st_values st, c')"
proof -
  have "vectors_owned no_iterators" by (simp add: vectors_owned_def no_iterators_def read_vector_def)
  moreover have "st_values no_iterators = Map.empty" by (simp add: st_values_def no_iterators_def fun_eq_iff)
  ultimately show ?thesis using run_result [of no_iterators gkr cmds c] by (simp only:)
qed

text \<open>A copy keeps its place while the original runs on to the next frame and is then assigned back.\<close>

theorem iterator_copies_independent_witness:
  "\<exists>es st. ob_run (example_source [[1], [2], [3]]) [Construct ''a'' 1 [1] True [3] True, Copy_construct ''b'' ''a'',
       Increment ''a'', Post_increment ''c'' ''a'', Assign ''a'' ''b'', Destroy ''b''] no_iterators () =
     Some (es, st, ()) \<and> vectors_owned st \<and>
     map_option kr_dereference (st_values st ''a'') = Some (Some (Inr [1])) \<and>
     map_option kr_dereference (st_values st ''c'') = Some (Some (Inr [2]))"
proof -
  let ?cmds = "[Construct ''a'' 1 [1] True [3] True, Copy_construct ''b'' ''a'',
       Increment ''a'', Post_increment ''c'' ''a'', Assign ''a'' ''b'', Destroy ''b'']"
  let ?gkr = "example_source [[1], [2], [3]]"
  have v: "\<exists>es env. val_run ?gkr ?cmds Map.empty () = Some (es, env, ()) \<and>
      map_option kr_dereference (env ''a'') = Some (Some (Inr [1])) \<and>
      map_option kr_dereference (env ''c'') = Some (Some (Inr [2]))"
    by (simp add: new_key_iterator_def kr_next_frame_def kr_increment_def kr_post_increment_def kr_advance_def
        example_source_def in_range_def ks_ok_def kr_dereference_def element_def Let_def)
  from v iterator_copies_independent [of ?gkr ?cmds "()"] show ?thesis
    by (cases "ob_run ?gkr ?cmds no_iterators ()") auto
qed

end
