(* ===== verification/Spec2Isabelle.thy ===== *)
theory Spec2Isabelle
  imports Factory Streams Nested_Run Liveness Iterator_Copies
begin

text \<open>
  A verification library of the Kinetic C++ client, which speaks the Kinetic protocol to a key-value
  drive over TCP or SSL.

  \<^bold>\<open>The program and its theories.\<close> The client is built in layers, and the theories follow them, bottom
  up. Paths are under \<open>src/src/main\<close> unless they are headers, which are under \<open>src/include/kinetic\<close>.

  \<^item> \<open>Kinetic_Prelude\<close>: machine types, network byte order, \<open>std::unordered_map\<close>, lemmas on lists.
  \<^item> \<open>Status_Codes\<close>: \<open>status_code.cc\<close>, \<open>kinetic_status.h\<close>, \<open>status.h\<close> and the message table of the
    receiver. \<open>Messages\<close>: the data types of the API headers, and records of the fields of the generated
    protocol buffer classes that the source names.
  \<^item> \<open>Transport\<close>: \<open>nonblocking_string.cc\<close>, the two loops over the socket. \<open>Packet\<close>: \<open>nonblocking_packet.cc\<close>,
    the state machines that write and read a packet (magic byte, two lengths, message, value). \<open>Hmac\<close>:
    \<open>hmac_provider.cc\<close>.
  \<^item> \<open>Sender\<close>: \<open>nonblocking_packet_sender.cc\<close>, the queue of requests. \<open>Receiver\<close>:
    \<open>nonblocking_packet_receiver.cc\<close>, the handlers that wait for a response, by sequence number, and the
    handshake of the constructor. The sender hands a handler over to the receiver when its request is
    written; \<open>Sender\<close> states what it relies on as the locale of a receiver, which \<open>Receiver\<close> interprets
    with its own definitions.
  \<^item> \<open>Service\<close>: \<open>nonblocking_packet_service.cc\<close>, which puts the two together; \<open>v_reach\<close> is every history of
    \<open>Submit\<close>, \<open>Run\<close> and \<open>Remove\<close>. \<open>Handlers\<close>: the response handlers of
    \<open>nonblocking_kinetic_connection.cc\<close>, from responses to callbacks. \<open>Connection\<close>: the calls of that
    file, which build the requests; \<open>n_reach\<close> is every history of the API. \<open>Pending\<close>: which key belongs
    to which handler along a history.
  \<^item> \<open>Reentrancy\<close>: the functions of the sender, the receiver and the service once more, with callbacks that
    submit further requests while \<open>Run\<close> or \<open>Submit\<close> calls them. The calls a callback makes go through one
    argument; the locale \<open>reacting_caller\<close> says what the proofs need of it. \<open>re_reach\<close> is every history
    of such a client. \<open>Callback_Removal\<close>: the same functions with callbacks that also call \<open>Remove\<close>, so
    that the map changes under the loop that goes over it; its locale is \<open>cancelling_caller\<close>, its
    histories are \<open>ca_reach\<close>. \<open>Nested_Run\<close>: what a callback that calls \<open>Run\<close> does to the \<open>Run\<close> that
    called it.
  \<^item> \<open>Blocking\<close>: \<open>blocking_kinetic_connection.cc\<close>, callback objects, every operation and the loop around
    \<open>select\<close>; \<open>b_reach\<close> is every history of blocking operations. \<open>Liveness\<close>: what one operation
    does when the kernel and the drive do their part. \<open>Key_Range\<close>: \<open>key_range_iterator.cc\<close>, with
    iterators as values; \<open>Iterator_Copies\<close>: the same class with its vectors on a heap, and the proof that
    nobody can tell the difference.
  \<^item> \<open>Monitor\<close>: threads, a recursive mutex and interleaved steps; its locale \<open>monitor\<close> says that every
    method locks around one operation, and gives exclusion, linearizability and freedom from deadlock.
    \<open>Threadsafe_Nonblocking\<close> and \<open>Threadsafe_Blocking\<close> (the files of these names) interpret it.
  \<^item> \<open>Socket\<close>: \<open>socket_wrapper.cc\<close>, with the locks it registers with OpenSSL. \<open>Factory\<close>: \<open>kinetic_connection_factory.cc\<close>, from the options to a
    connection in the starting state of the histories above.
  \<^item> \<open>Streams\<close>: the library's blocking transport (\<open>reader_writer.cc\<close>, \<open>byte_stream.cc\<close>,
    \<open>message_stream.cc\<close> and the string values), whose locale \<open>byte_stream\<close> is \<open>ByteStreamInterface\<close>.

  \<^bold>\<open>State.\<close> Each class is a record with the class's members; methods are functions that take and return
  it. The socket and the callbacks made so far are the record \<open>world\<close>: what will arrive, what the
  kernel will accept, what was sent, and a log of calls to handlers. Strings are byte lists, integers
  have the width they have in the code (handler keys and sequence numbers wrap at \<open>2 ^ 64\<close>), except
  descriptors and clocks, which are integers, and byte counts of a single buffer, which are naturals; no
  call of the kernel moves more bytes than an \<open>int\<close> holds.

  \<^bold>\<open>Environment.\<close> What the kernel, OpenSSL or the clock answers is a script, a list that calls consume;
  theorems quantify over all scripts, so over every way of splitting data, interrupting, failing or
  staying silent. A used-up read or write script answers EAGAIN. Parsing, serialization, the hash
  function, the names of message types and \<open>strerror\<close> are parameters (\<open>codec\<close>, \<open>lib\<close>); where a theorem
  needs a law of them it is a hypothesis and has a witness. A failed glog \<open>CHECK\<close>, a null dereference
  or an index out of bounds is a value of its own (\<open>kAbort\<close>, \<open>kCrash\<close>, None, \<open>Undefined\<close>), and the
  invariants show which of them cannot happen.

  \<^bold>\<open>What is proved.\<close>
  \<^item> Handlers: from any history, each handler and so each callback given to the client is waiting, was
    told its outcome, or was removed, exactly once (\<open>every_handler_once\<close>, \<open>api_callback_once\<close>), also
    with threads (\<open>concurrent_callbacks_once\<close>) and with callbacks that submit more requests and take
    requests back (\<open>cancelling_handlers_once\<close>); keys and sequence numbers identify requests, queued, in
    flight or waiting; receiving
    refines matching responses by sequence number; a failed service stays failed and does nothing.
  \<^item> Bytes: packets go out in order, whole and resumable, and are read back exactly, by the non-blocking
    reader and by message streams; requests carry the contents, type, key, cluster version and HMAC of
    their call; a record that was put is what a get delivers, and the status of a failure converts back
    to the one that the drive sent.
  \<^item> Blocking operations return what happened to their own request, wait only on the socket, return by
    the deadline, and leave a callback object behind in one case only. When the drive answers in time,
    they return the answer (\<open>answered_operation_returns_answer\<close>).
  \<^item> Iterators visit every key of a range once and in order, as long as their requests succeed, and copies
    of them are independent. Sockets connect to the first address that works, sockets and factories leak
    no descriptor, and what the factory returns is in the state that the histories start from. The
    mutexes given to OpenSSL are there as long as it has the callback; which of them may be destroyed
    in use, because nothing waits for the threads at the end, is said exactly (\<open>openssl_locks_safe\<close>).
  \<^item> Where the code does not do what it documents, the theorem says what it does: the secure erase of the
    thread-safe blocking connection, iterators that bypass its mutex at the end of a frame, the deadline, the callback of a
    half-written request, comparing exhausted iterators, a client that answers every error by a new
    request (\<open>resubmitting_client_never_returns\<close>), requests that callbacks submit and that \<open>Run\<close>
    does not announce (\<open>callback_requests_not_announced\<close>), and a \<open>Run\<close> from inside a callback
    (\<open>nested_run_tells_handler_twice\<close>, \<open>nested_run_aborts\<close>).

  \<^bold>\<open>Bounds and fuel.\<close> Loops whose script decreases are functions with a measure, the size of the script.
  \<open>pr_poll\<close> polls at most one time more than the script has events and bytes, and \<open>kr_loop\<close> turns one
  time more than there are keys: the theorems show that this is enough. The loop of a blocking operation
  and the handshake run over a list of rounds, and are \<open>Blocked\<close> or waiting when it is used up; that
  they end is proved from the clock, for every list of rounds. The functions of \<open>Reentrancy\<close> and
  \<open>Callback_Removal\<close> need fuel, since a client can keep them busy for ever: they are proved to return
  if the client falls silent after some number of calls, with a bound on the fuel if it never reacts,
  and not to return after a failed write for a client that answers errors. Keys are distinct below
  \<open>2 ^ 64\<close> requests. The position of an iterator is an integer: it differs from the code's \<open>int\<close> only
  for a drive that answers with more than \<open>2 ^ 31 - 1\<close> keys at once.

  \<^bold>\<open>Not modelled.\<close> Logging; the socket options that only affect timing (TCP_CORK, TCP_NODELAY); memory
  other than the iterators' vectors, the mutexes of OpenSSL and the SSL objects of message streams, so
  strings and messages are values; \<open>Run\<close> called from inside a callback, but for the two cases of \<open>Nested_Run\<close>, and the destructor;
  the pointer of an iterator to its connection (all iterators of a program are over one connection);
  \<open>copying_ssl_stream.h\<close>, which nothing defines; mocks and tests. SSL records are bytes: \<open>SSL_read\<close> and
  \<open>SSL_write\<close> answer like \<open>read\<close> and \<open>send\<close>; what they do with a length that is no \<open>int\<close> is a case of
  \<open>Streams\<close>, and of the scripts of \<open>Transport\<close>. The iteration order of an unordered map is that of a list,
  and no theorem depends on it but by multisets.
\<close>

end
